(* ===== verification/Prelude.thy ===== *)
theory Prelude
  imports Main "HOL-Library.Word" "HOL-Library.Multiset"
begin

text \<open>
  Shared vocabulary of the development: the machine integers of the C code
  (\<open>types.h\<close>), the outcome of a kernel routine (it returns, panics, goes to
  sleep, or dereferences a pointer it must not), the state-passing
  combinators every component is written with, a weakest-precondition
  calculus for them, little-endian access to byte arrays (what a cast such as
  \<^verbatim>\<open>(uint*)bp->data\<close> does on the x86), and doubly linked chains, which both
  the buffer cache and the window queue are made of.
\<close>

unbundle bit_operations_syntax

section \<open>Machine integers\<close>

type_synonym u8 = "8 word"    \<comment> \<open>\<open>uchar\<close>\<close>
type_synonym u16 = "16 word"  \<comment> \<open>\<open>ushort\<close> and \<open>short\<close>\<close>
type_synonym u32 = "32 word"  \<comment> \<open>\<open>uint\<close>, \<open>int\<close> and pointers\<close>

lemma unat_inject [simp]: "unat a = unat b \<longleftrightarrow> a = b"
  by (metis word_unat_eq_iff)

lemma unat_of_nat32: "n < 4294967296 \<Longrightarrow> unat (of_nat n :: u32) = n"
  by (simp add: unat_of_nat take_bit_nat_eq_self)

lemma unat_plus32: "unat a + n < 4294967296 \<Longrightarrow> unat ((a :: u32) + of_nat n) = unat a + n"
proof -
  assume "unat a + n < 4294967296"
  moreover have "a + of_nat n = of_nat (unat a + n)" by simp
  ultimately show ?thesis by (metis unat_of_nat32)
qed

lemma sint_of_int32: "0 \<le> n \<Longrightarrow> n < 2147483648 \<Longrightarrow> sint (of_int n :: u32) = n"
  by (simp add: signed_of_int signed_take_bit_int_eq_self)

named_theorems kwp_intros
  \<open>specifications of operations, as introduction rules for weakest preconditions\<close>
named_theorems byte_simps
  \<open>rewriting of typed reads after typed writes of byte arrays\<close>

section \<open>Outcomes of kernel code\<close>

text \<open>
  \<open>Panic\<close> is a call of \<open>panic()\<close>, which never returns. \<open>Sleep\<close> is reached
  where the code calls \<open>sleep()\<close>: the routine would go on only after another
  process wakes it. \<open>Fault\<close> is a null or out-of-range dereference, for
  which C gives no result.
\<close>

datatype 'a res = Ok 'a | Panic string | Sleep string | Fault string

type_synonym ('s, 'a) km = "'s \<Rightarrow> ('a \<times> 's) res"

definition kret :: "'a \<Rightarrow> ('s, 'a) km" where
  "kret x = (\<lambda>s. Ok (x, s))"

definition kbind :: "('s, 'a) km \<Rightarrow> ('a \<Rightarrow> ('s, 'b) km) \<Rightarrow> ('s, 'b) km" where
  "kbind m f = (\<lambda>s. case m s of
     Ok (x, t) \<Rightarrow> f x t | Panic e \<Rightarrow> Panic e | Sleep e \<Rightarrow> Sleep e | Fault e \<Rightarrow> Fault e)"

definition kthen :: "('s, 'a) km \<Rightarrow> ('s, 'b) km \<Rightarrow> ('s, 'b) km" where
  "kthen m n = kbind m (\<lambda>_. n)"

definition kpanic :: "string \<Rightarrow> ('s, 'a) km" where
  "kpanic e = (\<lambda>s. Panic e)"

definition ksleep :: "string \<Rightarrow> ('s, 'a) km" where
  "ksleep e = (\<lambda>s. Sleep e)"

definition kfault :: "string \<Rightarrow> ('s, 'a) km" where
  "kfault e = (\<lambda>s. Fault e)"

definition kget :: "('s \<Rightarrow> 'a) \<Rightarrow> ('s, 'a) km" where
  "kget f = (\<lambda>s. Ok (f s, s))"

definition kmod :: "('s \<Rightarrow> 's) \<Rightarrow> ('s, unit) km" where
  "kmod f = (\<lambda>s. Ok ((), f s))"

lemmas kdefs = kret_def kbind_def kthen_def kpanic_def ksleep_def kfault_def kget_def kmod_def

lemma kbind_Ok: "m s = Ok (x, t) \<Longrightarrow> kbind m f s = f x t"
  by (simp add: kbind_def)

lemma kthen_Ok: "m s = Ok (x, t) \<Longrightarrow> kthen m n s = n t"
  by (simp add: kthen_def kbind_def)

subsection \<open>Weakest preconditions\<close>

text \<open>
  \<open>kwp m Q s\<close>: started in \<open>s\<close>, the routine returns (it neither panics nor
  sleeps nor faults) and its result and final state satisfy \<open>Q\<close>.
\<close>

definition kwp :: "('s, 'a) km \<Rightarrow> ('a \<Rightarrow> 's \<Rightarrow> bool) \<Rightarrow> 's \<Rightarrow> bool" where
  "kwp m Q s = (case m s of Ok (x, t) \<Rightarrow> Q x t | _ \<Rightarrow> False)"

lemma kwp_ret [simp]: "kwp (kret x) Q = Q x"
  by (simp add: kwp_def kret_def fun_eq_iff)

lemma kwp_bind [simp]: "kwp (kbind m f) Q = kwp m (\<lambda>x. kwp (f x) Q)"
  by (auto simp: kwp_def kbind_def fun_eq_iff split: res.splits)

lemma kwp_then [simp]: "kwp (kthen m n) Q = kwp m (\<lambda>_. kwp n Q)"
  by (simp add: kthen_def)

lemma kwp_panic [simp]: "kwp (kpanic e) Q = (\<lambda>s. False)"
  and kwp_sleep [simp]: "kwp (ksleep e) Q = (\<lambda>s. False)"
  and kwp_fault [simp]: "kwp (kfault e) Q = (\<lambda>s. False)"
  by (simp_all add: kwp_def kpanic_def ksleep_def kfault_def fun_eq_iff)

lemma kwp_get [simp]: "kwp (kget f) Q = (\<lambda>s. Q (f s) s)"
  by (simp add: kwp_def kget_def fun_eq_iff)

lemma kwp_mod [simp]: "kwp (kmod f) Q = (\<lambda>s. Q () (f s))"
  by (simp add: kwp_def kmod_def fun_eq_iff)

lemma kwp_mono: "kwp m Q s \<Longrightarrow> (\<And>x t. Q x t \<Longrightarrow> R x t) \<Longrightarrow> kwp m R s"
  by (auto simp: kwp_def split: res.splits)

lemma kwpE: "kwp m Q s \<Longrightarrow> (\<And>x t. m s = Ok (x, t) \<Longrightarrow> Q x t \<Longrightarrow> P) \<Longrightarrow> P"
  by (auto simp: kwp_def split: res.splits)

lemma kwpI: "m s = Ok (x, t) \<Longrightarrow> Q x t \<Longrightarrow> kwp m Q s"
  by (simp add: kwp_def)

lemma kwp_Ok: "kwp m Q s \<longleftrightarrow> (\<exists>x t. m s = Ok (x, t) \<and> Q x t)"
  by (auto simp: kwp_def split: res.splits)

lemma kwp_conj: "kwp m Q s \<Longrightarrow> kwp m R s \<Longrightarrow> kwp m (\<lambda>x t. Q x t \<and> R x t) s"
  by (auto simp: kwp_def split: res.splits)

text \<open>A loop over a list of indices, as a C \<open>for\<close> without early exit.\<close>

primrec kfor :: "'i list \<Rightarrow> ('i \<Rightarrow> ('s, unit) km) \<Rightarrow> ('s, unit) km" where
  "kfor [] f = kret ()"
| "kfor (i # is) f = kthen (f i) (kfor is f)"

lemma kwp_for_inv:
  assumes "I [] s"
    and step: "\<And>pre i suf t. is = pre @ i # suf \<Longrightarrow> I pre t \<Longrightarrow> kwp (f i) (\<lambda>_. I (pre @ [i])) t"
  shows "kwp (kfor is f) (\<lambda>_. I is) s"
proof -
  have "kwp (kfor suf f) (\<lambda>_. I is) t" if "is = pre @ suf" "I pre t" for pre suf t
    using that
  proof (induction suf arbitrary: pre t)
    case Nil
    then show ?case by simp
  next
    case (Cons i suf)
    have "kwp (f i) (\<lambda>_. I (pre @ [i])) t"
      using Cons.prems by (intro step) auto
    then have "kwp (f i) (\<lambda>_. kwp (kfor suf f) (\<lambda>_. I is)) t"
      by (rule kwp_mono) (rule Cons.IH, use Cons.prems(1) in simp_all)
    then show ?case by simp
  qed
  from this [of "[]" "is" s] assms(1) show ?thesis by simp
qed

lemma kwp_for_upt:
  assumes "I 0 s" and step: "\<And>k t. k < n \<Longrightarrow> I k t \<Longrightarrow> kwp (f k) (\<lambda>_. I (Suc k)) t"
    and post: "\<And>t. I n t \<Longrightarrow> Q () t"
  shows "kwp (kfor [0..<n] f) Q s"
proof -
  have "kwp (kfor [0..<n] f) (\<lambda>_. I (length [0..<n])) s"
  proof (rule kwp_for_inv [where I = "\<lambda>pre. I (length pre)"])
    fix pre i suf t
    assume eq: "[0..<n] = pre @ i # suf" and I: "I (length pre) t"
    have "length [0..<n] = length (pre @ i # suf)" "[0..<n] ! length pre = i"
      by (simp_all only: eq nth_append_length)
    then have "length pre < n" and i: "[0..<n] ! length pre = i" by auto
    moreover from this have "length pre = i" by (metis add_0 nth_upt)
    ultimately show "kwp (f i) (\<lambda>_. I (length (pre @ [i]))) t" using step [of "length pre" t] I by simp
  qed (simp add: assms(1))
  then show ?thesis by (rule kwp_mono) (use post in auto)
qed

lemma kfor_append: "kfor (xs @ ys) f = kthen (kfor xs f) (kfor ys f)"
proof (induction xs)
  case Nil
  show ?case by (rule ext) (simp add: kdefs)
next
  case (Cons x xs)
  show ?case
    by (rule ext) (simp add: Cons.IH, simp add: kdefs split: res.splits prod.splits)
qed

subsection \<open>What a routine leaves alone\<close>

text \<open>\<open>kpres f m\<close>: whenever \<open>m\<close> returns, the part \<open>f\<close> of the state is unchanged.\<close>

definition kpres :: "('s \<Rightarrow> 'b) \<Rightarrow> ('s, 'a) km \<Rightarrow> bool" where
  "kpres f m \<longleftrightarrow> (\<forall>s x t. m s = Ok (x, t) \<longrightarrow> f t = f s)"

named_theorems kpres_intros
  \<open>parts of the state that routines leave alone\<close>

lemma kpresD: "kpres f m \<Longrightarrow> m s = Ok (x, t) \<Longrightarrow> f t = f s"
  by (auto simp: kpres_def)

lemma kpres_basic [kpres_intros]:
  "kpres f (kret x)" "kpres f (kget g)" "kpres f (kpanic e)" "kpres f (ksleep e)" "kpres f (kfault e)"
  by (simp_all add: kpres_def kdefs)

lemma kpres_mod [kpres_intros]: "(\<And>s. f (g s) = f s) \<Longrightarrow> kpres f (kmod g)"
  by (simp add: kpres_def kdefs)

lemma kpres_bind [kpres_intros]: "kpres f m \<Longrightarrow> (\<And>x. kpres f (g x)) \<Longrightarrow> kpres f (kbind m g)"
  by (fastforce simp: kpres_def kbind_def split: res.splits)

lemma kpres_then [kpres_intros]: "kpres f m \<Longrightarrow> kpres f n \<Longrightarrow> kpres f (kthen m n)"
  by (simp add: kthen_def kpres_bind)

lemma kpres_if [kpres_intros]: "(c \<Longrightarrow> kpres f m) \<Longrightarrow> (\<not> c \<Longrightarrow> kpres f n) \<Longrightarrow> kpres f (if c then m else n)"
  by simp

lemma kpres_for [kpres_intros]: "(\<And>i. kpres f (g i)) \<Longrightarrow> kpres f (kfor is g)"
  by (induction "is") (auto intro: kpres_intros)

lemma kpres_for_mem: "(\<And>i. i \<in> set is \<Longrightarrow> kpres f (g i)) \<Longrightarrow> kpres f (kfor is g)"
  by (induction "is") (auto intro: kpres_intros)

section \<open>Searching a list\<close>

lemma find_SomeD: "List.find P xs = Some x \<Longrightarrow> x \<in> set xs \<and> P x"
  by (auto simp: find_Some_iff)

lemma find_unique:
  assumes "P i" "i < n" "\<And>j. j < n \<Longrightarrow> P j \<Longrightarrow> j = i"
  shows "List.find P [0..<n] = Some i"
proof -
  have "i \<in> set [0..<n]" using assms(2) by simp
  then have "List.find P [0..<n] \<noteq> None" using assms(1) by (auto simp: find_None_iff)
  then obtain k where k: "List.find P [0..<n] = Some k" by auto
  then have "P k" "k < n" by (auto simp: find_Some_iff)
  then show ?thesis using assms(3) k by simp
qed

lemma find_nobody: "(\<And>j. j < n \<Longrightarrow> \<not> P j) \<Longrightarrow> List.find P [0..<n] = None"
  by (auto simp: find_None_iff)

lemma find_rev_last:
  "List.find P (rev ys) = (if filter P ys = [] then None else Some (last (filter P ys)))"
  by (induction ys rule: rev_induct) auto

lemma find_first: "i < n \<Longrightarrow> P i \<Longrightarrow> (\<And>j. j < i \<Longrightarrow> \<not> P j) \<Longrightarrow> List.find P [0..<n] = Some i"
  by (auto simp: find_Some_iff intro!: exI [of _ i])

section \<open>Byte arrays\<close>

text \<open>
  A disk sector or a C object in memory is a list of bytes. \<open>slice\<close> and
  \<open>splice\<close> are a \<open>memmove\<close> out of and into such an array; \<open>get16\<close>,
  \<open>get32\<close>, \<open>put16\<close>, \<open>put32\<close> read and write a field of type \<open>short\<close> or
  \<open>int\<close> at a byte offset.
\<close>

definition slice :: "'a list \<Rightarrow> nat \<Rightarrow> nat \<Rightarrow> 'a list" where
  "slice d off n = take n (drop off d)"

definition splice :: "'a list \<Rightarrow> nat \<Rightarrow> 'a list \<Rightarrow> 'a list" where
  "splice d off xs = take off d @ xs @ drop (off + length xs) d"

definition get16 :: "u8 list \<Rightarrow> nat \<Rightarrow> u16" where
  "get16 d off = ucast (d ! off) OR push_bit 8 (ucast (d ! (off + 1)))"

definition get32 :: "u8 list \<Rightarrow> nat \<Rightarrow> u32" where
  "get32 d off = ucast (d ! off) OR push_bit 8 (ucast (d ! (off + 1)))
     OR push_bit 16 (ucast (d ! (off + 2))) OR push_bit 24 (ucast (d ! (off + 3)))"

definition bytes16 :: "u16 \<Rightarrow> u8 list" where
  "bytes16 v = [ucast v, ucast (drop_bit 8 v)]"

definition bytes32 :: "u32 \<Rightarrow> u8 list" where
  "bytes32 v = [ucast v, ucast (drop_bit 8 v), ucast (drop_bit 16 v), ucast (drop_bit 24 v)]"

definition put16 :: "u8 list \<Rightarrow> nat \<Rightarrow> u16 \<Rightarrow> u8 list" where
  "put16 d off v = splice d off (bytes16 v)"

definition put32 :: "u8 list \<Rightarrow> nat \<Rightarrow> u32 \<Rightarrow> u8 list" where
  "put32 d off v = splice d off (bytes32 v)"

lemma length_bytes16 [simp]: "length (bytes16 v) = 2"
  and length_bytes32 [simp]: "length (bytes32 w) = 4"
  by (simp_all add: bytes16_def bytes32_def)

lemma length_slice [simp]: "off + n \<le> length d \<Longrightarrow> length (slice d off n) = n"
  by (simp add: slice_def)

lemma length_splice [simp]: "off + length xs \<le> length d \<Longrightarrow> length (splice d off xs) = length d"
  by (simp add: splice_def)

lemma nth_splice:
  "off + length xs \<le> length d \<Longrightarrow> i < length d \<Longrightarrow>
    splice d off xs ! i = (if off \<le> i \<and> i < off + length xs then xs ! (i - off) else d ! i)"
  by (auto simp: splice_def nth_append min_def not_le)

lemma nth_slice: "i < n \<Longrightarrow> off + n \<le> length d \<Longrightarrow> slice d off n ! i = d ! (off + i)"
  by (simp add: slice_def)

lemma slice_splice_same [byte_simps]:
  "off + length xs \<le> length d \<Longrightarrow> n = length xs \<Longrightarrow> slice (splice d off xs) off n = xs"
  by (simp add: slice_def splice_def)

lemma slice_splice_other [byte_simps]:
  assumes "off + length xs \<le> length d" "off' + n \<le> length d"
    "off' + n \<le> off \<or> off + length xs \<le> off'"
  shows "slice (splice d off xs) off' n = slice d off' n"
  using assms by (intro nth_equalityI) (auto simp: nth_slice nth_splice)

lemma splice_splice_same: "off + length xs \<le> length d \<Longrightarrow> length ys = length xs \<Longrightarrow>
    splice (splice d off xs) off ys = splice d off ys"
  by (simp add: splice_def)

lemma splice_slice_id: "off + n \<le> length d \<Longrightarrow> splice d off (slice d off n) = d"
  by (intro nth_equalityI) (auto simp: nth_splice nth_slice)

lemma length_put16 [simp]: "off + 2 \<le> length d \<Longrightarrow> length (put16 d off v) = length d"
  and length_put32 [simp]: "off + 4 \<le> length d \<Longrightarrow> length (put32 d off w) = length d"
  by (simp_all add: put16_def put32_def)

lemma u16_of_bytes: "ucast (ucast v :: u8) OR push_bit 8 (ucast (ucast (drop_bit 8 v) :: u8)) = (v :: u16)"
  by (rule bit_word_eqI) (auto simp: bit_simps not_less)

lemma u32_of_bytes:
  "ucast (ucast v :: u8) OR push_bit 8 (ucast (ucast (drop_bit 8 v) :: u8))
    OR push_bit 16 (ucast (ucast (drop_bit 16 v) :: u8))
    OR push_bit 24 (ucast (ucast (drop_bit 24 v) :: u8)) = (v :: u32)"
proof (rule bit_word_eqI)
  fix n :: nat
  assume n: "n < LENGTH(32)"
  consider "n < 8" | "8 \<le> n" "n < 16" | "16 \<le> n" "n < 24" | "24 \<le> n"
    by linarith
  then show "bit (ucast (ucast v :: u8) OR push_bit 8 (ucast (ucast (drop_bit 8 v) :: u8))
    OR push_bit 16 (ucast (ucast (drop_bit 16 v) :: u8))
    OR push_bit 24 (ucast (ucast (drop_bit 24 v) :: u8)) :: u32) n = bit v n"
    using n by cases (auto simp: bit_simps)
qed

lemma get16_put16 [byte_simps]: "off + 2 \<le> length d \<Longrightarrow> get16 (put16 d off v) off = v"
  by (simp add: get16_def put16_def nth_splice bytes16_def u16_of_bytes)

lemma get32_put32 [byte_simps]: "off + 4 \<le> length d \<Longrightarrow> get32 (put32 d off v) off = v"
  by (simp add: get32_def put32_def nth_splice bytes32_def u32_of_bytes)

lemma get16_splice_other [byte_simps]:
  "off + length xs \<le> length d \<Longrightarrow> off' + 2 \<le> length d \<Longrightarrow> off' + 2 \<le> off \<or> off + length xs \<le> off' \<Longrightarrow>
    get16 (splice d off xs) off' = get16 d off'"
  by (auto simp: get16_def nth_splice)

lemma get32_splice_other [byte_simps]:
  "off + length xs \<le> length d \<Longrightarrow> off' + 4 \<le> length d \<Longrightarrow> off' + 4 \<le> off \<or> off + length xs \<le> off' \<Longrightarrow>
    get32 (splice d off xs) off' = get32 d off'"
  by (auto simp: get32_def nth_splice)

lemma get32_put32_other [byte_simps]:
  "off + 4 \<le> length d \<Longrightarrow> off' + 4 \<le> length d \<Longrightarrow> off' + 4 \<le> off \<or> off + 4 \<le> off' \<Longrightarrow>
    get32 (put32 d off v) off' = get32 d off'"
  by (simp add: put32_def byte_simps)

lemma get16_put16_other [byte_simps]:
  "off + 2 \<le> length d \<Longrightarrow> off' + 2 \<le> length d \<Longrightarrow> off' + 2 \<le> off \<or> off + 2 \<le> off' \<Longrightarrow>
    get16 (put16 d off v) off' = get16 d off'"
  by (simp add: put16_def byte_simps)

lemma get16_put32_other [byte_simps]:
  "off + 4 \<le> length d \<Longrightarrow> off' + 2 \<le> length d \<Longrightarrow> off' + 2 \<le> off \<or> off + 4 \<le> off' \<Longrightarrow>
    get16 (put32 d off v) off' = get16 d off'"
  by (simp add: put32_def byte_simps)

lemma get32_put16_other [byte_simps]:
  "off + 2 \<le> length d \<Longrightarrow> off' + 4 \<le> length d \<Longrightarrow> off' + 4 \<le> off \<or> off + 2 \<le> off' \<Longrightarrow>
    get32 (put16 d off v) off' = get32 d off'"
  by (simp add: put16_def byte_simps)

lemma get32_replicate_0 [byte_simps]: "off + 4 \<le> n \<Longrightarrow> get32 (replicate n 0) off = 0"
  and get16_replicate_0 [byte_simps]: "off + 2 \<le> n \<Longrightarrow> get16 (replicate n 0) off = 0"
  by (simp_all add: get32_def get16_def)

section \<open>Doubly linked chains\<close>

text \<open>
  \<open>links n p xs\<close>: walking \<open>n\<close> (a \<open>next\<close> field) from the first node visits
  the nodes of \<open>xs\<close> in order, and \<open>p\<close> (a \<open>prev\<close> field) walks back.
\<close>

fun links :: "('n \<Rightarrow> 'n) \<Rightarrow> ('n \<Rightarrow> 'n) \<Rightarrow> 'n list \<Rightarrow> bool" where
  "links n p (x # y # zs) = (n x = y \<and> p y = x \<and> links n p (y # zs))"
| "links n p _ = True"

lemma links_append:
  "links n p (xs @ y # zs) \<longleftrightarrow> links n p (xs @ [y]) \<and> links n p (y # zs)"
  by (induction n p xs rule: links.induct) (auto simp: neq_Nil_conv)

lemma links_cong:
  "links n p xs \<Longrightarrow> (\<And>x. x \<in> set (butlast xs) \<Longrightarrow> n' x = n x) \<Longrightarrow>
    (\<And>x. x \<in> set (tl xs) \<Longrightarrow> p' x = p x) \<Longrightarrow> links n' p' xs"
  by (induction n p xs rule: links.induct) (auto split: if_splits)

lemma links_snoc2: "links n p (xs @ [x, y]) \<longleftrightarrow> links n p (xs @ [x]) \<and> n x = y \<and> p y = x"
  using links_append [of n p xs x "[y]"] by simp

lemma links_remove:
  assumes "links n p (us @ a # b # c # ws)"
    and "distinct (butlast (us @ a # b # c # ws))" "distinct (tl (us @ a # b # c # ws))"
  shows "links (n(a := c)) (p(c := a)) (us @ a # c # ws)"
proof -
  have l1: "links n p (us @ [a])" and l2: "links n p (c # ws)"
    using assms(1) links_append [of n p us a "b # c # ws"] by auto
  have a: "a \<notin> set us" "a \<notin> set (butlast (c # ws))"
    using assms(2) by (auto simp: butlast_append split: if_splits)
  have c: "c \<notin> set (tl (us @ [a]))" "c \<notin> set ws"
    using assms(3) by (cases us; auto)+
  have "links (n(a := c)) (p(c := a)) (us @ [a])"
    using l1 by (rule links_cong) (use a c in \<open>auto simp: butlast_append\<close>)
  moreover have "links (n(a := c)) (p(c := a)) (c # ws)"
    using l2 by (rule links_cong) (use a c in auto)
  ultimately show ?thesis
    using links_append [of "n(a := c)" "p(c := a)" us a "c # ws"] by auto
qed

lemma links_insert:
  assumes "links n p (us @ a # c # ws)"
    and "distinct (butlast (us @ a # c # ws))" "distinct (tl (us @ a # c # ws))"
    and "b \<notin> set (us @ a # c # ws)"
  shows "links (n(b := c, a := b)) (p(b := a, c := b)) (us @ a # b # c # ws)"
proof -
  let ?n = "n(b := c, a := b)" and ?p = "p(b := a, c := b)"
  have l1: "links n p (us @ [a])" and l2: "links n p (c # ws)"
    using assms(1) links_append [of n p us a "c # ws"] by auto
  have a: "a \<notin> set us" "a \<notin> set (butlast (c # ws))"
    using assms(2) by (auto simp: butlast_append split: if_splits)
  have c: "c \<notin> set (tl (us @ [a]))" "c \<notin> set ws"
    using assms(3) by (cases us; auto)+
  have b: "b \<notin> set us" "b \<noteq> a" "b \<noteq> c" "b \<notin> set ws" using assms(4) by auto
  have "links ?n ?p (us @ [a])"
    using l1 by (rule links_cong) (use a b c in \<open>cases us; auto simp: butlast_append\<close>)+
  moreover have "links ?n ?p (c # ws)"
    using l2 by (rule links_cong) (use a b c in \<open>auto dest: in_set_butlastD split: if_splits\<close>)
  ultimately show ?thesis
    using b links_append [of ?n ?p us a "b # c # ws"] by auto
qed

lemma links_nth_next:
  "links n p xs \<Longrightarrow> Suc i < length xs \<Longrightarrow> n (xs ! i) = xs ! Suc i \<and> p (xs ! Suc i) = xs ! i"
  by (induction n p xs arbitrary: i rule: links.induct) (auto simp: nth_Cons split: nat.splits)

lemma links_rev: "links n p xs \<longleftrightarrow> links p n (rev xs)"
proof (induction n p xs rule: links.induct)
  case (1 n p x y zs)
  have "links p n (rev (x # y # zs)) = links p n (rev zs @ [y, x])" by simp
  also have "\<dots> = (links p n (rev zs @ [y]) \<and> p y = x \<and> n x = y)" by (rule links_snoc2)
  finally show ?case using "1" by auto
qed auto

text \<open>Unlink a node of a ring through \<open>h\<close> and put it right after \<open>h\<close>.\<close>

lemma links_move_front:
  assumes l: "links n p (h # ys @ i # zs @ [h])" and d: "distinct (h # ys @ i # zs)"
    and n2: "n2 = n(p i := n i)" and p2: "p2 = p(n i := p i)"
  shows "links (n2(i := n2 h, h := i)) (p2(i := h, n2 h := i)) (h # i # ys @ zs @ [h])"
proof -
  obtain us a where ua: "h # ys = us @ [a]" by (metis list.discI rev_exhaust)
  obtain c ws where cw: "zs @ [h] = c # ws" by (cases "zs @ [h]") auto
  have L: "h # ys @ i # zs @ [h] = us @ a # i # c # ws"
    using ua cw by (metis append.assoc append_Cons append_Nil)
  have L2: "h # ys @ zs @ [h] = us @ a # c # ws"
    using ua cw by (metis append.assoc append_Cons append_Nil)
  have "links n p (us @ a # i # c # ws)" using l L by simp
  then have pi: "p i = a" and ni: "n i = c"
    using links_append [of n p us a "i # c # ws"] by auto
  have dd: "distinct (butlast (us @ a # i # c # ws))" "distinct (tl (us @ a # i # c # ws))"
    unfolding L [symmetric] using d by (auto simp: butlast_append)
  have l2: "links n2 p2 (h # ys @ zs @ [h])"
    unfolding L2 n2 p2 pi ni
    using links_remove [of n p us a i c ws] l dd by (simp add: L)
  obtain f vs where fv: "ys @ zs @ [h] = f # vs" by (cases "ys @ zs @ [h]") auto
  have f: "n2 h = f" using l2 fv by simp
  have "links (n2(i := f, h := i)) (p2(i := h, f := i)) ([] @ h # i # f # vs)"
  proof (rule links_insert)
    show "links n2 p2 ([] @ h # f # vs)" using l2 fv by simp
    show "distinct (butlast ([] @ h # f # vs))" "distinct (tl ([] @ h # f # vs))"
      "i \<notin> set ([] @ h # f # vs)"
      unfolding append_Nil fv [symmetric] using d by (auto simp: butlast_append)
  qed
  then show ?thesis using fv f by simp
qed

end
