(* ===== verification/Strings.thy ===== *)
theory Strings
  imports Prelude
begin

text \<open>
  The memory and string routines of \<open>string.c\<close>. \<open>memset\<close> and \<open>memmove\<close> work
  on a byte-addressed memory with 32-bit addresses, since what matters about
  them is alignment and overlap. For the string routines a \<open>char*\<close> argument
  that is only read is a function from the offset to the byte; the bytes a
  routine stores are its result. Shown here: \<open>memmove\<close> is right on overlapping
  regions, the word-wise \<open>memset\<close> equals the byte-wise one, \<open>strncmp\<close> decides
  equality of the first \<open>n\<close> characters, and the copying routines stay within
  their bound.
\<close>

section \<open>Operations\<close>

type_synonym mem = "u32 \<Rightarrow> u8"

text \<open>\<open>rep stosb\<close> and \<open>rep stosl\<close>, of \<open>x86.h\<close>.\<close>

primrec stosb :: "mem \<Rightarrow> u32 \<Rightarrow> u8 \<Rightarrow> nat \<Rightarrow> mem" where
  "stosb m a c 0 = m"
| "stosb m a c (Suc n) = stosb (m(a := c)) (a + 1) c n"

primrec stosl :: "mem \<Rightarrow> u32 \<Rightarrow> u32 \<Rightarrow> nat \<Rightarrow> mem" where
  "stosl m a c 0 = m"
| "stosl m a c (Suc n) =
     stosl (m(a := ucast c, a + 1 := ucast (drop_bit 8 c), a + 2 := ucast (drop_bit 16 c), a + 3 := ucast (drop_bit 24 c)))
       (a + 4) c n"

definition memset :: "mem \<Rightarrow> u32 \<Rightarrow> u32 \<Rightarrow> u32 \<Rightarrow> mem" where
  "memset m dst c n =
     (if sint dst mod 4 = 0 \<and> n mod 4 = 0 then
        let c = c AND 255 in
        stosl m dst (push_bit 24 c OR push_bit 16 c OR push_bit 8 c OR c) (unat (n div 4))
      else stosb m dst (ucast c) (unat n))"

primrec memcmp :: "(nat \<Rightarrow> u8) \<Rightarrow> (nat \<Rightarrow> u8) \<Rightarrow> nat \<Rightarrow> int" where
  "memcmp s1 s2 0 = 0"
| "memcmp s1 s2 (Suc n) =
     (if s1 0 \<noteq> s2 0 then uint (s1 0) - uint (s2 0) else memcmp (\<lambda>i. s1 (Suc i)) (\<lambda>i. s2 (Suc i)) n)"

primrec copy_up :: "mem \<Rightarrow> u32 \<Rightarrow> u32 \<Rightarrow> nat \<Rightarrow> mem" where
  "copy_up m d s 0 = m"
| "copy_up m d s (Suc n) = copy_up (m(d := m s)) (d + 1) (s + 1) n"

primrec copy_down :: "mem \<Rightarrow> u32 \<Rightarrow> u32 \<Rightarrow> nat \<Rightarrow> mem" where
  "copy_down m d s 0 = m"
| "copy_down m d s (Suc n) = copy_down (m(d - 1 := m (s - 1))) (d - 1) (s - 1) n"

definition memmove :: "mem \<Rightarrow> u32 \<Rightarrow> u32 \<Rightarrow> u32 \<Rightarrow> mem" where
  "memmove m dst src n =
     (if src < dst \<and> src + n > dst then copy_down m (dst + n) (src + n) (unat n)
      else copy_up m dst src (unat n))"

definition memcpy :: "mem \<Rightarrow> u32 \<Rightarrow> u32 \<Rightarrow> u32 \<Rightarrow> mem" where
  "memcpy m dst src n = memmove m dst src n"

primrec strncmp :: "(nat \<Rightarrow> u8) \<Rightarrow> (nat \<Rightarrow> u8) \<Rightarrow> nat \<Rightarrow> int" where
  "strncmp p q 0 = 0"
| "strncmp p q (Suc n) =
     (if p 0 \<noteq> 0 \<and> p 0 = q 0 then strncmp (\<lambda>i. p (Suc i)) (\<lambda>i. q (Suc i)) n
      else uint (p 0) - uint (q 0))"

text \<open>
  The bytes \<open>strncpy\<close> and \<open>safestrcpy\<close> store at \<open>s\<close>. The second loop of
  \<open>strncpy\<close> pads with zeros up to \<open>n\<close> bytes.
\<close>

primrec strncpy :: "(nat \<Rightarrow> u8) \<Rightarrow> nat \<Rightarrow> u8 list" where
  "strncpy t 0 = []"
| "strncpy t (Suc n) = (if t 0 \<noteq> 0 then t 0 # strncpy (\<lambda>i. t (Suc i)) n else 0 # replicate n 0)"

primrec safestrcpy_loop :: "(nat \<Rightarrow> u8) \<Rightarrow> nat \<Rightarrow> u8 list" where
  "safestrcpy_loop t 0 = [0]"
| "safestrcpy_loop t (Suc n) =
     (if t 0 \<noteq> 0 then t 0 # safestrcpy_loop (\<lambda>i. t (Suc i)) n else [0, 0])"

definition safestrcpy :: "(nat \<Rightarrow> u8) \<Rightarrow> int \<Rightarrow> u8 list" where
  "safestrcpy t n = (if n \<le> 0 then [] else safestrcpy_loop t (nat n - 1))"

partial_function (option) strlen_from :: "(nat \<Rightarrow> u8) \<Rightarrow> nat \<Rightarrow> nat option" where
  "strlen_from s n = (if s n = 0 then Some n else strlen_from s (Suc n))"

definition strlen :: "(nat \<Rightarrow> u8) \<Rightarrow> nat option" where
  "strlen s = strlen_from s 0"

text \<open>A string given by its characters, and its terminating zero.\<close>

definition cs :: "u8 list \<Rightarrow> nat \<Rightarrow> u8" where
  "cs xs i = (if i < length xs then xs ! i else 0)"

section \<open>Memory\<close>

text \<open>
  \<open>addr_off a x\<close> is how far \<open>x\<close> lies above \<open>a\<close>, around the top of memory if need be;
  \<open>x\<close> is one of the \<open>n\<close> bytes from \<open>a\<close> on iff \<open>addr_off a x < n\<close>.
\<close>

definition addr_off :: "u32 \<Rightarrow> u32 \<Rightarrow> nat" where
  "addr_off a x = unat (x - a)"

lemma addr_off_0 [simp]: "addr_off a x = 0 \<longleftrightarrow> x = a"
  by (simp add: addr_off_def unat_eq_0)

lemma addr_off_self [simp]: "addr_off a a = 0"
  by simp

lemma addr_off_lt: "addr_off a x < 4294967296"
  using unsigned_less [of "x - a"] by (simp add: addr_off_def)

lemma addr_off_Suc: "x \<noteq> a \<Longrightarrow> addr_off a x = Suc (addr_off (a + 1) x)"
proof -
  assume "x \<noteq> a"
  then have ne: "x - a \<noteq> 0" by simp
  have "unat (x - a) = Suc (unat (x - a - 1))"
    using unat_minus_one [OF ne] ne unat_eq_0 [of "x - a"] by linarith
  then show ?thesis by (simp add: addr_off_def diff_diff_eq)
qed

lemma addr_off_of_nat: "k < 4294967296 \<Longrightarrow> addr_off a (a + of_nat k) = k"
  by (simp add: addr_off_def unat_of_nat32)

lemma addr_off_inv: "x = a + of_nat (addr_off a x)"
  by (simp add: addr_off_def)

lemma addr_off_last: "addr_off (a + 1) a = 4294967295"
  by (simp add: addr_off_def unsigned_minus_1_eq_mask mask_eq_exp_minus_1)

lemma stosb_eq: "n \<le> 4294967296 \<Longrightarrow> stosb m a c n x = (if addr_off a x < n then c else m x)"
proof (induction n arbitrary: m a)
  case (Suc n)
  then show ?case using addr_off_Suc [of x a] addr_off_last [of a] by (cases "x = a") simp_all
qed simp

text \<open>Forward copying is right if no byte is overwritten before it is read.\<close>

lemma copy_up_eq:
  "(\<And>i. i < n \<Longrightarrow> i \<le> addr_off d (s + of_nat i)) \<Longrightarrow> n \<le> 4294967296 \<Longrightarrow>
    copy_up m d s n x = (if addr_off d x < n then m (s + (x - d)) else m x)"
proof (induction n arbitrary: m d s)
  case (Suc n)
  let ?m = "m(d := m s)"
  have ok: "i \<le> addr_off (d + 1) (s + 1 + of_nat i)" if "i < n" for i
  proof -
    have "Suc i \<le> addr_off d (s + of_nat (Suc i))" using that Suc.prems(1) [of "Suc i"] by simp
    then have "Suc i \<le> addr_off d (s + 1 + of_nat i)" by (simp add: ac_simps)
    then show ?thesis using addr_off_Suc [of "s + 1 + of_nat i" d] by (cases "s + 1 + of_nat i = d") simp_all
  qed
  have "s + 1 + (x - (d + 1)) = s + (x - d)" by simp
  then have IH: "copy_up ?m (d + 1) (s + 1) n x = (if addr_off (d + 1) x < n then ?m (s + (x - d)) else ?m x)"
    using Suc.IH [OF ok, of ?m] Suc.prems(2) by (simp del: fun_upd_apply)
  show ?case
  proof (cases "x = d")
    case True
    then show ?thesis using IH addr_off_last [of d] Suc.prems(2) by simp
  next
    case False
    have "s + (x - d) \<noteq> d" if lt: "addr_off d x < Suc n"
    proof
      assume e: "s + (x - d) = d"
      have "x - d = of_nat (addr_off d x)" using addr_off_inv [of x d] by (metis add_diff_cancel_left')
      then have "addr_off d x \<le> addr_off d (s + (x - d))" using Suc.prems(1) [OF lt] by simp
      then show False using e False by simp
    qed
    then show ?thesis using IH addr_off_Suc [OF False] False by simp
  qed
qed simp

lemma copy_down_eq:
  "(\<And>i. i < n \<Longrightarrow> addr_off d (s + of_nat i) \<le> i \<or> n \<le> addr_off d (s + of_nat i)) \<Longrightarrow> n \<le> 4294967296 \<Longrightarrow>
    copy_down m (d + of_nat n) (s + of_nat n) n x = (if addr_off d x < n then m (s + (x - d)) else m x)"
proof (induction n arbitrary: m)
  case (Suc n)
  let ?m = "m(d + of_nat n := m (s + of_nat n))"
  have ok: "addr_off d (s + of_nat i) \<le> i \<or> n \<le> addr_off d (s + of_nat i)" if "i < n" for i
    using that Suc.prems(1) [of i] by auto
  have n: "addr_off d (d + of_nat n) = n" using Suc.prems(2) by (simp add: addr_off_of_nat)
  have IH: "copy_down ?m (d + of_nat n) (s + of_nat n) n x = (if addr_off d x < n then ?m (s + (x - d)) else ?m x)"
    using Suc.IH [OF ok, of ?m] Suc.prems(2) by (simp del: fun_upd_apply)
  have step: "copy_down m (d + of_nat (Suc n)) (s + of_nat (Suc n)) (Suc n) x = copy_down ?m (d + of_nat n) (s + of_nat n) n x"
    by (simp add: algebra_simps)
  show ?case
  proof (cases "addr_off d x = n")
    case True
    then have "x = d + of_nat n" using addr_off_inv [of x d] by simp
    then show ?thesis using IH True unfolding step by simp
  next
    case False
    then have "x \<noteq> d + of_nat n" using n by auto
    moreover have "s + (x - d) \<noteq> d + of_nat n" if lt: "addr_off d x < n"
    proof
      assume e: "s + (x - d) = d + of_nat n"
      have "x - d = of_nat (addr_off d x)" using addr_off_inv [of x d] by (metis add_diff_cancel_left')
      then show False using Suc.prems(1) [of "addr_off d x"] lt e n by simp
    qed
    ultimately show ?thesis using IH False unfolding step by (simp add: less_Suc_eq)
  qed
qed simp

lemma addr_off_nat: "addr_off a x = (if unat a \<le> unat x then unat x - unat a else unat x + 4294967296 - unat a)"
  by (simp add: addr_off_def unat_sub_if_size word_size)

text \<open>\<open>memmove\<close> on regions that do not wrap around the top of memory.\<close>

lemma memmove_eq:
  assumes "unat src + unat n < 4294967296" "unat dst + unat n < 4294967296"
  shows "memmove m dst src n x = (if addr_off dst x < unat n then m (src + (x - dst)) else m x)"
proof -
  have s: "unat (src + of_nat i) = unat src + i" if "i \<le> unat n" for i
    using that assms by (intro unat_plus32) simp
  have o: "addr_off dst (src + of_nat i) = (if unat dst \<le> unat src + i then unat src + i - unat dst
      else unat src + i + 4294967296 - unat dst)" if "i < unat n" for i
    using s [of i] that by (simp add: addr_off_nat)
  have n: "src + n = src + of_nat (unat n)" "dst + n = dst + of_nat (unat n)" by simp_all
  have lt: "src < dst \<longleftrightarrow> unat src < unat dst" "src + n > dst \<longleftrightarrow> unat dst < unat src + unat n"
    using s [of "unat n"] by (simp_all add: word_less_nat_alt)
  show ?thesis
  proof (cases "src < dst \<and> src + n > dst")
    case True
    then have "addr_off dst (src + of_nat i) \<le> i \<or> unat n \<le> addr_off dst (src + of_nat i)" if "i < unat n" for i
      using o [OF that] assms lt by auto
    then show ?thesis using True copy_down_eq [of "unat n" dst src m x] assms unfolding memmove_def n by simp
  next
    case False
    then have "i \<le> addr_off dst (src + of_nat i)" if "i < unat n" for i
      using o [OF that] assms lt that by auto
    then show ?thesis using False copy_up_eq [of "unat n" dst src m x] assms unfolding memmove_def by (simp only: if_False)
  qed
qed

lemma stosl_eq:
  "ucast c = b \<Longrightarrow> ucast (drop_bit 8 c) = b \<Longrightarrow> ucast (drop_bit 16 c) = b \<Longrightarrow> ucast (drop_bit 24 c) = b \<Longrightarrow>
    stosl m a c k = stosb m a b (4 * k)"
proof (induction k arbitrary: m a)
  case (Suc k)
  have e: "4 * Suc k = Suc (Suc (Suc (Suc (4 * k))))" by simp
  have a: "a + 1 + 1 = a + 2" "a + 2 + 1 = a + 3" "a + 3 + 1 = a + 4" by simp_all
  show ?case using Suc unfolding e stosb.simps a by simp
qed simp

lemma memset_bytes:
  fixes c :: u32
  defines "w \<equiv> push_bit 24 (c AND 255) OR push_bit 16 (c AND 255) OR push_bit 8 (c AND 255) OR (c AND 255)"
  shows "(ucast w :: u8) = ucast c" "(ucast (drop_bit 8 w) :: u8) = ucast c"
    "(ucast (drop_bit 16 w) :: u8) = ucast c" "(ucast (drop_bit 24 w) :: u8) = ucast c"
proof -
  have m: "(255 :: u32) = mask 8" by (simp add: mask_eq_exp_minus_1)
  show "(ucast w :: u8) = ucast c" "(ucast (drop_bit 8 w) :: u8) = ucast c"
    "(ucast (drop_bit 16 w) :: u8) = ucast c" "(ucast (drop_bit 24 w) :: u8) = ucast c"
    unfolding w_def m by (rule bit_word_eqI; auto simp: bit_simps)+
qed

text \<open>\<open>memset\<close> stores the low byte of \<open>c\<close>, whichever of its two branches is taken.\<close>

lemma memset_eq: "memset m dst c n x = (if addr_off dst x < unat n then ucast c else m x)"
proof -
  have n: "unat n \<le> 4294967296" using addr_off_lt [of 0 n] by (simp add: addr_off_def)
  have "4 * unat (n div 4) = unat n" if "n mod 4 = 0"
  proof -
    have "unat (n mod 4) = 0" using that by simp
    then have "unat n mod 4 = 0" by (simp add: unat_mod)
    then have "4 * (unat n div 4) = unat n" by presburger
    then show ?thesis by (simp add: unat_div)
  qed
  then show ?thesis
    using stosb_eq [OF n, of m dst "ucast c" x] unfolding memset_def Let_def stosl_eq [OF memset_bytes] by simp
qed

section \<open>Strings\<close>

lemma uint_diff_0 [simp]: "uint (a :: u8) - uint b = 0 \<longleftrightarrow> a = b"
  by (simp add: word_uint_eq_iff)

lemma memcmp_0: "memcmp p q n = 0 \<longleftrightarrow> (\<forall>i < n. p i = q i)"
proof (induction n arbitrary: p q)
  case (Suc n)
  then show ?case by (cases "p 0 = q 0") (simp_all add: All_less_Suc2 word_uint_eq_iff)
qed simp

text \<open>Comparison and copying stop at the first zero byte.\<close>

lemma strncmp_0: "strncmp p q n = 0 \<longleftrightarrow> (\<forall>i < n. (\<forall>j < i. p j \<noteq> 0) \<longrightarrow> p i = q i)"
proof (induction n arbitrary: p q)
  case (Suc n)
  show ?case
  proof (cases "p 0 \<noteq> 0 \<and> p 0 = q 0")
    case True
    then show ?thesis by (simp add: Suc All_less_Suc2)
  next
    case False
    then have e: "strncmp p q (Suc n) = 0 \<longleftrightarrow> p 0 = q 0" by (simp only: strncmp.simps if_False uint_diff_0)
    have "(\<forall>i < Suc n. (\<forall>j < i. p j \<noteq> 0) \<longrightarrow> p i = q i) \<longleftrightarrow> p 0 = q 0" (is "?A \<longleftrightarrow> _")
    proof
      assume ?A
      from this [rule_format, of 0] show "p 0 = q 0" by simp
    next
      assume eq: "p 0 = q 0"
      then have z: "p 0 = 0" using False by simp
      show ?A
      proof (intro allI impI)
        fix i
        assume "\<forall>j < i. p j \<noteq> 0"
        then have "i = 0" using z by (metis neq0_conv)
        then show "p i = q i" using eq by simp
      qed
    qed
    then show ?thesis using e by (simp only:)
  qed
qed simp

lemma strncpy_length [simp]: "length (strncpy t n) = n"
  by (induction n arbitrary: t) auto

lemma strncpy_nth: "i < n \<Longrightarrow> strncpy t n ! i = (if \<exists>j \<le> i. t j = 0 then 0 else t i)"
proof (induction n arbitrary: t i)
  case (Suc n)
  then show ?case
    by (cases i) (auto simp: All_less_Suc2 Ex_less_Suc2 less_Suc_eq_le [symmetric])
qed simp

lemma safestrcpy_loop_bound: "length (safestrcpy_loop t n) \<le> Suc n \<and> last (safestrcpy_loop t n) = 0 \<and> safestrcpy_loop t n \<noteq> []"
  by (induction n arbitrary: t) auto

lemma safestrcpy_loop_nth: "i < n \<Longrightarrow> (\<And>j. j \<le> i \<Longrightarrow> t j \<noteq> 0) \<Longrightarrow> i < length (safestrcpy_loop t n) \<and> safestrcpy_loop t n ! i = t i"
proof (induction n arbitrary: t i)
  case (Suc n)
  show ?case
  proof (cases i)
    case (Suc k)
    then show ?thesis using Suc.IH [of k "\<lambda>i. t (Suc i)"] Suc.prems by (auto dest: spec [of _ 0])
  qed (use Suc.prems(2) [of 0] in simp)
qed simp

lemma strlen_eq: "s n = 0 \<Longrightarrow> (\<And>i. i < n \<Longrightarrow> s i \<noteq> 0) \<Longrightarrow> strlen s = Some n"
proof -
  assume z: "s n = 0" and nz: "\<And>i. i < n \<Longrightarrow> s i \<noteq> 0"
  have "strlen_from s (n - k) = Some n" if "k \<le> n" for k
    using that
  proof (induction k)
    case 0
    then show ?case using z by (subst strlen_from.simps) simp
  next
    case (Suc k)
    then have "s (n - Suc k) \<noteq> 0" "Suc (n - Suc k) = n - k" using nz [of "n - Suc k"] by simp_all
    then show ?case using Suc by (subst strlen_from.simps) simp
  qed
  from this [of n] show ?thesis by (simp add: strlen_def)
qed

lemma strncmp_strncpy: "strncmp p (cs (strncpy p n)) n = 0"
  unfolding strncmp_0 by (auto simp: cs_def strncpy_nth) (metis le_neq_implies_less)

section \<open>Properties\<close>

text \<open>
  C21: \<open>memmove\<close> copies as if through a temporary: after it, every one of the \<open>n\<close>
  bytes at \<open>dst\<close> is what the corresponding byte at \<open>src\<close> was before, however the
  two regions overlap, and no other byte changes. \<open>memset\<close>, which stores words
  when the region is word-aligned, always has the effect of storing the low
  byte of \<open>c\<close> byte by byte.
\<close>

theorem memmove_correct:
  assumes "unat src + unat n < 2 ^ 32" "unat dst + unat n < 2 ^ 32"
  shows "(\<forall>i < unat n. memmove m dst src n (dst + of_nat i) = m (src + of_nat i))
    \<and> (\<forall>x. (\<forall>i < unat n. x \<noteq> dst + of_nat i) \<longrightarrow> memmove m dst src n x = m x)
    \<and> memset m dst c n = stosb m dst (ucast c) (unat n)"
proof -
  have n: "unat n \<le> 4294967296" using assms(1) by simp
  note e = memmove_eq [of src n dst m] assms
  have "memmove m dst src n (dst + of_nat i) = m (src + of_nat i)" if "i < unat n" for i
    using that assms e by (simp add: addr_off_of_nat)
  moreover have "memmove m dst src n x = m x" if "\<forall>i < unat n. x \<noteq> dst + of_nat i" for x
    using that addr_off_inv [of x dst] e by (cases "addr_off dst x < unat n") auto
  moreover have "memset m dst c n x = stosb m dst (ucast c) (unat n) x" for x
    by (simp add: memset_eq stosb_eq [OF n])
  ultimately show ?thesis by blast
qed

theorem memmove_correct_witness:
  "memmove ((\<lambda>_. 0)(100 := 1, 101 := 2, 102 := 3)) 101 100 3 103 = 3"
  using memmove_correct [of 100 3 101 "(\<lambda>_. 0)(100 := 1, 101 := 2, 102 := 3)" 0, THEN conjunct1, rule_format, of 2]
  by simp

text \<open>
  The string routines agree on what a name is: whatever bytes \<open>strncpy\<close> copies
  into a field of \<open>n\<close> bytes compare equal to the original under \<open>strncmp\<close>, two
  names compare equal iff their fields are equal byte by byte, and
  \<open>safestrcpy\<close> never stores more than \<open>n\<close> bytes and always ends in a zero.
\<close>

theorem strncpy_strncmp:
  "strncmp p (cs (strncpy p n)) n = 0
    \<and> (strncmp p q n = 0 \<longleftrightarrow> strncpy p n = strncpy q n)
    \<and> (0 < k \<longrightarrow> length (safestrcpy p k) \<le> nat k \<and> last (safestrcpy p k) = 0)"
proof -
  note strncmp_strncpy [of p n]
  moreover have "strncmp p q n = 0 \<longleftrightarrow> strncpy p n = strncpy q n"
  proof
    assume e: "strncmp p q n = 0"
    show "strncpy p n = strncpy q n"
    proof (rule nth_equalityI)
      fix i
      assume "i < length (strncpy p n)"
      then have i: "i < n" by simp
      have *: "(\<forall>j \<le> k. p j \<noteq> 0) \<longrightarrow> q k = p k" "(\<forall>j < k. p j \<noteq> 0) \<longrightarrow> p k = 0 \<longrightarrow> q k = 0" if "k \<le> i" for k
        using e i that unfolding strncmp_0 by auto
      show "strncpy p n ! i = strncpy q n ! i"
      proof (cases "\<exists>j \<le> i. p j = 0")
        case True
        define k where "k = (LEAST j. p j = 0)"
        have "p k = 0" "\<forall>j < k. p j \<noteq> 0" "k \<le> i"
          using True LeastI [of "\<lambda>j. p j = 0"] not_less_Least [of _ "\<lambda>j. p j = 0"] Least_le [of "\<lambda>j. p j = 0"]
          unfolding k_def by (blast, blast, meson le_trans)
        then show ?thesis using * i by (auto simp: strncpy_nth)
      next
        case False
        then have "\<forall>j \<le> i. q j = p j" using * by (meson le_trans)
        then show ?thesis using False i by (auto simp: strncpy_nth)
      qed
    qed simp
  next
    assume e: "strncpy p n = strncpy q n"
    show "strncmp p q n = 0"
      unfolding strncmp_0
    proof (intro allI impI)
      fix i
      assume i: "i < n" "\<forall>j < i. p j \<noteq> 0"
      have n: "strncpy p n ! k = strncpy q n ! k" for k using e by simp
      have qnz: "q j \<noteq> 0" if "j < i" for j
        using n [of j] i that by (auto simp: strncpy_nth split: if_splits)
      show "p i = q i"
        using n [of i] i qnz by (auto simp: strncpy_nth le_less split: if_splits)
    qed
  qed
  moreover have "0 < k \<longrightarrow> length (safestrcpy p k) \<le> nat k \<and> last (safestrcpy p k) = 0"
    using safestrcpy_loop_bound [of p "nat k - 1"] by (auto simp: safestrcpy_def)
  ultimately show ?thesis by blast
qed

theorem strncpy_strncmp_witness:
  "strncmp (cs [97, 98]) (cs (strncpy (cs [97, 98]) 4)) 4 = 0 \<and> length (safestrcpy (cs [97, 98]) 2) \<le> 2"
  using strncpy_strncmp [of "cs [97, 98]" 4 "cs [97, 98]" 2] by simp

end
