(* ===== verification/Kalloc.thy ===== *)
theory Kalloc
  imports Strings
begin

text \<open>
  The physical page allocator (\<open>kalloc.c\<close>). Memory is the byte-addressed memory of
  \<open>Strings\<close>, at kernel virtual addresses; the free list runs through the first word
  of every free page. The lock makes each routine one step. \<open>en\<close> stands for the
  address \<open>end\<close> that the linker provides. Shown here: however a client allocates,
  frees and writes its pages, no page is ever handed out twice, the free list stays
  intact, and no page is lost.
\<close>

section \<open>Words in memory\<close>

definition load32 :: "mem \<Rightarrow> u32 \<Rightarrow> u32" where
  "load32 m a = ucast (m a) OR push_bit 8 (ucast (m (a + 1)))
     OR push_bit 16 (ucast (m (a + 2))) OR push_bit 24 (ucast (m (a + 3)))"

definition store32 :: "mem \<Rightarrow> u32 \<Rightarrow> u32 \<Rightarrow> mem" where
  "store32 m a v = m(a := ucast v, a + 1 := ucast (drop_bit 8 v), a + 2 := ucast (drop_bit 16 v), a + 3 := ucast (drop_bit 24 v))"

section \<open>Operations\<close>

definition PGSIZE :: u32 where "PGSIZE = 4096"
definition PHYSTOP :: u32 where "PHYSTOP = 0xE000000"
definition EXTMEM :: u32 where "EXTMEM = 0x100000"
definition KERNBASE :: u32 where "KERNBASE = 0x80000000"

definition v2p :: "u32 \<Rightarrow> u32" where "v2p a = a - KERNBASE"
definition p2v :: "u32 \<Rightarrow> u32" where "p2v a = a + KERNBASE"

definition PGROUNDUP :: "u32 \<Rightarrow> u32" where
  "PGROUNDUP sz = (sz + PGSIZE - 1) AND NOT (PGSIZE - 1)"

definition PGROUNDDOWN :: "u32 \<Rightarrow> u32" where
  "PGROUNDDOWN a = a AND NOT (PGSIZE - 1)"

record kmem =
  kmem_freelist :: u32
  kmem_mem :: mem

definition kfree :: "u32 \<Rightarrow> u32 \<Rightarrow> ('z kmem_scheme, unit) km" where
  "kfree en v =
     (if v mod PGSIZE \<noteq> 0 \<or> v < en \<or> PHYSTOP \<le> v2p v then kpanic ''kfree''
      else kthen (kmod (\<lambda>s. s\<lparr>kmem_mem := memset (kmem_mem s) v 1 PGSIZE\<rparr>))
          (kthen (kmod (\<lambda>s. s\<lparr>kmem_mem := store32 (kmem_mem s) v (kmem_freelist s)\<rparr>))
                 (kmod (\<lambda>s. s\<lparr>kmem_freelist := v\<rparr>))))"

definition kalloc :: "('z kmem_scheme, u32) km" where
  "kalloc = kbind (kget kmem_freelist) (\<lambda>r.
     kthen (if r \<noteq> 0 then kmod (\<lambda>s. s\<lparr>kmem_freelist := load32 (kmem_mem s) r\<rparr>) else kret ())
           (kret r))"

text \<open>The loop of \<open>freerange\<close>; \<open>p + PGSIZE\<close> is an address of C, which does not wrap.\<close>

function freerange_loop :: "u32 \<Rightarrow> u32 \<Rightarrow> u32 \<Rightarrow> ('z kmem_scheme, unit) km" where
  "freerange_loop en p vend =
     (if unat p + 4096 \<le> unat vend then kthen (kfree en p) (freerange_loop en (p + PGSIZE) vend) else kret ())"
  by pat_completeness auto
termination
proof (relation "measure (\<lambda>(en, p, vend). unat vend - unat p)")
  show "((en, p + PGSIZE, vend), en, p, vend) \<in> measure (\<lambda>(en, p, vend). unat vend - unat p)" if "unat p + 4096 \<le> unat vend" for en p vend :: u32
  proof -
    have "unat vend < 2 ^ LENGTH(32)" by (rule unsigned_less)
    then have "unat (p + PGSIZE) = unat p + 4096" using that unat_plus32 [of p 4096] by (simp add: PGSIZE_def)
    then show ?thesis using that by simp
  qed
qed simp

declare freerange_loop.simps [simp del]

definition freerange :: "u32 \<Rightarrow> u32 \<Rightarrow> u32 \<Rightarrow> ('z kmem_scheme, unit) km" where
  "freerange en vstart vend = freerange_loop en (PGROUNDUP vstart) vend"

text \<open>\<open>kinit1\<close> and \<open>kinit2\<close> differ only in when the lock starts to be used.\<close>

definition kinit :: "u32 \<Rightarrow> ('z kmem_scheme, unit) km" where
  "kinit en = kthen (freerange en en (p2v 0x400000)) (freerange en (p2v 0x400000) (p2v PHYSTOP))"

section \<open>Pages\<close>

definition in_page :: "u32 \<Rightarrow> u32 \<Rightarrow> bool" where
  "in_page p x \<longleftrightarrow> addr_off p x < 4096"

definition page_aligned :: "u32 \<Rightarrow> bool" where
  "page_aligned p \<longleftrightarrow> unat p mod 4096 = 0"

lemma page_mod: "p mod PGSIZE = 0 \<longleftrightarrow> page_aligned p"
proof -
  have "p mod PGSIZE = 0 \<longleftrightarrow> unat (p mod PGSIZE) = 0" by (simp only: unat_eq_0)
  then show ?thesis by (simp add: unat_mod page_aligned_def PGSIZE_def)
qed

lemma page_top: "page_aligned p \<Longrightarrow> unat p + 4096 \<le> 4294967296"
proof -
  assume a: "page_aligned p"
  have "unat p < 2 ^ LENGTH(32)" by (rule unsigned_less)
  moreover obtain k where "unat p = 4096 * k" using a by (auto simp: page_aligned_def)
  ultimately show ?thesis by simp
qed

lemma in_page_nat: "page_aligned p \<Longrightarrow> in_page p x \<longleftrightarrow> unat p \<le> unat x \<and> unat x < unat p + 4096"
  using page_top [of p] by (auto simp: in_page_def addr_off_nat)

lemma in_page_div: "page_aligned p \<Longrightarrow> in_page p x \<longleftrightarrow> unat x div 4096 = unat p div 4096"
proof -
  assume a: "page_aligned p"
  then obtain k where k: "unat p = 4096 * k" by (auto simp: page_aligned_def)
  define q r where "q = unat x div 4096" and "r = unat x mod 4096"
  have x: "unat x = q * 4096 + r" "r < 4096" by (simp_all add: q_def r_def)
  have "4096 * k \<le> unat x \<and> unat x < 4096 * k + 4096 \<longleftrightarrow> q = k" unfolding x(1) using x(2) by auto
  then show ?thesis unfolding in_page_nat [OF a] k by (simp add: q_def)
qed

lemma page_disjoint: "page_aligned p \<Longrightarrow> page_aligned q \<Longrightarrow> in_page p x \<Longrightarrow> in_page q x \<Longrightarrow> p = q"
  by (metis div_mult_mod_eq in_page_div page_aligned_def unat_inject)

lemma in_page_word:
  assumes "page_aligned p" "k < 1024" "j < 4"
  shows "in_page p (p + of_nat (4 * k) + of_nat j)"
proof -
  have "p + of_nat (4 * k) + of_nat j = p + of_nat (4 * k + j)" by (simp only: of_nat_add add.assoc)
  moreover have "unat (p + of_nat (4 * k + j)) = unat p + (4 * k + j)" using page_top [OF assms(1)] assms by (intro unat_plus32) linarith
  ultimately have "unat (p + of_nat (4 * k) + of_nat j) = unat p + (4 * k + j)" by (simp only:)
  then show ?thesis using assms(2,3) unfolding in_page_nat [OF assms(1)] by linarith
qed

lemma load32_page:
  assumes "page_aligned p" "k < 1024" "\<And>x. in_page p x \<Longrightarrow> m' x = m x"
  shows "load32 m' (p + of_nat (4 * k)) = load32 m (p + of_nat (4 * k))"
  using assms(3) in_page_word [OF assms(1,2), of 0] in_page_word [OF assms(1,2), of 1] in_page_word [OF assms(1,2), of 2] in_page_word [OF assms(1,2), of 3]
  by (simp add: load32_def)

lemmas load32_base = load32_page [of _ 0, simplified]

lemma load32_store32: "load32 (store32 m a v) a = v"
proof -
  have "a + 1 \<noteq> a" "a + 2 \<noteq> a" "a + 3 \<noteq> a" "a + 2 \<noteq> a + 1" "a + 3 \<noteq> a + 1" "a + 3 \<noteq> a + 2" by simp_all
  then show ?thesis by (simp add: load32_def store32_def u32_of_bytes)
qed

lemma store32_page:
  assumes "page_aligned p" "k < 1024" "\<not> in_page p x"
  shows "store32 m (p + of_nat (4 * k)) v x = m x"
  using assms(3) in_page_word [OF assms(1,2), of 0] in_page_word [OF assms(1,2), of 1] in_page_word [OF assms(1,2), of 2] in_page_word [OF assms(1,2), of 3]
  by (auto simp: store32_def)

lemmas store32_base = store32_page [of _ 0, simplified]

lemma memset_page: "\<not> in_page p x \<Longrightarrow> memset m p c PGSIZE x = m x"
  by (simp add: memset_eq in_page_def PGSIZE_def)

lemma and_not_4095: "unat (a AND NOT (PGSIZE - 1)) = unat a - unat a mod 4096"
proof -
  have m: "PGSIZE - 1 = mask 12" by (simp add: PGSIZE_def mask_eq_exp_minus_1)
  have "(a AND NOT (mask 12)) + (a AND mask 12) = (a AND NOT (mask 12)) OR (a AND mask 12)"
    by (rule disjunctive_add) (simp add: bit_simps)
  also have "\<dots> = a" by (rule bit_word_eqI) (auto simp: bit_simps)
  finally have "a AND NOT (mask 12) = a - (a AND mask 12)" by (simp add: eq_diff_eq)
  then have "a AND NOT (PGSIZE - 1) = a - take_bit 12 a" by (simp add: m take_bit_eq_mask)
  moreover have "unat (take_bit 12 a) = unat a mod 4096" by (simp add: take_bit_eq_mod unat_mod)
  moreover have "take_bit 12 a \<le> a" using \<open>unat (take_bit 12 a) = _\<close> by (simp add: word_le_nat_alt)
  ultimately show ?thesis by (metis unat_sub)
qed

lemma PGROUNDDOWN_page: "page_aligned (PGROUNDDOWN a)" "unat (PGROUNDDOWN a) = unat a div 4096 * 4096"
proof -
  show u: "unat (PGROUNDDOWN a) = unat a div 4096 * 4096" unfolding PGROUNDDOWN_def and_not_4095 by (simp add: minus_mod_eq_div_mult)
  show "page_aligned (PGROUNDDOWN a)" by (simp add: page_aligned_def u)
qed

lemma PGROUNDUP_page:
  assumes "unat a + 4095 < 4294967296"
  shows "page_aligned (PGROUNDUP a)" "unat a \<le> unat (PGROUNDUP a)" "unat (PGROUNDUP a) < unat a + 4096"
proof -
  have "unat (a + of_nat 4095) = unat a + 4095" using assms by (rule unat_plus32)
  then have "unat (a + PGSIZE - 1) = unat a + 4095" by (simp add: PGSIZE_def add.commute)
  then have u: "unat (PGROUNDUP a) = (unat a + 4095) div 4096 * 4096"
    unfolding PGROUNDUP_def and_not_4095 by (simp add: minus_mod_eq_div_mult)
  then show "page_aligned (PGROUNDUP a)" by (simp add: page_aligned_def)
  define q r where "q = (unat a + 4095) div 4096" and "r = (unat a + 4095) mod 4096"
  have "unat a + 4095 = q * 4096 + r" "r < 4096" by (simp_all add: q_def r_def)
  then show "unat a \<le> unat (PGROUNDUP a)" "unat (PGROUNDUP a) < unat a + 4096" unfolding u q_def [symmetric] by linarith+
qed

section \<open>The free list\<close>

text \<open>The list of the pages that are free, in the order in which they will be handed out.\<close>

fun chain :: "mem \<Rightarrow> u32 \<Rightarrow> u32 list \<Rightarrow> bool" where
  "chain m r [] \<longleftrightarrow> r = 0"
| "chain m r (x # xs) \<longleftrightarrow> r = x \<and> r \<noteq> 0 \<and> chain m (load32 m x) xs"

definition page_ok :: "u32 \<Rightarrow> u32 \<Rightarrow> bool" where
  "page_ok en v \<longleftrightarrow> page_aligned v \<and> en \<le> v \<and> v2p v < PHYSTOP"

definition kmem_ok :: "u32 \<Rightarrow> 'z kmem_scheme \<Rightarrow> u32 list \<Rightarrow> bool" where
  "kmem_ok en s free \<longleftrightarrow> chain (kmem_mem s) (kmem_freelist s) free \<and> distinct free \<and> (\<forall>v \<in> set free. page_ok en v)"

lemma chain_cong: "chain m r xs \<Longrightarrow> \<forall>v \<in> set xs. page_aligned v \<and> (\<forall>x. in_page v x \<longrightarrow> m' x = m x) \<Longrightarrow> chain m' r xs"
proof (induction xs arbitrary: r)
  case (Cons v xs)
  then have "load32 m' v = load32 m v" by (intro load32_base) auto
  then show ?case using Cons by auto
qed simp

lemma chain_unique: "chain m r xs \<Longrightarrow> chain m r ys \<Longrightarrow> xs = ys"
proof (induction xs arbitrary: r ys)
  case Nil
  then show ?case by (cases ys) auto
next
  case (Cons x xs)
  then show ?case by (cases ys) auto
qed

lemma kmem_ok_cong:
  assumes "kmem_ok en s free" "kmem_freelist t = kmem_freelist s" "\<And>x v. v \<in> set free \<Longrightarrow> in_page v x \<Longrightarrow> kmem_mem t x = kmem_mem s x"
  shows "kmem_ok en t free"
  using assms chain_cong [of "kmem_mem s" "kmem_freelist s" free "kmem_mem t"] by (simp add: kmem_ok_def page_ok_def)

lemma kalloc_wp [kwp_intros]:
  assumes "kmem_ok en s free"
  shows "kwp kalloc (\<lambda>r t. kmem_mem t = kmem_mem s \<and> (case free of [] \<Rightarrow> r = 0 \<and> t = s | v # fs \<Rightarrow> r = v \<and> v \<noteq> 0 \<and> kmem_ok en t fs)) s"
  using assms by (cases free) (auto simp: kalloc_def kmem_ok_def)

lemma kfree_wp [kwp_intros]:
  assumes ok: "kmem_ok en s free" and v: "page_ok en v" "v \<notin> set free" and en: "0 < en"
  shows "kwp (kfree en v) (\<lambda>_ t. kmem_ok en t (v # free) \<and> (\<forall>x. \<not> in_page v x \<longrightarrow> kmem_mem t x = kmem_mem s x)) s"
proof -
  let ?m = "store32 (memset (kmem_mem s) v 1 PGSIZE) v (kmem_freelist s)"
  have a: "page_aligned v" "v \<noteq> 0" using v(1) en by (auto simp: page_ok_def)
  have m: "?m x = kmem_mem s x" if "\<not> in_page v x" for x using that a by (simp add: store32_base memset_page)
  have "chain ?m (kmem_freelist s) free"
  proof (rule chain_cong)
    show "chain (kmem_mem s) (kmem_freelist s) free" using ok by (simp add: kmem_ok_def)
    show "\<forall>w \<in> set free. page_aligned w \<and> (\<forall>x. in_page w x \<longrightarrow> ?m x = kmem_mem s x)"
      using ok m v(2) a(1) page_disjoint unfolding kmem_ok_def page_ok_def by blast
  qed
  then show ?thesis using ok v a m by (simp add: kfree_def page_mod kmem_ok_def page_ok_def load32_store32 not_le not_less)
qed

text \<open>The pages \<open>freerange\<close> hands to \<open>kfree\<close>.\<close>

lemma freerange_loop_wp:
  assumes "0 < en" "page_aligned p" "page_aligned vend" "en \<le> p" "kmem_ok en s free"
    "unat vend \<le> unat KERNBASE + unat PHYSTOP" "KERNBASE \<le> p" "\<forall>v \<in> set free. unat v < unat p \<or> unat vend \<le> unat v"
  shows "kwp (freerange_loop en p vend) (\<lambda>_ t. \<exists>new. kmem_ok en t (new @ free)
    \<and> set new = {v. page_aligned v \<and> unat p \<le> unat v \<and> unat v < unat vend}) s"
  using assms
proof (induction en p vend arbitrary: s free rule: freerange_loop.induct)
  case (1 en p vend)
  have ord: "unat v + 4096 \<le> unat w" if "page_aligned v" "page_aligned w" "unat v < unat w" for v w :: u32
    using that by (auto simp: page_aligned_def elim!: dvdE simp flip: dvd_eq_mod_eq_0)
  show ?case
  proof (cases "unat p + 4096 \<le> unat vend")
    case False
    then have "{v. page_aligned v \<and> unat p \<le> unat v \<and> unat v < unat vend} = {}"
      using "1.prems"(2,3) ord by fastforce
    then show ?thesis using False "1.prems"(5) by (subst freerange_loop.simps) (auto intro!: exI [of _ "[]"])
  next
    case True
    have "unat vend < 2 ^ LENGTH(32)" by (rule unsigned_less)
    then have u: "unat (p + PGSIZE) = unat p + 4096" using True unat_plus32 [of p 4096] by (simp add: PGSIZE_def)
    have al: "page_aligned (p + PGSIZE)" using "1.prems"(2) by (simp add: page_aligned_def u)
    have "unat (v2p p) = unat p - unat KERNBASE" using "1.prems"(7) by (simp add: v2p_def unat_sub)
    moreover have "0 < unat PHYSTOP" by (simp add: PHYSTOP_def)
    ultimately have "unat (v2p p) < unat PHYSTOP" using "1.prems"(6) True by linarith
    then have ok: "page_ok en p" using "1.prems"(2,4) by (simp add: page_ok_def word_less_nat_alt)
    have nin: "p \<notin> set free" using "1.prems"(8) True by auto
    have split: "{v. page_aligned v \<and> unat p \<le> unat v \<and> unat v < unat vend}
        = insert p {v. page_aligned v \<and> unat (p + PGSIZE) \<le> unat v \<and> unat v < unat vend}"
      using "1.prems"(2) True ord [of p] unfolding u by (auto simp: le_less)
    have "kwp (kfree en p) (\<lambda>_. kwp (freerange_loop en (p + PGSIZE) vend) (\<lambda>_ t. \<exists>new. kmem_ok en t (new @ free)
      \<and> set new = {v. page_aligned v \<and> unat p \<le> unat v \<and> unat v < unat vend})) s"
    proof (rule kwp_mono [OF kfree_wp [OF "1.prems"(5) ok nin "1.prems"(1)]], goal_cases)
      case (1 x t)
      have le: "en \<le> p + PGSIZE" "KERNBASE \<le> p + PGSIZE" using "1.prems"(4,7) u by (simp_all add: word_le_nat_alt)
      have "\<forall>v \<in> set (p # free). unat v < unat (p + PGSIZE) \<or> unat vend \<le> unat v" using "1.prems"(8) u by auto
      with 1 "1.IH" [OF True "1.prems"(1) al "1.prems"(3) le(1) _ "1.prems"(6) le(2), of t "p # free"]
      have "kwp (freerange_loop en (p + PGSIZE) vend) (\<lambda>_ t. \<exists>new. kmem_ok en t (new @ p # free)
         \<and> set new = {v. page_aligned v \<and> unat (p + PGSIZE) \<le> unat v \<and> unat v < unat vend}) t" by blast
      then show ?case
      proof (rule kwp_mono)
        fix y w assume "\<exists>new. kmem_ok en w (new @ p # free) \<and> set new = {v. page_aligned v \<and> unat (p + PGSIZE) \<le> unat v \<and> unat v < unat vend}"
        then obtain new where "kmem_ok en w ((new @ [p]) @ free)" "set (new @ [p]) = {v. page_aligned v \<and> unat p \<le> unat v \<and> unat v < unat vend}"
          unfolding split by auto
        then show "\<exists>new. kmem_ok en w (new @ free) \<and> set new = {v. page_aligned v \<and> unat p \<le> unat v \<and> unat v < unat vend}" by blast
      qed
    qed
    then show ?thesis using True by (subst freerange_loop.simps) simp
  qed
qed

lemma page_ok_range:
  assumes "2147483648 \<le> unat en" "page_aligned a" "unat en \<le> unat a" "unat a < unat en + 4096" "tp = 2382364672"
  shows "page_ok en v \<longleftrightarrow> page_aligned v \<and> unat a \<le> unat v \<and> unat v < tp"
proof (cases "unat en \<le> unat v \<and> page_aligned v")
  case True
  then have "KERNBASE \<le> v" using assms(1) by (simp add: word_le_nat_alt KERNBASE_def)
  then have "unat (v2p v) = unat v - 2147483648" by (simp add: v2p_def unat_sub KERNBASE_def)
  then have t: "v2p v < PHYSTOP \<longleftrightarrow> unat v < tp" using True assms(1,5) by (auto simp: word_less_nat_alt PHYSTOP_def)
  have "unat a \<le> unat v"
  proof (rule ccontr)
    assume n: "\<not> unat a \<le> unat v"
    then have "in_page v a" using True assms(4) by (simp add: in_page_nat)
    then show False using n page_disjoint [OF _ assms(2), of v a] True assms(2) by (simp add: in_page_nat)
  qed
  then show ?thesis using True t by (simp add: page_ok_def word_le_nat_alt)
next
  case False
  then show ?thesis using assms(3) by (auto simp: page_ok_def word_le_nat_alt)
qed

lemma kinit_wp:
  assumes en: "KERNBASE \<le> en" "en \<le> p2v 0x400000" and s: "kmem_freelist s = 0"
  shows "kwp (kinit en) (\<lambda>_ t. \<exists>free. kmem_ok en t free \<and> set free = {v. page_ok en v}) s"
proof -
  let ?mid = "p2v 0x400000" and ?top = "p2v PHYSTOP" and ?a = "PGROUNDUP en"
  have c: "unat ?mid = 2151677952" "unat ?top = 2382364672" "unat KERNBASE = 2147483648" "unat PHYSTOP = 234881024"
    by (simp_all add: p2v_def KERNBASE_def PHYSTOP_def)
  have al: "page_aligned ?mid" "page_aligned ?top" by (simp_all add: page_aligned_def c)
  have ue: "2147483648 \<le> unat en" "unat en \<le> 2151677952" using en c by (simp_all add: word_le_nat_alt)
  have R: "page_aligned ?a" "unat en \<le> unat ?a" "unat ?a < unat en + 4096" using PGROUNDUP_page [of en] ue by simp_all
  have am: "unat ?a \<le> unat ?mid"
  proof (rule ccontr)
    assume n: "\<not> unat ?a \<le> unat ?mid"
    then have "unat ?mid < unat ?a" "unat ?a < unat ?mid + 4096" using R(3) ue c by linarith+
    then have "unat ?a div 4096 = unat ?mid div 4096" using in_page_nat [OF al(1), of ?a] in_page_div [OF al(1), of ?a] by simp
    then show False using \<open>unat ?mid < unat ?a\<close> al(1) R(1) by (metis div_mult_mod_eq less_irrefl page_aligned_def)
  qed
  have pos: "0 < en" using ue by (simp add: word_less_nat_alt)
  have le: "en \<le> ?a" "KERNBASE \<le> ?a" "KERNBASE \<le> ?mid" using R ue c by (simp_all add: word_le_nat_alt)
  have ok0: "kmem_ok en s []" using s by (simp add: kmem_ok_def)
  have rm: "PGROUNDUP ?mid = ?mid"
  proof -
    have "?mid AND NOT (PGSIZE - 1) = ?mid" using and_not_4095 [of ?mid] al(1) by (simp add: page_aligned_def del: unat_inject) (metis unat_inject)
    moreover have "PGROUNDUP ?mid = ?mid" by (simp add: PGROUNDUP_def p2v_def KERNBASE_def PGSIZE_def)
    ultimately show ?thesis by simp
  qed
  have "kwp (freerange en en ?mid) (\<lambda>_ t. kwp (freerange en ?mid ?top) (\<lambda>_ t. \<exists>free. kmem_ok en t free \<and> set free = {v. page_ok en v}) t) s"
    unfolding freerange_def rm
  proof (rule kwp_mono [OF freerange_loop_wp [OF pos R(1) al(1) le(1) ok0 _ le(2)]], goal_cases)
    case (3 x t)
    then obtain new where n: "kmem_ok en t new" "set new = {v. page_aligned v \<and> unat ?a \<le> unat v \<and> unat v < unat ?mid}" by auto
    have "kwp (freerange_loop en ?mid ?top) (\<lambda>_ t. \<exists>new2. kmem_ok en t (new2 @ new)
      \<and> set new2 = {v. page_aligned v \<and> unat ?mid \<le> unat v \<and> unat v < unat ?top}) t"
      by (rule freerange_loop_wp [OF pos al en(2) n(1) _ le(3)]) (use n(2) c in auto)
    then show ?case
    proof (rule kwp_mono)
      fix y u assume "\<exists>new2. kmem_ok en u (new2 @ new) \<and> set new2 = {v. page_aligned v \<and> unat ?mid \<le> unat v \<and> unat v < unat ?top}"
      then obtain new2 where n2: "kmem_ok en u (new2 @ new)" "set new2 = {v. page_aligned v \<and> unat ?mid \<le> unat v \<and> unat v < unat ?top}" by auto
      have "set (new2 @ new) = {v. page_aligned v \<and> unat ?a \<le> unat v \<and> unat v < unat ?top}"
        using n n2 am c by auto
      moreover have "page_ok en v \<longleftrightarrow> page_aligned v \<and> unat ?a \<le> unat v \<and> unat v < unat ?top" for v
        by (rule page_ok_range [OF ue(1) R]) (simp add: c)
      ultimately show "\<exists>free. kmem_ok en u free \<and> set free = {v. page_ok en v}" using n2(1) by auto
    qed
  qed (use c in simp_all)
  then show ?thesis by (simp add: kinit_def)
qed

section \<open>A client\<close>

text \<open>
  The pages the rest of the kernel holds. It may allocate, give back a page it holds,
  and write what it likes into the pages it holds.
\<close>

inductive kstep :: "u32 \<Rightarrow> kmem \<times> u32 list \<Rightarrow> kmem \<times> u32 list \<Rightarrow> bool" for en where
  k_alloc: "kalloc s = Ok (v, t) \<Longrightarrow> v \<noteq> 0 \<Longrightarrow> kstep en (s, own) (t, v # own)"
| k_fail: "kalloc s = Ok (0, t) \<Longrightarrow> kstep en (s, own) (t, own)"
| k_free: "v \<in> set own \<Longrightarrow> kfree en v s = Ok ((), t) \<Longrightarrow> kstep en (s, own) (t, remove1 v own)"
| k_write: "v \<in> set own \<Longrightarrow> in_page v x \<Longrightarrow> kstep en (s, own) (s\<lparr>kmem_mem := (kmem_mem s)(x := b)\<rparr>, own)"

definition kinv :: "u32 \<Rightarrow> kmem \<times> u32 list \<Rightarrow> bool" where
  "kinv en = (\<lambda>(s, own). \<exists>free. kmem_ok en s free \<and> distinct (free @ own) \<and> set (free @ own) = {v. page_ok en v})"

lemma kinv_step: "kstep en a b \<Longrightarrow> 0 < en \<Longrightarrow> kinv en a \<Longrightarrow> kinv en b"
proof (induction rule: kstep.induct)
  case (k_alloc s v t own)
  then obtain free where f: "kmem_ok en s free" "distinct (free @ own)" "set (free @ own) = {v. page_ok en v}" by (auto simp: kinv_def)
  with kalloc_wp [OF f(1)] k_alloc obtain fs where "free = v # fs" "kmem_ok en t fs"
    by (auto simp: kwp_Ok split: list.splits)
  then show ?case using f by (auto simp: kinv_def intro!: exI [of _ fs])
next
  case (k_fail s t own)
  then obtain free where f: "kmem_ok en s free" "distinct (free @ own)" "set (free @ own) = {v. page_ok en v}" by (auto simp: kinv_def)
  with kalloc_wp [OF f(1)] k_fail have "free = [] \<and> t = s" by (auto simp: kwp_Ok split: list.splits)
  then show ?case using f by (auto simp: kinv_def)
next
  case (k_free v own s t)
  then obtain free where f: "kmem_ok en s free" "distinct (free @ own)" "set (free @ own) = {v. page_ok en v}" by (auto simp: kinv_def)
  have "page_ok en v" "v \<notin> set free" using k_free.hyps(1) f by auto
  with kfree_wp [OF f(1) this k_free.prems(1)] k_free.hyps(2) have "kmem_ok en t (v # free)" by (auto simp: kwp_Ok)
  then show ?case using f k_free.hyps(1) by (auto simp: kinv_def set_remove1_eq intro!: exI [of _ "v # free"])
next
  case (k_write v own x s b)
  then obtain free where f: "kmem_ok en s free" "distinct (free @ own)" "set (free @ own) = {v. page_ok en v}" by (auto simp: kinv_def)
  have "page_ok en v" using k_write.hyps(1) f by auto
  then have "x \<noteq> y" if "w \<in> set free" "in_page w y" for w y
    using that f k_write.hyps page_disjoint [of v w y] by (fastforce simp: page_ok_def)
  then have "kmem_ok en (s\<lparr>kmem_mem := (kmem_mem s)(x := b)\<rparr>) free" by (intro kmem_ok_cong [OF f(1)]) auto
  then show ?case using f by (auto simp: kinv_def)
qed

lemma kinv_reach: "(kstep en)\<^sup>*\<^sup>* a b \<Longrightarrow> 0 < en \<Longrightarrow> kinv en a \<Longrightarrow> kinv en b"
  by (induction rule: rtranclp_induct) (auto intro: kinv_step)

section \<open>Properties\<close>

text \<open>
  C9: After \<open>kinit\<close>, which returns with every whole page between the end of the kernel and
  \<open>PHYSTOP\<close> on the free list, no sequence of allocations, frees and writes to allocated
  pages breaks the allocator: the free list never holds a page that is in use, a page
  handed out is free, aligned and inside physical memory, and \<open>kalloc\<close> returns 0 only
  when every page is in use.
\<close>

theorem kalloc_exclusive:
  assumes "KERNBASE \<le> en" "en \<le> p2v 0x400000" "kmem_freelist s0 = 0"
  shows "\<exists>s1. kinit en s0 = Ok ((), s1) \<and> (\<forall>s own. (kstep en)\<^sup>*\<^sup>* (s1, []) (s, own) \<longrightarrow>
    distinct own \<and> (\<exists>v t. kalloc s = Ok (v, t) \<and> (if v = 0 then set own = {v. page_ok en v} else page_ok en v \<and> v \<notin> set own)))"
proof -
  have pos: "0 < en" using assms(1) by (auto simp: KERNBASE_def word_less_nat_alt word_le_nat_alt)
  obtain s1 free where i: "kinit en s0 = Ok ((), s1)" "kmem_ok en s1 free" "set free = {v. page_ok en v}"
    using kinit_wp [OF assms] by (auto simp: kwp_Ok)
  then have inv: "kinv en (s1, [])" by (auto simp: kinv_def kmem_ok_def)
  have "distinct own \<and> (\<exists>v t. kalloc s = Ok (v, t) \<and> (if v = 0 then set own = {v. page_ok en v} else page_ok en v \<and> v \<notin> set own))"
    if r: "(kstep en)\<^sup>*\<^sup>* (s1, []) (s, own)" for s own
  proof -
    obtain fr where f: "kmem_ok en s fr" "distinct (fr @ own)" "set (fr @ own) = {v. page_ok en v}"
      using kinv_reach [OF r pos inv] by (auto simp: kinv_def)
    then show ?thesis using kalloc_wp [OF f(1)] by (cases fr) (auto simp: kwp_Ok)
  qed
  then show ?thesis using i by blast
qed

theorem kalloc_exclusive_witness:
  "\<exists>s1 v t. kinit 0x80108000 \<lparr>kmem_freelist = 0, kmem_mem = \<lambda>_. 0\<rparr> = Ok ((), s1) \<and> kalloc s1 = Ok (v, t) \<and> page_ok 0x80108000 v"
proof -
  have ok: "page_ok 0x80108000 0x80108000"
    by (simp add: page_ok_def page_aligned_def v2p_def KERNBASE_def PHYSTOP_def)
  have h: "KERNBASE \<le> 0x80108000" "0x80108000 \<le> p2v 0x400000" "kmem_freelist \<lparr>kmem_freelist = 0, kmem_mem = \<lambda>_. 0\<rparr> = 0"
    by (simp_all add: KERNBASE_def p2v_def)
  obtain s1 where s1: "kinit 0x80108000 \<lparr>kmem_freelist = 0, kmem_mem = \<lambda>_. 0\<rparr> = Ok ((), s1)"
    and all: "\<forall>s own. (kstep 0x80108000)\<^sup>*\<^sup>* (s1, []) (s, own) \<longrightarrow> distinct own \<and>
      (\<exists>v t. kalloc s = Ok (v, t) \<and> (if v = 0 then set own = {v. page_ok 0x80108000 v} else page_ok 0x80108000 v \<and> v \<notin> set own))"
    using kalloc_exclusive [OF h] by blast
  have "(kstep 0x80108000)\<^sup>*\<^sup>* (s1, []) (s1, [])" by simp
  with all obtain v t where "kalloc s1 = Ok (v, t)" "if v = 0 then set [] = {v. page_ok 0x80108000 v} else page_ok 0x80108000 v \<and> v \<notin> set []"
    by blast
  then show ?thesis using ok s1 by (auto split: if_splits)
qed

end
