(* ===== verification/Spinlock.thy ===== *)
theory Spinlock
  imports Prelude
begin

text \<open>
  Spin locks (\<open>spinlock.c\<close>) on several processors. A processor and a lock are numbers;
  the flag \<open>IF\<close> of a processor is part of its state. \<open>acquire\<close> and \<open>release\<close> are not
  atomic, so besides the two routines there is a step relation in which the
  processors interleave between any two of their accesses to shared memory. Shown
  here: mutual exclusion, no spurious panic, and that interrupts are off while a lock
  is held and come back as they were.
\<close>

section \<open>Operations\<close>

record cpu =
  ncli :: int
  intena :: bool
  fl_if :: bool

record spinlock =
  locked :: bool
  lk_cpu :: "nat option"

record lock_st =
  cpus :: "nat \<Rightarrow> cpu"
  lks :: "nat \<Rightarrow> spinlock"

definition upd_cpu :: "nat \<Rightarrow> (cpu \<Rightarrow> cpu) \<Rightarrow> ('z lock_st_scheme, unit) km" where
  "upd_cpu c f = kmod (\<lambda>s. s\<lparr>cpus := (cpus s)(c := f (cpus s c))\<rparr>)"

definition upd_lock :: "nat \<Rightarrow> (spinlock \<Rightarrow> spinlock) \<Rightarrow> ('z lock_st_scheme, unit) km" where
  "upd_lock l f = kmod (\<lambda>s. s\<lparr>lks := (lks s)(l := f (lks s l))\<rparr>)"

definition initlock :: "nat \<Rightarrow> ('z lock_st_scheme, unit) km" where
  "initlock l = upd_lock l (\<lambda>_. \<lparr>locked = False, lk_cpu = None\<rparr>)"

definition holding :: "nat \<Rightarrow> nat \<Rightarrow> ('z lock_st_scheme, bool) km" where
  "holding c l = kget (\<lambda>s. locked (lks s l) \<and> lk_cpu (lks s l) = Some c)"

definition xchg :: "nat \<Rightarrow> bool \<Rightarrow> ('z lock_st_scheme, bool) km" where
  "xchg l v = kbind (kget (\<lambda>s. locked (lks s l))) (\<lambda>old. kthen (upd_lock l (\<lambda>k. k\<lparr>locked := v\<rparr>)) (kret old))"

definition pushcli :: "nat \<Rightarrow> ('z lock_st_scheme, unit) km" where
  "pushcli c = kbind (kget (\<lambda>s. fl_if (cpus s c))) (\<lambda>eflags.
     kthen (upd_cpu c (\<lambda>k. k\<lparr>fl_if := False\<rparr>))
     (kbind (kget (\<lambda>s. ncli (cpus s c))) (\<lambda>n.
      kthen (upd_cpu c (\<lambda>k. k\<lparr>ncli := n + 1\<rparr>))
            (if n = 0 then upd_cpu c (\<lambda>k. k\<lparr>intena := eflags\<rparr>) else kret ()))))"

definition popcli :: "nat \<Rightarrow> ('z lock_st_scheme, unit) km" where
  "popcli c = kbind (kget (\<lambda>s. fl_if (cpus s c))) (\<lambda>eflags.
     if eflags then kpanic ''popcli - interruptible''
     else kthen (upd_cpu c (\<lambda>k. k\<lparr>ncli := ncli k - 1\<rparr>))
       (kbind (kget (\<lambda>s. cpus s c)) (\<lambda>k.
        if ncli k < 0 then kpanic ''popcli''
        else if ncli k = 0 \<and> intena k then upd_cpu c (\<lambda>k. k\<lparr>fl_if := True\<rparr>)
        else kret ())))"

text \<open>The parts of \<open>acquire\<close> and \<open>release\<close> before, between and after the exchange.\<close>

definition acquire_enter :: "nat \<Rightarrow> nat \<Rightarrow> ('z lock_st_scheme, unit) km" where
  "acquire_enter c l = kthen (pushcli c) (kbind (holding c l) (\<lambda>h. if h then kpanic ''acquire'' else kret ()))"

definition release_enter :: "nat \<Rightarrow> nat \<Rightarrow> ('z lock_st_scheme, unit) km" where
  "release_enter c l = kbind (holding c l) (\<lambda>h.
     if \<not> h then kpanic ''release'' else upd_lock l (\<lambda>k. k\<lparr>lk_cpu := None\<rparr>))"

text \<open>The whole routines; a lock that another processor holds is spun on, here \<open>Sleep\<close>.\<close>

definition acquire :: "nat \<Rightarrow> nat \<Rightarrow> ('z lock_st_scheme, unit) km" where
  "acquire c l = kthen (acquire_enter c l)
     (kbind (xchg l True) (\<lambda>old. if old then ksleep ''spin'' else upd_lock l (\<lambda>k. k\<lparr>lk_cpu := Some c\<rparr>)))"

definition release :: "nat \<Rightarrow> nat \<Rightarrow> ('z lock_st_scheme, unit) km" where
  "release c l = kthen (release_enter c l) (kthen (xchg l False) (popcli c))"

text \<open>
  The call stack recorded in a lock. \<open>m\<close> reads a word of memory; the first argument of
  the loop is the number of entries still to fill.
\<close>

primrec pcs_loop :: "nat \<Rightarrow> (u32 \<Rightarrow> u32) \<Rightarrow> u32 \<Rightarrow> u32 list" where
  "pcs_loop 0 m ebp = []"
| "pcs_loop (Suc n) m ebp =
     (if ebp = 0 \<or> ebp < 0x80000000 \<or> ebp = 0xffffffff then replicate (Suc n) 0
      else m (ebp + 4) # pcs_loop n m (m ebp))"

definition getcallerpcs :: "(u32 \<Rightarrow> u32) \<Rightarrow> u32 \<Rightarrow> u32 list" where
  "getcallerpcs m v = pcs_loop 10 m (v - 8)"

lemma getcallerpcs_length: "length (getcallerpcs m v) = 10"
proof -
  have "length (pcs_loop n m e) = n" for n e by (induction n arbitrary: e) auto
  then show ?thesis by (simp add: getcallerpcs_def)
qed

section \<open>Processors in parallel\<close>

text \<open>Where a processor is, and the locks it has acquired, the last one first.\<close>

datatype pc = Run | Spinning nat | Taken nat | Cleared nat | Unlocked

record mp_st = lock_st +
  pcs :: "nat \<Rightarrow> pc"
  held :: "nat \<Rightarrow> nat list"

definition at_pc :: "nat \<Rightarrow> pc \<Rightarrow> mp_st \<Rightarrow> mp_st" where
  "at_pc c p s = s\<lparr>pcs := (pcs s)(c := p)\<rparr>"

definition upd_held :: "nat \<Rightarrow> (nat list \<Rightarrow> nat list) \<Rightarrow> mp_st \<Rightarrow> mp_st" where
  "upd_held c f s = s\<lparr>held := (held s)(c := f (held s c))\<rparr>"

inductive mp_step :: "mp_st \<Rightarrow> mp_st \<Rightarrow> bool" where
  m_enter: "pcs s c = Run \<Longrightarrow> l \<notin> set (held s c) \<Longrightarrow> acquire_enter c l s = Ok ((), t) \<Longrightarrow> mp_step s (at_pc c (Spinning l) t)"
| m_spin: "pcs s c = Spinning l \<Longrightarrow> xchg l True s = Ok (True, t) \<Longrightarrow> mp_step s t"
| m_take: "pcs s c = Spinning l \<Longrightarrow> xchg l True s = Ok (False, t) \<Longrightarrow> mp_step s (at_pc c (Taken l) t)"
| m_done: "pcs s c = Taken l \<Longrightarrow> upd_lock l (\<lambda>k. k\<lparr>lk_cpu := Some c\<rparr>) s = Ok ((), t) \<Longrightarrow> mp_step s (at_pc c Run (upd_held c ((#) l) t))"
| m_release: "pcs s c = Run \<Longrightarrow> l \<in> set (held s c) \<Longrightarrow> release_enter c l s = Ok ((), t) \<Longrightarrow>
    mp_step s (at_pc c (Cleared l) (upd_held c (remove1 l) t))"
| m_unlock: "pcs s c = Cleared l \<Longrightarrow> xchg l False s = Ok (b, t) \<Longrightarrow> mp_step s (at_pc c Unlocked t)"
| m_pop: "pcs s c = Unlocked \<Longrightarrow> popcli c s = Ok ((), t) \<Longrightarrow> mp_step s (at_pc c Run t)"

text \<open>The locks a processor has: those acquired and the one on the way in or out.\<close>

fun pc_lock :: "pc \<Rightarrow> nat set" where
  "pc_lock (Taken l) = {l}"
| "pc_lock (Cleared l) = {l}"
| "pc_lock _ = {}"

definition owns :: "mp_st \<Rightarrow> nat \<Rightarrow> nat set" where
  "owns s c = set (held s c) \<union> pc_lock (pcs s c)"

definition depth :: "mp_st \<Rightarrow> nat \<Rightarrow> nat" where
  "depth s c = length (held s c) + (if pcs s c = Run then 0 else 1)"

definition excl_inv :: "mp_st \<Rightarrow> bool" where
  "excl_inv s \<longleftrightarrow>
     (\<forall>c d. c \<noteq> d \<longrightarrow> owns s c \<inter> owns s d = {})
   \<and> (\<forall>l. locked (lks s l) \<longleftrightarrow> (\<exists>c. l \<in> owns s c))
   \<and> (\<forall>l c. lk_cpu (lks s l) = Some c \<longleftrightarrow> l \<in> set (held s c))
   \<and> (\<forall>c. distinct (held s c) \<and> set (held s c) \<inter> pc_lock (pcs s c) = {})"

definition irq_ok :: "bool \<Rightarrow> cpu \<Rightarrow> nat \<Rightarrow> bool" where
  "irq_ok b k n \<longleftrightarrow> ncli k = int n \<and> (if n = 0 then fl_if k = b else \<not> fl_if k \<and> intena k = b)"

definition irq_inv :: "(nat \<Rightarrow> bool) \<Rightarrow> mp_st \<Rightarrow> bool" where
  "irq_inv if0 s \<longleftrightarrow> (\<forall>c. irq_ok (if0 c) (cpus s c) (depth s c))"

definition mp_init :: "(nat \<Rightarrow> bool) \<Rightarrow> mp_st" where
  "mp_init if0 = \<lparr>cpus = \<lambda>c. \<lparr>ncli = 0, intena = False, fl_if = if0 c\<rparr>, lks = \<lambda>_. \<lparr>locked = False, lk_cpu = None\<rparr>,
     pcs = \<lambda>_. Run, held = \<lambda>_. []\<rparr>"

lemma mp_inv_init: "excl_inv (mp_init if0)" "irq_inv if0 (mp_init if0)"
  by (simp_all add: excl_inv_def irq_inv_def mp_init_def owns_def depth_def irq_ok_def)

lemma push_eq: "pushcli c s = Ok ((), s\<lparr>cpus := (cpus s)(c := \<lparr>ncli = ncli (cpus s c) + 1,
    intena = (if ncli (cpus s c) = 0 then fl_if (cpus s c) else intena (cpus s c)), fl_if = False, \<dots> = cpu.more (cpus s c)\<rparr>)\<rparr>)"
  by (cases "cpus s c") (simp add: pushcli_def kdefs upd_cpu_def)

lemma enter_eq: "acquire_enter c l s = (if locked (lks s l) \<and> lk_cpu (lks s l) = Some c then Panic ''acquire'' else pushcli c s)"
  by (simp add: acquire_enter_def push_eq kthen_def kbind_def holding_def kget_def kpanic_def kret_def)

lemma xchg_eq: "xchg l v s = Ok (locked (lks s l), s\<lparr>lks := (lks s)(l := (lks s l)\<lparr>locked := v\<rparr>)\<rparr>)"
  by (simp add: xchg_def kdefs upd_lock_def)

lemma rel_eq: "release_enter c l s = (if locked (lks s l) \<and> lk_cpu (lks s l) = Some c
    then Ok ((), s\<lparr>lks := (lks s)(l := (lks s l)\<lparr>lk_cpu := None\<rparr>)\<rparr>) else Panic ''release'')"
  by (auto simp: release_enter_def kdefs upd_lock_def holding_def)

lemma pop_eq: "\<not> fl_if (cpus s c) \<Longrightarrow> 0 < ncli (cpus s c) \<Longrightarrow> popcli c s = Ok ((), s\<lparr>cpus := (cpus s)(c := (cpus s c)\<lparr>ncli := ncli (cpus s c) - 1,
    fl_if := (ncli (cpus s c) = 1 \<and> intena (cpus s c))\<rparr>)\<rparr>)"
  by (cases "cpus s c") (auto simp: popcli_def kdefs upd_cpu_def)

lemma mp_sel [simp]:
  "cpus (at_pc c p s) = cpus s" "lks (at_pc c p s) = lks s" "held (at_pc c p s) = held s" "pcs (at_pc c p s) = (pcs s)(c := p)"
  "cpus (upd_held c f s) = cpus s" "lks (upd_held c f s) = lks s" "held (upd_held c f s) = (held s)(c := f (held s c))" "pcs (upd_held c f s) = pcs s"
  by (simp_all add: at_pc_def upd_held_def)

text \<open>A step that only moves a processor, keeping what it owns.\<close>

lemma excl_inv_same:
  assumes "excl_inv s" "lks t = lks s" "held t = held s" "\<And>c. pc_lock (pcs t c) = pc_lock (pcs s c)"
  shows "excl_inv t"
  using assms by (simp add: excl_inv_def owns_def)

lemma excl_pc: "excl_inv s \<Longrightarrow> set (held s c) \<inter> pc_lock (pcs s c) = {}"
  by (simp add: excl_inv_def)

lemma excl_owns: "excl_inv s \<Longrightarrow> c \<noteq> d \<Longrightarrow> owns s c \<inter> owns s d = {}"
  by (simp add: excl_inv_def)

lemma excl_inv_step: "mp_step s t \<Longrightarrow> excl_inv s \<Longrightarrow> excl_inv t"
proof (induction rule: mp_step.induct)
  case (m_enter s c l t)
  then have "lks t = lks s \<and> held t = held s \<and> pcs t = pcs s" by (auto simp: enter_eq push_eq split: if_splits)
  with m_enter show ?case by (intro excl_inv_same [OF m_enter.prems]) auto
next
  case (m_spin s c l t)
  then have "t = s" by (auto simp: xchg_eq fun_upd_idem)
  with m_spin show ?case by simp
next
  case (m_take s c l t)
  then have free: "\<not> locked (lks s l)" and t: "t = s\<lparr>lks := (lks s)(l := (lks s l)\<lparr>locked := True\<rparr>)\<rparr>" by (auto simp: xchg_eq)
  have no: "l \<notin> owns s d" for d using free m_take.prems by (auto simp: excl_inv_def)
  have ow: "owns (at_pc c (Taken l) t) d = (if d = c then insert l (owns s c) else owns s d)" for d
    using m_take.hyps(1) by (auto simp: owns_def t)
  have nh: "l \<notin> set (held s d)" for d using no by (simp add: owns_def)
  have lk: "locked (lks (at_pc c (Taken l) t) k) \<longleftrightarrow> (\<exists>d. k \<in> (if d = c then insert l (owns s c) else owns s d))" for k
    using m_take.prems by (cases "k = l") (auto simp: t excl_inv_def)
  show ?case using m_take.prems no nh m_take.hyps(1) lk unfolding excl_inv_def ow by (auto simp: t)
next
  case (m_done s c l t)
  then have t: "t = s\<lparr>lks := (lks s)(l := (lks s l)\<lparr>lk_cpu := Some c\<rparr>)\<rparr>" by (auto simp: upd_lock_def kmod_def)
  have ow: "owns (at_pc c Run (upd_held c ((#) l) t)) d = owns s d" for d using m_done.hyps(1) by (auto simp: owns_def t)
  have "l \<in> owns s c" using m_done.hyps(1) by (simp add: owns_def)
  then have "l \<notin> set (held s d)" if "d \<noteq> c" for d using m_done.prems that by (auto simp: excl_inv_def owns_def)
  moreover have "l \<notin> set (held s c)" using excl_pc [OF m_done.prems, of c] m_done.hyps(1) by simp
  ultimately show ?case using m_done.prems m_done.hyps(1) unfolding excl_inv_def ow by (auto simp: t)
next
  case (m_release s c l t)
  then have t: "t = s\<lparr>lks := (lks s)(l := (lks s l)\<lparr>lk_cpu := None\<rparr>)\<rparr>" by (auto simp: rel_eq split: if_splits)
  have d: "distinct (held s c)" using m_release.prems by (simp add: excl_inv_def)
  have ow: "owns (at_pc c (Cleared l) (upd_held c (remove1 l) t)) d = owns s d" for d
    using m_release.hyps(1,2) d by (auto simp: owns_def t)
  have "l \<notin> set (held s e)" if "e \<noteq> c" for e using m_release.prems m_release.hyps(2) that by (auto simp: excl_inv_def owns_def)
  then show ?case using m_release.prems m_release.hyps(1,2) d unfolding excl_inv_def ow by (auto simp: t)
next
  case (m_unlock s c l b t)
  then have t: "t = s\<lparr>lks := (lks s)(l := (lks s l)\<lparr>locked := False\<rparr>)\<rparr>" by (auto simp: xchg_eq)
  have nl: "l \<notin> set (held s c)" using excl_pc [OF m_unlock.prems, of c] m_unlock.hyps(1) by simp
  have ow: "owns (at_pc c Unlocked t) d = (if d = c then owns s c - {l} else owns s d)" for d
    using m_unlock.hyps(1) nl by (auto simp: owns_def t)
  have "l \<notin> owns s d" if "d \<noteq> c" for d
    using excl_owns [OF m_unlock.prems that] m_unlock.hyps(1) by (simp add: owns_def)
  note other = this
  have lk: "locked (lks (at_pc c Unlocked t) k) \<longleftrightarrow> (\<exists>d. k \<in> (if d = c then owns s c - {l} else owns s d))" for k
  proof (cases "k = l")
    case False
    then have "(\<exists>d. k \<in> (if d = c then owns s c - {l} else owns s d)) \<longleftrightarrow> (\<exists>d. k \<in> owns s d)" by (metis Diff_iff singletonD)
    then show ?thesis using m_unlock.prems False by (auto simp: t excl_inv_def)
  qed (use other in \<open>auto simp: t\<close>)
  have dis: "(if d = c then owns s c - {l} else owns s d) \<inter> (if e = c then owns s c - {l} else owns s e) = {}" if "d \<noteq> e" for d e
    using excl_owns [OF m_unlock.prems that] by auto
  show ?case unfolding excl_inv_def ow using dis lk m_unlock.prems nl by (auto simp: t excl_inv_def)
next
  case (m_pop s c t)
  then have "lks t = lks s \<and> held t = held s \<and> pcs t = pcs s"
    by (auto simp: popcli_def kdefs upd_cpu_def split: if_splits)
  with m_pop show ?case by (intro excl_inv_same [OF m_pop.prems]) auto
qed

lemma irq_push:
  assumes "irq_ok b (cpus s c) n" "pushcli c s = Ok ((), t)"
  shows "irq_ok b (cpus t c) (Suc n)"
proof -
  have "cpus t c = \<lparr>ncli = ncli (cpus s c) + 1, intena = (if ncli (cpus s c) = 0 then fl_if (cpus s c) else intena (cpus s c)), fl_if = False\<rparr>"
    using assms(2) by (auto simp: push_eq)
  then show ?thesis using assms(1) by (auto simp: irq_ok_def)
qed

lemma irq_pop:
  assumes "irq_ok b (cpus s c) (Suc n)"
  shows "\<exists>t. popcli c s = Ok ((), t) \<and> irq_ok b (cpus t c) n \<and> (\<forall>d. d \<noteq> c \<longrightarrow> cpus t d = cpus s d) \<and> t = s\<lparr>cpus := cpus t\<rparr>"
  using assms pop_eq [of s c] by (auto simp: irq_ok_def)

lemma irq_inv_at:
  assumes "irq_inv if0 s" "\<And>d. d \<noteq> c \<Longrightarrow> cpus t d = cpus s d \<and> depth t d = depth s d" "irq_ok (if0 c) (cpus t c) (depth t c)"
  shows "irq_inv if0 t"
  unfolding irq_inv_def
proof
  fix d show "irq_ok (if0 d) (cpus t d) (depth t d)" using assms by (cases "d = c") (simp_all add: irq_inv_def)
qed

lemma irq_inv_step: "mp_step s t \<Longrightarrow> irq_inv if0 s \<Longrightarrow> irq_inv if0 t"
proof (induction rule: mp_step.induct)
  case (m_enter s c l t)
  then have t: "pushcli c s = Ok ((), t)" by (auto simp: enter_eq split: if_splits)
  then have h: "held t = held s" "pcs t = pcs s" "\<And>d. d \<noteq> c \<Longrightarrow> cpus t d = cpus s d" by (auto simp: push_eq)
  have "irq_ok (if0 c) (cpus t c) (Suc (depth s c))" using m_enter.prems irq_push [OF _ t] by (simp add: irq_inv_def)
  then show ?case using h m_enter.hyps(1) by (intro irq_inv_at [OF m_enter.prems]) (auto simp: depth_def)
next
  case (m_spin s c l t)
  then show ?case using m_spin.prems [unfolded irq_inv_def, rule_format, of c]
    by (intro irq_inv_at [OF m_spin.prems, of c]) (auto simp: depth_def xchg_eq)
next
  case (m_take s c l t)
  then show ?case using m_take.prems [unfolded irq_inv_def, rule_format, of c]
    by (intro irq_inv_at [OF m_take.prems, of c]) (auto simp: depth_def xchg_eq)
next
  case (m_done s c l t)
  then show ?case using m_done.prems [unfolded irq_inv_def, rule_format, of c]
    by (intro irq_inv_at [OF m_done.prems, of c]) (auto simp: depth_def upd_lock_def kmod_def)
next
  case (m_release s c l t)
  then have "cpus t = cpus s \<and> held t = held s \<and> pcs t = pcs s" by (auto simp: rel_eq split: if_splits)
  moreover have "length (remove1 l (held s c)) + 1 = length (held s c)" using m_release.hyps(2) length_pos_if_in_set [of l "held s c"] by (simp add: length_remove1)
  ultimately show ?case using m_release.prems [unfolded irq_inv_def, rule_format, of c] m_release.hyps(1)
    by (intro irq_inv_at [OF m_release.prems, of c]) (auto simp: depth_def)
next
  case (m_unlock s c l b t)
  then show ?case using m_unlock.prems [unfolded irq_inv_def, rule_format, of c]
    by (intro irq_inv_at [OF m_unlock.prems, of c]) (auto simp: depth_def xchg_eq)
next
  case (m_pop s c t)
  have "irq_ok (if0 c) (cpus s c) (Suc (length (held s c)))"
    using m_pop.prems [unfolded irq_inv_def, rule_format, of c] m_pop.hyps(1) by (simp add: depth_def)
  from irq_pop [OF this] m_pop.hyps(2)
  have o: "irq_ok (if0 c) (cpus t c) (length (held s c))" "\<forall>d. d \<noteq> c \<longrightarrow> cpus t d = cpus s d" and t: "t = s\<lparr>cpus := cpus t\<rparr>" by auto
  have h: "held t = held s" "pcs t = pcs s" by (subst t, simp)+
  show ?case using o h m_pop.hyps(1) by (intro irq_inv_at [OF m_pop.prems, of c]) (auto simp: depth_def)
qed

lemma mp_inv_reach: "mp_step\<^sup>*\<^sup>* (mp_init if0) s \<Longrightarrow> excl_inv s \<and> irq_inv if0 s"
  by (induction rule: rtranclp_induct) (auto intro: mp_inv_init excl_inv_step irq_inv_step)

section \<open>Properties\<close>

text \<open>
  C10: However the processors interleave inside \<open>acquire\<close> and \<open>release\<close>, two of them never hold
  the same lock; a processor that holds a lock or is waiting for one has its
  interrupts off, and when it has released all of them they are as they were at first;
  and no routine panics: \<open>acquire\<close> of a lock the processor does not hold, \<open>release\<close> of
  one it holds and the final \<open>popcli\<close> all pass their checks.
\<close>

theorem spinlock_exclusion:
  assumes "mp_step\<^sup>*\<^sup>* (mp_init if0) s"
  shows "(\<forall>c d. c \<noteq> d \<longrightarrow> set (held s c) \<inter> set (held s d) = {})
    \<and> (\<forall>c. if held s c = [] \<and> pcs s c = Run then fl_if (cpus s c) = if0 c else \<not> fl_if (cpus s c))
    \<and> (\<forall>c l. pcs s c = Run \<and> l \<notin> set (held s c) \<longrightarrow> (\<exists>t. acquire_enter c l s = Ok ((), t)))
    \<and> (\<forall>c l. pcs s c = Run \<and> l \<in> set (held s c) \<longrightarrow> (\<exists>t. release_enter c l s = Ok ((), t)))
    \<and> (\<forall>c. pcs s c = Unlocked \<longrightarrow> (\<exists>t. popcli c s = Ok ((), t)))"
proof -
  have I: "excl_inv s" "irq_inv if0 s" using mp_inv_reach [OF assms] by auto
  have "set (held s c) \<inter> set (held s d) = {}" if "c \<noteq> d" for c d
    using I(1) that by (auto simp: excl_inv_def owns_def)
  moreover have "if held s c = [] \<and> pcs s c = Run then fl_if (cpus s c) = if0 c else \<not> fl_if (cpus s c)" for c
    using I(2) [unfolded irq_inv_def, rule_format, of c] by (auto simp: irq_ok_def depth_def split: if_splits)
  moreover have "\<exists>t. acquire_enter c l s = Ok ((), t)" if "l \<notin> set (held s c)" for c l
    using I(1) that by (simp add: enter_eq push_eq excl_inv_def)
  moreover have "\<exists>t. release_enter c l s = Ok ((), t)" if "l \<in> set (held s c)" for c l
    using I(1) that by (auto simp: rel_eq excl_inv_def owns_def)
  moreover have "\<exists>t. popcli c s = Ok ((), t)" if "pcs s c = Unlocked" for c
    using I(2) [unfolded irq_inv_def, rule_format, of c] that irq_pop [of "if0 c" s c "length (held s c)"] by (auto simp: depth_def)
  ultimately show ?thesis by blast
qed

theorem spinlock_exclusion_witness:
  "\<exists>s. mp_step\<^sup>*\<^sup>* (mp_init (\<lambda>_. True)) s \<and> pcs s 0 = Spinning 7 \<and> \<not> fl_if (cpus s 0)"
proof -
  define i where "i = mp_init (\<lambda>_. True)"
  obtain t where t: "acquire_enter 0 7 i = Ok ((), t)" by (auto simp: enter_eq push_eq i_def mp_init_def)
  have "pcs i 0 = Run" "7 \<notin> set (held i 0)" by (simp_all add: i_def mp_init_def)
  from mp_step.m_enter [OF this t] have r: "mp_step\<^sup>*\<^sup>* (mp_init (\<lambda>_. True)) (at_pc 0 (Spinning 7) t)" by (auto simp: i_def)
  have "\<not> fl_if (cpus (at_pc 0 (Spinning 7) t) 0)"
    using spinlock_exclusion [OF r, THEN conjunct2, THEN conjunct1, rule_format, of 0] by simp
  then show ?thesis using r by (intro exI [of _ "at_pc 0 (Spinning 7) t"]) simp
qed

end
