(* ===== verification/Bio.thy ===== *)
theory Bio
  imports Kalloc
begin

text \<open>
  The disk (\<open>memide.c\<close>) and the buffer cache (\<open>bio.c\<close>). The cache is an array
  of \<open>NBUF\<close> buffers and a list head, node \<open>NBUF\<close>, chained by \<open>next\<close> and
  \<open>prev\<close> into a ring whose first element is the most recently used buffer.
  Shown here: the ring stays a permutation of the buffers, a block has at most
  one buffer, a buffer that is not dirty agrees with the disk, and \<open>bread\<close>
  returns what was last written to the block.

  \<open>bcache.lock\<close> makes each of these routines one atomic step, so it is not
  part of the state. Where \<open>bget\<close> would wait for a busy buffer the model
  returns \<open>Sleep\<close>. \<open>wakeup\<close> changes only the process table.
\<close>

section \<open>State\<close>

definition NBUF :: nat where "NBUF = 30"
definition BSIZE :: nat where "BSIZE = 512"

definition B_BUSY :: u32 where "B_BUSY = 1"
definition B_VALID :: u32 where "B_VALID = 2"
definition B_DIRTY :: u32 where "B_DIRTY = 4"

record buf =
  b_flags :: u32
  b_dev :: u32
  b_sector :: u32
  b_prev :: nat
  b_next :: nat
  b_data :: "u8 list"

text \<open>
  \<open>memdisk\<close> gives the 512 bytes of a sector, \<open>disksize\<close> is in sectors.
  \<open>dwrites\<close> is a history variable: the sector writes the disk has performed,
  in order. A crash keeps the writes of a prefix of it.
\<close>

record bio = kmem +
  memdisk :: "nat \<Rightarrow> u8 list"
  disksize :: nat
  dwrites :: "(nat \<times> u8 list) list"
  bufs :: "nat \<Rightarrow> buf"

definition busy :: "buf \<Rightarrow> bool" where "busy b \<longleftrightarrow> b_flags b AND B_BUSY \<noteq> 0"
definition valid :: "buf \<Rightarrow> bool" where "valid b \<longleftrightarrow> b_flags b AND B_VALID \<noteq> 0"
definition dirty :: "buf \<Rightarrow> bool" where "dirty b \<longleftrightarrow> b_flags b AND B_DIRTY \<noteq> 0"

abbreviation head :: nat where "head \<equiv> NBUF"

definition set_next :: "nat \<Rightarrow> nat \<Rightarrow> (nat \<Rightarrow> buf) \<Rightarrow> nat \<Rightarrow> buf" where
  "set_next i v B = B(i := (B i)\<lparr>b_next := v\<rparr>)"

definition set_prev :: "nat \<Rightarrow> nat \<Rightarrow> (nat \<Rightarrow> buf) \<Rightarrow> nat \<Rightarrow> buf" where
  "set_prev i v B = B(i := (B i)\<lparr>b_prev := v\<rparr>)"

section \<open>Operations\<close>

text \<open>\<open>iderw\<close> of \<open>memide.c\<close>: synchronise a buffer with the disk.\<close>

definition iderw :: "nat \<Rightarrow> ('z bio_scheme, unit) km" where
  "iderw i = (\<lambda>s. let b = bufs s i in
     if b_flags b AND B_BUSY = 0 then Panic ''iderw: buf not busy''
     else if b_flags b AND (B_VALID OR B_DIRTY) = B_VALID then Panic ''iderw: nothing to do''
     else if b_dev b \<noteq> 1 then Panic ''iderw: request not for disk 1''
     else if disksize s \<le> unat (b_sector b) then Panic ''iderw: sector out of range''
     else if b_flags b AND B_DIRTY \<noteq> 0 then
       Ok ((), s\<lparr>memdisk := (memdisk s)(unat (b_sector b) := b_data b),
                 dwrites := dwrites s @ [(unat (b_sector b), b_data b)],
                 bufs := (bufs s)(i := b\<lparr>b_flags := b_flags b AND NOT B_DIRTY OR B_VALID\<rparr>)\<rparr>)
     else
       Ok ((), s\<lparr>bufs := (bufs s)(i := b\<lparr>b_data := memdisk s (unat (b_sector b)),
                                        b_flags := b_flags b OR B_VALID\<rparr>)\<rparr>))"

text \<open>\<open>binit\<close>: put every buffer at the front of an empty ring.\<close>

definition binit_step :: "nat \<Rightarrow> (nat \<Rightarrow> buf) \<Rightarrow> nat \<Rightarrow> buf" where
  "binit_step i B =
     (let B1 = set_next i (b_next (B head)) B;
          B2 = set_prev i head B1;
          B3 = B2(i := (B2 i)\<lparr>b_dev := - 1\<rparr>);
          B4 = set_prev (b_next (B3 head)) i B3
      in set_next head i B4)"

definition binit :: "('z bio_scheme, unit) km" where
  "binit = kmod (\<lambda>s. s\<lparr>bufs :=
     fold binit_step [0..<NBUF] (set_next head head (set_prev head head (bufs s)))\<rparr>)"

text \<open>
  The two \<open>for\<close> loops of \<open>bget\<close> walk the ring from the head until they return
  to it. The fuel is the number of steps allowed; \<open>scan_ring\<close> below shows that
  the walk of a well-formed ring ends within \<open>NBUF\<close> steps, so running out is a
  walk that would never end.
\<close>

datatype scan = Found nat | NotFound | Endless

primrec scan_from :: "nat \<Rightarrow> (buf \<Rightarrow> nat) \<Rightarrow> (buf \<Rightarrow> bool) \<Rightarrow> (nat \<Rightarrow> buf) \<Rightarrow> nat \<Rightarrow> scan" where
  "scan_from 0 lnk P B i = (if i = head then NotFound else Endless)"
| "scan_from (Suc k) lnk P B i =
     (if i = head then NotFound else if P (B i) then Found i else scan_from k lnk P B (lnk (B i)))"

definition bget :: "u32 \<Rightarrow> u32 \<Rightarrow> ('z bio_scheme, nat) km" where
  "bget dev sector = (\<lambda>s. let B = bufs s in
     case scan_from NBUF b_next (\<lambda>b. b_dev b = dev \<and> b_sector b = sector) B (b_next (B head)) of
       Found i \<Rightarrow>
         if b_flags (B i) AND B_BUSY = 0
         then Ok (i, s\<lparr>bufs := B(i := (B i)\<lparr>b_flags := b_flags (B i) OR B_BUSY\<rparr>)\<rparr>)
         else Sleep ''bget''
     | Endless \<Rightarrow> Fault ''bget: ring''
     | NotFound \<Rightarrow>
         (case scan_from NBUF b_prev
                 (\<lambda>b. b_flags b AND B_BUSY = 0 \<and> b_flags b AND B_DIRTY = 0) B (b_prev (B head)) of
            Found i \<Rightarrow> Ok (i, s\<lparr>bufs := B(i := (B i)\<lparr>b_dev := dev, b_sector := sector,
                                                  b_flags := B_BUSY\<rparr>)\<rparr>)
          | Endless \<Rightarrow> Fault ''bget: ring''
          | NotFound \<Rightarrow> Panic ''bget: no buffers''))"

definition bread :: "u32 \<Rightarrow> u32 \<Rightarrow> ('z bio_scheme, nat) km" where
  "bread dev sector =
     kbind (bget dev sector) (\<lambda>i.
     kbind (kget (\<lambda>s. b_flags (bufs s i))) (\<lambda>f.
     kthen (if f AND B_VALID = 0 then iderw i else kret ()) (kret i)))"

definition bwrite :: "nat \<Rightarrow> ('z bio_scheme, unit) km" where
  "bwrite i =
     kbind (kget (\<lambda>s. b_flags (bufs s i))) (\<lambda>f.
     if f AND B_BUSY = 0 then kpanic ''bwrite''
     else kthen (kmod (\<lambda>s. s\<lparr>bufs := (bufs s)(i := (bufs s i)\<lparr>b_flags := f OR B_DIRTY\<rparr>)\<rparr>)) (iderw i))"

definition move_to_head :: "nat \<Rightarrow> (nat \<Rightarrow> buf) \<Rightarrow> nat \<Rightarrow> buf" where
  "move_to_head i B =
     (let B1 = set_prev (b_next (B i)) (b_prev (B i)) B;
          B2 = set_next (b_prev (B1 i)) (b_next (B1 i)) B1;
          B3 = set_next i (b_next (B2 head)) B2;
          B4 = set_prev i head B3;
          B5 = set_prev (b_next (B4 head)) i B4
      in set_next head i B5)"

definition brelse :: "nat \<Rightarrow> ('z bio_scheme, unit) km" where
  "brelse i =
     kbind (kget (\<lambda>s. b_flags (bufs s i))) (\<lambda>f.
     if f AND B_BUSY = 0 then kpanic ''brelse''
     else kmod (\<lambda>s. let B = move_to_head i (bufs s) in
       s\<lparr>bufs := B(i := (B i)\<lparr>b_flags := b_flags (B i) AND NOT B_BUSY\<rparr>)\<rparr>))"

text \<open>
  A holder of a buffer changes its bytes in place; these stand for the
  \<open>memmove\<close>s and stores through \<open>bp->data\<close> in the callers.
\<close>

definition bdata :: "nat \<Rightarrow> ('z bio_scheme, u8 list) km" where
  "bdata i = kget (\<lambda>s. b_data (bufs s i))"

definition set_bdata :: "nat \<Rightarrow> u8 list \<Rightarrow> ('z bio_scheme, unit) km" where
  "set_bdata i d = kmod (\<lambda>s. s\<lparr>bufs := (bufs s)(i := (bufs s i)\<lparr>b_data := d\<rparr>)\<rparr>)"

text \<open>The last statement of \<open>log_write\<close>: the buffer must not be evicted before the commit.\<close>

definition mark_dirty :: "nat \<Rightarrow> ('z bio_scheme, unit) km" where
  "mark_dirty i = kmod (\<lambda>s. s\<lparr>bufs := (bufs s)(i := (bufs s i)\<lparr>b_flags := b_flags (bufs s i) OR B_DIRTY\<rparr>)\<rparr>)"

section \<open>Flags\<close>

lemma bit_B [simp]:
  "bit B_BUSY n \<longleftrightarrow> n = 0" "bit B_VALID n \<longleftrightarrow> n = Suc 0" "bit B_DIRTY n \<longleftrightarrow> n = 2"
  using bit_exp_iff [where 'a = u32, of 1 n] bit_exp_iff [where 'a = u32, of 2 n]
  by (auto simp: B_BUSY_def B_VALID_def B_DIRTY_def bit_1_iff)

lemma and_B_eq_0 [simp]:
  "f AND B_BUSY = 0 \<longleftrightarrow> \<not> bit f 0" "f AND B_VALID = 0 \<longleftrightarrow> \<not> bit f (Suc 0)" "f AND B_DIRTY = 0 \<longleftrightarrow> \<not> bit f 2"
  using and_exp_eq_0_iff_not_bit [of f 0] and_exp_eq_0_iff_not_bit [of f 1]
    and_exp_eq_0_iff_not_bit [of f 2]
  by (simp_all add: B_BUSY_def B_VALID_def B_DIRTY_def)

lemma B_DIRTY_neq_0: "B_DIRTY \<noteq> 0"
  by (simp add: B_DIRTY_def)

lemma busy_bit: "busy b \<longleftrightarrow> bit (b_flags b) 0"
  and valid_bit: "valid b \<longleftrightarrow> bit (b_flags b) (Suc 0)"
  and dirty_bit: "dirty b \<longleftrightarrow> bit (b_flags b) 2"
  by (simp_all add: busy_def valid_def dirty_def)

lemma and_VALID_DIRTY: "f AND (B_VALID OR B_DIRTY) = B_VALID \<longleftrightarrow> bit f (Suc 0) \<and> \<not> bit f 2"
proof
  assume eq: "f AND (B_VALID OR B_DIRTY) = B_VALID"
  have "bit (f AND (B_VALID OR B_DIRTY)) 1 = bit B_VALID 1"
    "bit (f AND (B_VALID OR B_DIRTY)) 2 = bit B_VALID 2" by (simp_all only: eq)
  then show "bit f (Suc 0) \<and> \<not> bit f 2" by (simp add: bit_simps)
qed (auto intro!: bit_word_eqI simp: bit_simps)

lemmas flag_simps = busy_bit valid_bit dirty_bit and_VALID_DIRTY bit_or_iff bit_and_iff bit_not_iff

section \<open>The ring\<close>

definition ring :: "(nat \<Rightarrow> buf) \<Rightarrow> nat list \<Rightarrow> bool" where
  "ring B xs \<longleftrightarrow> distinct xs \<and> set xs = {..<NBUF}
     \<and> links (\<lambda>i. b_next (B i)) (\<lambda>i. b_prev (B i)) (head # xs @ [head])"

lemma ring_length: "ring B xs \<Longrightarrow> length xs = NBUF"
  by (metis card_lessThan distinct_card ring_def)

lemma ring_cong:
  "ring B xs \<Longrightarrow> (\<And>i. b_next (B' i) = b_next (B i)) \<Longrightarrow> (\<And>i. b_prev (B' i) = b_prev (B i)) \<Longrightarrow>
    ring B' xs"
  by (simp add: ring_def)

lemma scan_from_find:
  "links (\<lambda>i. lnk (B i)) q (xs @ [head]) \<Longrightarrow> head \<notin> set xs \<Longrightarrow> length xs \<le> k \<Longrightarrow>
    scan_from k lnk P B (hd (xs @ [head])) =
      (case List.find (\<lambda>i. P (B i)) xs of None \<Rightarrow> NotFound | Some i \<Rightarrow> Found i)"
proof (induction xs arbitrary: k)
  case Nil
  then show ?case by (cases k) auto
next
  case (Cons x xs)
  obtain k' where k: "k = Suc k'" using Cons.prems by (cases k) auto
  have "lnk (B x) = hd (xs @ [head])"
    using Cons.prems(1) by (cases xs) auto
  moreover have "links (\<lambda>i. lnk (B i)) q (xs @ [head])"
    using Cons.prems(1) by (cases xs) auto
  ultimately show ?case using Cons k by auto
qed

text \<open>The forward loop of \<open>bget\<close> searches the ring in order, the backward loop in reverse.\<close>

lemma scan_ring:
  assumes "ring B xs"
  shows "scan_from NBUF b_next P B (b_next (B head)) =
      (case List.find (\<lambda>i. P (B i)) xs of None \<Rightarrow> NotFound | Some i \<Rightarrow> Found i)"
    and "scan_from NBUF b_prev P B (b_prev (B head)) =
      (case List.find (\<lambda>i. P (B i)) (rev xs) of None \<Rightarrow> NotFound | Some i \<Rightarrow> Found i)"
proof -
  let ?n = "\<lambda>i. b_next (B i)" and ?p = "\<lambda>i. b_prev (B i)"
  have l: "links ?n ?p (head # xs @ [head])" and h: "head \<notin> set xs"
    using assms by (auto simp: ring_def)
  have len: "length xs \<le> NBUF" using ring_length [OF assms] by simp
  have "b_next (B head) = hd (xs @ [head])" "links ?n ?p (xs @ [head])"
    using l by (cases xs; auto)+
  then show "scan_from NBUF b_next P B (b_next (B head)) =
      (case List.find (\<lambda>i. P (B i)) xs of None \<Rightarrow> NotFound | Some i \<Rightarrow> Found i)"
    using scan_from_find [of b_next B ?p xs NBUF P] h len by simp
  have r: "links ?p ?n (head # rev xs @ [head])"
    using l links_rev [of ?n ?p "head # xs @ [head]"] by simp
  then have "b_prev (B head) = hd (rev xs @ [head])" "links ?p ?n (rev xs @ [head])"
    by (cases "rev xs"; auto)+
  then show "scan_from NBUF b_prev P B (b_prev (B head)) =
      (case List.find (\<lambda>i. P (B i)) (rev xs) of None \<Rightarrow> NotFound | Some i \<Rightarrow> Found i)"
    using scan_from_find [of b_prev B ?n "rev xs" NBUF P] h len by simp
qed

lemma set_link_simps [simp]:
  "b_flags (set_next i v B j) = b_flags (B j)" "b_flags (set_prev i v B j) = b_flags (B j)"
  "b_dev (set_next i v B j) = b_dev (B j)" "b_dev (set_prev i v B j) = b_dev (B j)"
  "b_sector (set_next i v B j) = b_sector (B j)" "b_sector (set_prev i v B j) = b_sector (B j)"
  "b_data (set_next i v B j) = b_data (B j)" "b_data (set_prev i v B j) = b_data (B j)"
  "b_next (set_next i v B j) = (if j = i then v else b_next (B j))"
  "b_next (set_prev i v B j) = b_next (B j)"
  "b_prev (set_prev i v B j) = (if j = i then v else b_prev (B j))"
  "b_prev (set_next i v B j) = b_prev (B j)"
  by (simp_all add: set_next_def set_prev_def)

lemma move_to_head_simps [simp]:
  "b_flags (move_to_head i B j) = b_flags (B j)" "b_dev (move_to_head i B j) = b_dev (B j)"
  "b_sector (move_to_head i B j) = b_sector (B j)" "b_data (move_to_head i B j) = b_data (B j)"
  by (simp_all add: move_to_head_def Let_def)

lemma move_to_head_ring:
  assumes r: "ring B xs" and i: "i < NBUF"
  shows "ring (move_to_head i B) (i # remove1 i xs)"
proof -
  let ?n = "\<lambda>j. b_next (B j)" and ?p = "\<lambda>j. b_prev (B j)"
  obtain ys zs where xs: "xs = ys @ i # zs" and nin: "i \<notin> set ys"
    using r i by (metis lessThan_iff ring_def split_list_first)
  have d: "distinct (head # ys @ i # zs)" and l: "links ?n ?p (head # ys @ i # zs @ [head])"
    using r xs by (auto simp: ring_def)
  have ne: "?n i \<noteq> i"
  proof -
    have "links ?n ?p (i # zs @ [head])"
      using l links_append [of ?n ?p "head # ys" i "zs @ [head]"] by simp
    then have "?n i = hd (zs @ [head])" by (cases zs) auto
    then show ?thesis using d by (cases zs) auto
  qed
  define n2 where "n2 = ?n(?p i := ?n i)"
  define p2 where "p2 = ?p(?n i := ?p i)"
  have "links (n2(i := n2 head, head := i)) (p2(i := head, n2 head := i))
      (head # i # ys @ zs @ [head])"
    using l d n2_def p2_def by (rule links_move_front)
  moreover have "(\<lambda>j. b_next (move_to_head i B j)) = n2(i := n2 head, head := i)"
    "(\<lambda>j. b_prev (move_to_head i B j)) = p2(i := head, n2 head := i)"
    using i ne by (auto simp: move_to_head_def Let_def n2_def p2_def fun_eq_iff)
  moreover have "remove1 i xs = ys @ zs" using xs nin by (simp add: remove1_append)
  moreover have "distinct (i # ys @ zs)" "set (i # ys @ zs) = {..<NBUF}"
    using r xs by (auto simp: ring_def)
  ultimately show ?thesis by (simp add: ring_def)
qed

lemma binit_step_ring:
  assumes "links (\<lambda>j. b_next (B j)) (\<lambda>j. b_prev (B j)) (head # xs @ [head])"
    and "distinct (head # xs)" "i \<notin> set (head # xs)"
  shows "links (\<lambda>j. b_next (binit_step i B j)) (\<lambda>j. b_prev (binit_step i B j)) (head # i # xs @ [head])"
proof -
  let ?n = "\<lambda>j. b_next (B j)" and ?p = "\<lambda>j. b_prev (B j)"
  obtain f vs where fv: "xs @ [head] = f # vs" by (cases "xs @ [head]") auto
  then have f: "?n head = f" using assms(1) by simp
  have "links (?n(i := f, head := i)) (?p(i := head, f := i)) ([] @ head # i # f # vs)"
  proof (rule links_insert)
    show "links ?n ?p ([] @ head # f # vs)" using assms(1) fv by simp
    show "distinct (butlast ([] @ head # f # vs))" "distinct (tl ([] @ head # f # vs))"
      "i \<notin> set ([] @ head # f # vs)"
      unfolding append_Nil fv [symmetric] using assms(2,3) by (auto simp: butlast_append)
  qed
  moreover have "(\<lambda>j. b_next (binit_step i B j)) = ?n(i := f, head := i)"
    "(\<lambda>j. b_prev (binit_step i B j)) = ?p(i := head, f := i)"
    using assms(3) f by (auto simp: binit_step_def Let_def fun_eq_iff)
  ultimately show ?thesis using fv by simp
qed

lemma binit_links:
  assumes "k \<le> NBUF"
  shows "links (\<lambda>j. b_next (fold binit_step [0..<k] (set_next head head (set_prev head head B)) j))
               (\<lambda>j. b_prev (fold binit_step [0..<k] (set_next head head (set_prev head head B)) j))
               (head # rev [0..<k] @ [head])"
  using assms
proof (induction k)
  case (Suc k)
  then show ?case
    using binit_step_ring [of _ "rev [0..<k]" k] by simp
qed simp

lemma binit_ring:
  "ring (fold binit_step [0..<NBUF] (set_next head head (set_prev head head B))) (rev [0..<NBUF])"
  using binit_links [of NBUF B] by (auto simp: ring_def)

section \<open>Invariant and logical contents\<close>

text \<open>
  \<open>bview s n\<close> is the logical contents of sector \<open>n\<close>: the buffer's bytes if
  the sector is cached, the disk's otherwise. \<open>bcache_inv M s\<close> is what holds
  whenever no routine of \<open>bio.c\<close> is running; \<open>M\<close> are the buffers whose
  holder has changed the bytes but has not yet called \<open>log_write\<close> or \<open>bwrite\<close>.
\<close>

definition caches :: "'z bio_scheme \<Rightarrow> nat \<Rightarrow> nat \<Rightarrow> bool" where
  "caches s n i \<longleftrightarrow> valid (bufs s i) \<and> b_dev (bufs s i) = 1 \<and> unat (b_sector (bufs s i)) = n"

definition bview :: "'z bio_scheme \<Rightarrow> nat \<Rightarrow> u8 list" where
  "bview s n = (case List.find (caches s n) [0..<NBUF] of
     Some i \<Rightarrow> b_data (bufs s i) | None \<Rightarrow> memdisk s n)"

definition busy_set :: "'z bio_scheme \<Rightarrow> nat set" where
  "busy_set s = {i. i < NBUF \<and> busy (bufs s i)}"

definition dirty_set :: "'z bio_scheme \<Rightarrow> nat set" where
  "dirty_set s = {i. i < NBUF \<and> dirty (bufs s i)}"

definition dirty_secs :: "'z bio_scheme \<Rightarrow> nat set" where
  "dirty_secs s = (\<lambda>i. unat (b_sector (bufs s i))) ` dirty_set s"

definition buf_ok :: "nat set \<Rightarrow> 'z bio_scheme \<Rightarrow> nat \<Rightarrow> bool" where
  "buf_ok M s i \<longleftrightarrow> (let b = bufs s i in
     (dirty b \<longrightarrow> valid b) \<and>
     (valid b \<longrightarrow> b_dev b = 1 \<and> unat (b_sector b) < disksize s \<and> length (b_data b) = BSIZE) \<and>
     (valid b \<and> \<not> dirty b \<and> i \<notin> M \<longrightarrow> b_data b = memdisk s (unat (b_sector b))))"

definition bcache_inv :: "nat set \<Rightarrow> 'z bio_scheme \<Rightarrow> bool" where
  "bcache_inv M s \<longleftrightarrow> (\<exists>xs. ring (bufs s) xs)
     \<and> (\<forall>n < disksize s. length (memdisk s n) = BSIZE)
     \<and> (\<forall>i < NBUF. buf_ok M s i)
     \<and> (\<forall>i < NBUF. \<forall>j < NBUF. b_dev (bufs s i) = 1 \<and> b_dev (bufs s j) = 1
          \<and> b_sector (bufs s i) = b_sector (bufs s j) \<longrightarrow> i = j)
     \<and> M \<subseteq> busy_set s"

lemma finite_bsets [simp]: "finite (busy_set s)" "finite (dirty_set s)" "finite (dirty_secs s)"
  by (simp_all add: busy_set_def dirty_set_def dirty_secs_def)

lemma bcache_invD:
  assumes "bcache_inv M s"
  shows "\<exists>xs. ring (bufs s) xs" "n < disksize s \<Longrightarrow> length (memdisk s n) = BSIZE"
    "i < NBUF \<Longrightarrow> buf_ok M s i"
    "i < NBUF \<Longrightarrow> j < NBUF \<Longrightarrow> b_dev (bufs s i) = 1 \<Longrightarrow> b_dev (bufs s j) = 1 \<Longrightarrow>
      b_sector (bufs s i) = b_sector (bufs s j) \<Longrightarrow> i = j"
    "M \<subseteq> busy_set s"
  using assms by (auto simp: bcache_inv_def)

lemma bview_cached:
  assumes "bcache_inv M s" "i < NBUF" "valid (bufs s i)"
  shows "bview s (unat (b_sector (bufs s i))) = b_data (bufs s i)"
proof -
  have "b_dev (bufs s i) = 1"
    using bcache_invD(3) [OF assms(1,2)] assms(3) by (simp add: buf_ok_def Let_def)
  then have "List.find (caches s (unat (b_sector (bufs s i)))) [0..<NBUF] = Some i"
    using assms bcache_invD(4) [OF assms(1)]
    by (intro find_unique) (simp_all add: caches_def)
  then show ?thesis by (simp add: bview_def)
qed

lemma bview_uncached:
  "(\<And>i. i < NBUF \<Longrightarrow> valid (bufs s i) \<Longrightarrow> b_dev (bufs s i) = 1 \<Longrightarrow> unat (b_sector (bufs s i)) \<noteq> n) \<Longrightarrow>
    bview s n = memdisk s n"
  unfolding bview_def by (subst find_nobody) (auto simp: caches_def)

lemma bview_local:
  assumes "caches t n = caches s n" "memdisk t n = memdisk s n"
    and "\<And>j. caches s n j \<Longrightarrow> b_data (bufs t j) = b_data (bufs s j)"
  shows "bview t n = bview s n"
proof (cases "List.find (caches s n) [0..<NBUF]")
  case None
  then show ?thesis using assms(1,2) by (simp add: bview_def)
next
  case (Some j)
  then have "caches s n j" by (auto simp: find_Some_iff)
  then show ?thesis using Some assms(1,3) by (simp add: bview_def)
qed

text \<open>
  Two cache states with the same valid blocks have the same view. The links,
  the busy bits and buffers that are not valid do not matter.
\<close>

lemma bview_eqI:
  assumes "bcache_inv M s" "bcache_inv M' t"
    and up: "\<And>i. i < NBUF \<Longrightarrow> valid (bufs s i) \<Longrightarrow>
      (\<exists>j < NBUF. valid (bufs t j) \<and> b_sector (bufs t j) = b_sector (bufs s i) \<and> b_data (bufs t j) = b_data (bufs s i)) \<or>
      (\<forall>j < NBUF. valid (bufs t j) \<longrightarrow> b_sector (bufs t j) \<noteq> b_sector (bufs s i))
        \<and> b_data (bufs s i) = memdisk s (unat (b_sector (bufs s i)))"
    and down: "\<And>j. j < NBUF \<Longrightarrow> valid (bufs t j) \<Longrightarrow>
      (\<exists>i < NBUF. valid (bufs s i) \<and> b_sector (bufs s i) = b_sector (bufs t j)) \<or>
      b_data (bufs t j) = memdisk s (unat (b_sector (bufs t j)))"
    and disk: "memdisk t = memdisk s"
  shows "bview t = bview s"
proof
  fix n
  consider (c) i where "i < NBUF" "valid (bufs s i)" "unat (b_sector (bufs s i)) = n"
    | (u) "\<And>i. i < NBUF \<Longrightarrow> valid (bufs s i) \<Longrightarrow> unat (b_sector (bufs s i)) \<noteq> n"
    by blast
  then show "bview t n = bview s n"
  proof cases
    case c
    have s: "bview s n = b_data (bufs s i)" using bview_cached [OF assms(1) c(1,2)] c(3) by simp
    from up [OF c(1,2)] show ?thesis
    proof
      assume "\<exists>j < NBUF. valid (bufs t j) \<and> b_sector (bufs t j) = b_sector (bufs s i) \<and> b_data (bufs t j) = b_data (bufs s i)"
      then show ?thesis using bview_cached [OF assms(2)] s c(3) by metis
    next
      assume a: "(\<forall>j < NBUF. valid (bufs t j) \<longrightarrow> b_sector (bufs t j) \<noteq> b_sector (bufs s i))
        \<and> b_data (bufs s i) = memdisk s (unat (b_sector (bufs s i)))"
      then have "bview t n = memdisk t n"
        using c(3) by (intro bview_uncached) (metis unat_inject)
      then show ?thesis using s a c(3) disk by simp
    qed
  next
    case u
    have s: "bview s n = memdisk s n" using u by (intro bview_uncached) auto
    show ?thesis
    proof (cases "\<exists>j < NBUF. valid (bufs t j) \<and> unat (b_sector (bufs t j)) = n")
      case True
      then obtain j where j: "j < NBUF" "valid (bufs t j)" "unat (b_sector (bufs t j)) = n" by auto
      then have "b_data (bufs t j) = memdisk s n" using down [OF j(1,2)] u by metis
      then show ?thesis using bview_cached [OF assms(2) j(1,2)] j(3) s by simp
    next
      case False
      then have "bview t n = memdisk t n" by (intro bview_uncached) auto
      then show ?thesis using s disk by simp
    qed
  qed
qed

section \<open>Specifications of the operations\<close>

text \<open>
  Giving a buffer that was not busy to a block: either the buffer already held
  the block, or it was clean and is filled from the disk.
\<close>

lemma acquire_inv:
  assumes inv: "bcache_inv M s" and i: "i < NBUF" and nb: "\<not> busy (bufs s i)"
    and links: "b_next b = b_next (bufs s i)" "b_prev b = b_prev (bufs s i)"
    and b: "busy b" "valid b" "b_dev b = 1" "b_sector b = sec" "unat sec < disksize s"
    and others: "\<And>j. j < NBUF \<Longrightarrow> j \<noteq> i \<Longrightarrow> b_dev (bufs s j) = 1 \<Longrightarrow> b_sector (bufs s j) \<noteq> sec"
    and src: "(valid (bufs s i) \<and> b_sector (bufs s i) = sec \<and> b_data b = b_data (bufs s i)
        \<and> dirty b = dirty (bufs s i)) \<or>
      ((\<not> valid (bufs s i) \<or> b_sector (bufs s i) \<noteq> sec) \<and> \<not> dirty (bufs s i) \<and> \<not> dirty b
        \<and> b_data b = memdisk s (unat sec))"
  shows "bcache_inv M (s\<lparr>bufs := (bufs s)(i := b)\<rparr>)" (is "bcache_inv M ?t")
    and "bview (s\<lparr>bufs := (bufs s)(i := b)\<rparr>) = bview s"
    and "b_data b = bview s (unat sec)"
proof -
  have iM: "i \<notin> M" using bcache_invD(5) [OF inv] nb by (auto simp: busy_set_def)
  have ok: "buf_ok M s j" if "j < NBUF" for j using bcache_invD(3) [OF inv that] .
  have len: "length (b_data b) = BSIZE"
    using src ok [OF i] b(5) bcache_invD(2) [OF inv, of "unat sec"] by (auto simp: buf_ok_def Let_def)
  obtain xs where "ring (bufs s) xs" using bcache_invD(1) [OF inv] by auto
  then have ring: "ring (bufs ?t) xs" by (rule ring_cong) (auto simp: links)
  have oki: "buf_ok M ?t i"
    using src ok [OF i] b len iM by (auto simp: buf_ok_def Let_def)
  show inv': "bcache_inv M ?t"
    unfolding bcache_inv_def
  proof (intro conjI allI impI)
    show "\<exists>xs. ring (bufs ?t) xs" using ring by blast
    show "length (memdisk ?t n) = BSIZE" if "n < disksize ?t" for n
      using bcache_invD(2) [OF inv] that by simp
    show "buf_ok M ?t j" if "j < NBUF" for j
      using oki ok [OF that] by (cases "j = i") (auto simp: buf_ok_def Let_def)
    show "j = k" if "j < NBUF" "k < NBUF" "b_dev (bufs ?t j) = 1 \<and> b_dev (bufs ?t k) = 1
       \<and> b_sector (bufs ?t j) = b_sector (bufs ?t k)" for j k
      using that others [of j] others [of k] b bcache_invD(4) [OF inv, of j k]
      by (auto split: if_splits)
    show "M \<subseteq> busy_set ?t" using bcache_invD(5) [OF inv] b(1) by (auto simp: busy_set_def)
  qed
  show view: "bview ?t = bview s"
  proof (rule bview_eqI [OF inv inv'])
    fix j assume j: "j < NBUF" "valid (bufs s j)"
    show "(\<exists>k < NBUF. valid (bufs ?t k) \<and> b_sector (bufs ?t k) = b_sector (bufs s j) \<and> b_data (bufs ?t k) = b_data (bufs s j)) \<or>
      (\<forall>k < NBUF. valid (bufs ?t k) \<longrightarrow> b_sector (bufs ?t k) \<noteq> b_sector (bufs s j))
        \<and> b_data (bufs s j) = memdisk s (unat (b_sector (bufs s j)))"
    proof (cases "j = i")
      case True
      have dev: "b_dev (bufs s i) = 1" using ok [OF i] j True by (simp add: buf_ok_def Let_def)
      from src show ?thesis
      proof
        assume "valid (bufs s i) \<and> b_sector (bufs s i) = sec \<and> b_data b = b_data (bufs s i)
          \<and> dirty b = dirty (bufs s i)"
        then show ?thesis using True b i by (intro disjI1 exI [of _ i]) simp
      next
        assume a: "(\<not> valid (bufs s i) \<or> b_sector (bufs s i) \<noteq> sec) \<and> \<not> dirty (bufs s i) \<and> \<not> dirty b
          \<and> b_data b = memdisk s (unat sec)"
        have "b_data (bufs s j) = memdisk s (unat (b_sector (bufs s j)))"
          using a True j iM ok [OF i] by (simp add: buf_ok_def Let_def)
        moreover have "b_sector (bufs ?t k) \<noteq> b_sector (bufs s j)"
          if "k < NBUF" "valid (bufs ?t k)" for k
          using that a True j b(4) dev ok [of k] bcache_invD(4) [OF inv, of k i] i
          by (auto simp: buf_ok_def Let_def split: if_splits)
        ultimately show ?thesis by blast
      qed
    next
      case False
      then show ?thesis using j by (intro disjI1 exI [of _ j]) simp
    qed
  next
    fix j assume j: "j < NBUF" "valid (bufs ?t j)"
    show "(\<exists>k < NBUF. valid (bufs s k) \<and> b_sector (bufs s k) = b_sector (bufs ?t j)) \<or>
      b_data (bufs ?t j) = memdisk s (unat (b_sector (bufs ?t j)))"
      using j src b i by (cases "j = i") auto
  qed simp
  show "b_data b = bview s (unat sec)"
    using bview_cached [OF inv', of i] i b view by simp
qed

text \<open>
  \<open>can_get s sec\<close>: nobody holds the block and a buffer for it can be found:
  it is cached, or some buffer is neither busy nor dirty.
\<close>

definition can_get :: "'z bio_scheme \<Rightarrow> u32 \<Rightarrow> bool" where
  "can_get s sec \<longleftrightarrow> unat sec < disksize s
     \<and> (\<forall>i \<in> busy_set s. b_dev (bufs s i) = 1 \<longrightarrow> b_sector (bufs s i) \<noteq> sec)
     \<and> ((\<exists>i < NBUF. b_dev (bufs s i) = 1 \<and> b_sector (bufs s i) = sec)
        \<or> card (busy_set s \<union> dirty_set s) < NBUF)"

lemma room_obtains:
  assumes "card (busy_set s \<union> dirty_set s) < NBUF"
  obtains i where "i < NBUF" "\<not> busy (bufs s i)" "\<not> dirty (bufs s i)"
proof -
  have "\<not> {..<NBUF} \<subseteq> busy_set s \<union> dirty_set s"
    using assms card_mono [of "busy_set s \<union> dirty_set s" "{..<NBUF}"] by auto
  then show ?thesis using that by (auto simp: busy_set_def dirty_set_def)
qed

lemma bread_hit:
  assumes inv: "bcache_inv M s" and nb: "\<not> busy (bufs s i)" and sec: "unat sec < disksize s"
    and r: "ring (bufs s) xs" and i: "List.find (\<lambda>i. b_dev (bufs s i) = 1 \<and> b_sector (bufs s i) = sec) xs = Some i"
  obtains b where "bread 1 sec s = Ok (i, s\<lparr>bufs := (bufs s)(i := b)\<rparr>)"
    "b_next b = b_next (bufs s i)" "b_prev b = b_prev (bufs s i)"
    "busy b" "valid b" "b_dev b = 1" "b_sector b = sec" "dirty b = dirty (bufs s i)"
    "b_data b = (if valid (bufs s i) then b_data (bufs s i) else memdisk s (unat sec))"
proof -
  have P: "i < NBUF" "b_dev (bufs s i) = 1" "b_sector (bufs s i) = sec"
    using i r by (auto simp: find_Some_iff ring_def)
  let ?b1 = "(bufs s i)\<lparr>b_flags := b_flags (bufs s i) OR B_BUSY\<rparr>"
  let ?b2 = "(bufs s i)\<lparr>b_data := memdisk s (unat sec), b_flags := (b_flags (bufs s i) OR B_BUSY) OR B_VALID\<rparr>"
  have get_i: "bget 1 sec s = Ok (i, s\<lparr>bufs := (bufs s)(i := ?b1)\<rparr>)"
    using nb by (simp add: bget_def Let_def scan_ring [OF r] i busy_bit)
  show ?thesis
  proof (cases "valid (bufs s i)")
    case True
    then have "bread 1 sec s = Ok (i, s\<lparr>bufs := (bufs s)(i := ?b1)\<rparr>)"
      by (simp add: bread_def get_i kdefs flag_simps)
    then show ?thesis by (rule that) (use P True in \<open>simp_all add: flag_simps\<close>)
  next
    case False
    then have "\<not> dirty (bufs s i)" using bcache_invD(3) [OF inv P(1)] by (auto simp: buf_ok_def Let_def)
    then have "bread 1 sec s = Ok (i, s\<lparr>bufs := (bufs s)(i := ?b2)\<rparr>)"
      using False P sec by (simp add: bread_def get_i iderw_def Let_def kdefs flag_simps)
    then show ?thesis by (rule that) (use P False in \<open>simp_all add: flag_simps\<close>)
  qed
qed

lemma bread_miss:
  assumes sec: "unat sec < disksize s" and r: "ring (bufs s) xs"
    and none: "List.find (\<lambda>i. b_dev (bufs s i) = 1 \<and> b_sector (bufs s i) = sec) xs = None"
    and i: "List.find (\<lambda>j. \<not> busy (bufs s j) \<and> \<not> dirty (bufs s j)) (rev xs) = Some i"
  obtains b where "bread 1 sec s = Ok (i, s\<lparr>bufs := (bufs s)(i := b)\<rparr>)"
    "b_next b = b_next (bufs s i)" "b_prev b = b_prev (bufs s i)"
    "busy b" "valid b" "b_dev b = 1" "b_sector b = sec" "\<not> dirty b" "b_data b = memdisk s (unat sec)"
proof -
  let ?b = "(bufs s i)\<lparr>b_dev := 1, b_sector := sec, b_data := memdisk s (unat sec),
      b_flags := B_BUSY OR B_VALID\<rparr>"
  have "bget 1 sec s = Ok (i, s\<lparr>bufs := (bufs s)(i := (bufs s i)\<lparr>b_dev := 1, b_sector := sec, b_flags := B_BUSY\<rparr>)\<rparr>)"
    using i unfolding busy_bit dirty_bit by (simp add: bget_def Let_def scan_ring [OF r] none)
  then have "bread 1 sec s = Ok (i, s\<lparr>bufs := (bufs s)(i := ?b)\<rparr>)"
    using sec by (simp add: bread_def iderw_def Let_def kdefs flag_simps)
  then show ?thesis by (rule that) (simp_all add: flag_simps)
qed

lemma bread_wp:
  assumes inv: "bcache_inv M s" and get: "can_get s sec"
    and post: "\<And>i b. i < NBUF \<Longrightarrow> \<not> busy (bufs s i) \<Longrightarrow> busy b \<Longrightarrow> valid b \<Longrightarrow> b_dev b = 1 \<Longrightarrow>
      b_sector b = sec \<Longrightarrow> b_data b = bview s (unat sec) \<Longrightarrow> dirty b = dirty (bufs s i) \<Longrightarrow>
      (dirty b \<Longrightarrow> b_sector (bufs s i) = sec) \<Longrightarrow>
      bcache_inv M (s\<lparr>bufs := (bufs s)(i := b)\<rparr>) \<Longrightarrow>
      bview (s\<lparr>bufs := (bufs s)(i := b)\<rparr>) = bview s \<Longrightarrow>
      Q i (s\<lparr>bufs := (bufs s)(i := b)\<rparr>)"
  shows "kwp (bread 1 sec) Q s"
proof -
  obtain xs where r: "ring (bufs s) xs" using bcache_invD(1) [OF inv] by auto
  have xs: "set xs = {..<NBUF}" using r by (simp add: ring_def)
  have sec: "unat sec < disksize s" using get by (simp add: can_get_def)
  let ?P = "\<lambda>i. b_dev (bufs s i) = 1 \<and> b_sector (bufs s i) = sec"
  let ?F = "\<lambda>i. \<not> busy (bufs s i) \<and> \<not> dirty (bufs s i)"
  show ?thesis
  proof (cases "List.find ?P xs")
    case (Some i)
    then have i: "i < NBUF" "?P i" using xs by (auto simp: find_Some_iff)
    then have nb: "\<not> busy (bufs s i)" using get by (auto simp: can_get_def busy_set_def)
    have oth: "\<And>j. j < NBUF \<Longrightarrow> j \<noteq> i \<Longrightarrow> b_dev (bufs s j) = 1 \<Longrightarrow> b_sector (bufs s j) \<noteq> sec"
      using bcache_invD(4) [OF inv] i by blast
    have dv: "\<not> valid (bufs s i) \<Longrightarrow> \<not> dirty (bufs s i)"
      using bcache_invD(3) [OF inv i(1)] by (auto simp: buf_ok_def Let_def)
    obtain b where b: "bread 1 sec s = Ok (i, s\<lparr>bufs := (bufs s)(i := b)\<rparr>)"
      "b_next b = b_next (bufs s i)" "b_prev b = b_prev (bufs s i)"
      "busy b" "valid b" "b_dev b = 1" "b_sector b = sec" "dirty b = dirty (bufs s i)"
      "b_data b = (if valid (bufs s i) then b_data (bufs s i) else memdisk s (unat sec))"
      by (rule bread_hit [OF inv nb sec r Some])
    have src: "(valid (bufs s i) \<and> b_sector (bufs s i) = sec \<and> b_data b = b_data (bufs s i)
        \<and> dirty b = dirty (bufs s i)) \<or>
      ((\<not> valid (bufs s i) \<or> b_sector (bufs s i) \<noteq> sec) \<and> \<not> dirty (bufs s i) \<and> \<not> dirty b
        \<and> b_data b = memdisk s (unat sec))"
      using i(2) dv b(8,9) by auto
    note acq = acquire_inv [OF inv i(1) nb b(2-7) sec oth src]
    have "Q i (s\<lparr>bufs := (bufs s)(i := b)\<rparr>)"
      by (rule post [OF i(1) nb b(4-7) acq(3) b(8) _ acq(1,2)]) (use i(2) in blast)+
    then show ?thesis using b(1) by (simp add: kwp_def)
  next
    case None
    then have none: "\<not> ?P j" if "j < NBUF" for j using xs that by (auto simp: find_None_iff)
    then have "card (busy_set s \<union> dirty_set s) < NBUF" using get by (auto simp: can_get_def)
    then obtain k where "k < NBUF" "?F k" by (elim room_obtains) auto
    then have "List.find ?F (rev xs) \<noteq> None" using xs by (auto simp: find_None_iff)
    then obtain i where f: "List.find ?F (rev xs) = Some i" by auto
    have i: "i < NBUF" "?F i" using find_SomeD [OF f] xs by auto
    then have nb: "\<not> busy (bufs s i)" by simp
    obtain b where b: "bread 1 sec s = Ok (i, s\<lparr>bufs := (bufs s)(i := b)\<rparr>)"
      "b_next b = b_next (bufs s i)" "b_prev b = b_prev (bufs s i)"
      "busy b" "valid b" "b_dev b = 1" "b_sector b = sec" "\<not> dirty b" "b_data b = memdisk s (unat sec)"
      by (rule bread_miss [OF sec r None f])
    have src: "(valid (bufs s i) \<and> b_sector (bufs s i) = sec \<and> b_data b = b_data (bufs s i)
        \<and> dirty b = dirty (bufs s i)) \<or>
      ((\<not> valid (bufs s i) \<or> b_sector (bufs s i) \<noteq> sec) \<and> \<not> dirty (bufs s i) \<and> \<not> dirty b
        \<and> b_data b = memdisk s (unat sec))"
      using none [OF i(1)] bcache_invD(3) [OF inv i(1)] i(2) b(8,9) by (auto simp: buf_ok_def Let_def)
    have oth: "\<And>j. j < NBUF \<Longrightarrow> j \<noteq> i \<Longrightarrow> b_dev (bufs s j) = 1 \<Longrightarrow> b_sector (bufs s j) \<noteq> sec"
      using none by blast
    note acq = acquire_inv [OF inv i(1) nb b(2-7) sec oth src]
    have "Q i (s\<lparr>bufs := (bufs s)(i := b)\<rparr>)"
      by (rule post [OF i(1) nb b(4-7) acq(3) _ _ acq(1,2)]) (use i(2) b(8) in blast)+
    then show ?thesis using b(1) by (simp add: kwp_def)
  qed
qed

text \<open>Releasing a buffer whose changes, if any, have been logged or written.\<close>

lemma brelse_wp:
  assumes inv: "bcache_inv M s" and i: "i < NBUF" "busy (bufs s i)" "i \<notin> M"
    and post: "\<And>B. (\<And>j. b_dev (B j) = b_dev (bufs s j)) \<Longrightarrow> (\<And>j. b_sector (B j) = b_sector (bufs s j)) \<Longrightarrow>
      (\<And>j. b_data (B j) = b_data (bufs s j)) \<Longrightarrow> (\<And>j. valid (B j) = valid (bufs s j)) \<Longrightarrow>
      (\<And>j. dirty (B j) = dirty (bufs s j)) \<Longrightarrow> (\<And>j. busy (B j) \<longleftrightarrow> busy (bufs s j) \<and> j \<noteq> i) \<Longrightarrow>
      bcache_inv M (s\<lparr>bufs := B\<rparr>) \<Longrightarrow> bview (s\<lparr>bufs := B\<rparr>) = bview s \<Longrightarrow> Q () (s\<lparr>bufs := B\<rparr>)"
  shows "kwp (brelse i) Q s"
proof -
  define B0 where "B0 = move_to_head i (bufs s)"
  define B where "B = B0(i := (B0 i)\<lparr>b_flags := b_flags (B0 i) AND NOT B_BUSY\<rparr>)"
  let ?t = "s\<lparr>bufs := B\<rparr>"
  have fields: "b_dev (B j) = b_dev (bufs s j)" "b_sector (B j) = b_sector (bufs s j)"
    "b_data (B j) = b_data (bufs s j)" "valid (B j) = valid (bufs s j)"
    "dirty (B j) = dirty (bufs s j)" "busy (B j) \<longleftrightarrow> busy (bufs s j) \<and> j \<noteq> i" for j
    by (auto simp: B_def B0_def flag_simps)
  obtain xs where "ring (bufs s) xs" using bcache_invD(1) [OF inv] by auto
  then have "ring B0 (i # remove1 i xs)" unfolding B0_def using i(1) by (rule move_to_head_ring)
  then have "ring B (i # remove1 i xs)" by (rule ring_cong) (auto simp: B_def)
  moreover have "buf_ok M ?t j" if "j < NBUF" for j
    using bcache_invD(3) [OF inv that] by (simp add: buf_ok_def Let_def fields)
  moreover have "M \<subseteq> busy_set ?t"
    using bcache_invD(5) [OF inv] i(3) by (auto simp: busy_set_def fields)
  ultimately have inv': "bcache_inv M ?t"
    using bcache_invD(2,4) [OF inv] by (auto simp: bcache_inv_def fields)
  have "bview ?t = bview s"
    by (rule bview_eqI [OF inv inv']) (auto simp: fields)
  moreover have "brelse i s = Ok ((), ?t)"
    using i(2) by (simp add: brelse_def kdefs flag_simps B_def B0_def Let_def)
  ultimately show ?thesis using post [of B] fields inv' by (intro kwpI) auto
qed

text \<open>The holder of a buffer changes its bytes.\<close>

lemma set_bdata_wp:
  assumes inv: "bcache_inv M s" and i: "i < NBUF" "busy (bufs s i)" "valid (bufs s i)"
    and d: "length d = BSIZE"
    and post: "bcache_inv (insert i M) (s\<lparr>bufs := (bufs s)(i := (bufs s i)\<lparr>b_data := d\<rparr>)\<rparr>) \<Longrightarrow>
      bview (s\<lparr>bufs := (bufs s)(i := (bufs s i)\<lparr>b_data := d\<rparr>)\<rparr>) = (bview s)(unat (b_sector (bufs s i)) := d) \<Longrightarrow>
      Q () (s\<lparr>bufs := (bufs s)(i := (bufs s i)\<lparr>b_data := d\<rparr>)\<rparr>)"
  shows "kwp (set_bdata i d) Q s"
proof -
  let ?b = "(bufs s i)\<lparr>b_data := d\<rparr>"
  let ?t = "s\<lparr>bufs := (bufs s)(i := ?b)\<rparr>"
  have fl: "valid ?b = valid (bufs s i)" "dirty ?b = dirty (bufs s i)" "busy ?b = busy (bufs s i)"
    by (simp_all add: flag_simps)
  obtain xs where "ring (bufs s) xs" using bcache_invD(1) [OF inv] by auto
  then have "ring (bufs ?t) xs" by (rule ring_cong) auto
  moreover have "buf_ok (insert i M) ?t j" if "j < NBUF" for j
    using bcache_invD(3) [OF inv that] d by (cases "j = i") (auto simp: buf_ok_def Let_def fl)
  moreover have "insert i M \<subseteq> busy_set ?t"
    using bcache_invD(5) [OF inv] i by (auto simp: busy_set_def fl)
  ultimately have inv': "bcache_inv (insert i M) ?t"
    using bcache_invD(2,4) [OF inv] by (auto simp: bcache_inv_def)
  have "bview ?t n = ((bview s)(unat (b_sector (bufs s i)) := d)) n" for n
  proof (cases "n = unat (b_sector (bufs s i))")
    case True
    then show ?thesis using bview_cached [OF inv' i(1)] i fl by simp
  next
    case False
    then have "caches ?t n = caches s n" by (auto simp: caches_def fun_eq_iff fl)
    then have "bview ?t n = bview s n" using False by (intro bview_local) (auto simp: caches_def)
    then show ?thesis using False by simp
  qed
  then have "bview ?t = (bview s)(unat (b_sector (bufs s i)) := d)" by (rule ext)
  then show ?thesis using post inv' by (simp add: set_bdata_def)
qed

text \<open>Writing a held buffer through to the disk.\<close>

lemma bwrite_wp:
  assumes inv: "bcache_inv M s" and i: "i < NBUF" "busy (bufs s i)" "valid (bufs s i)"
    and post: "\<And>b t. b = (bufs s i)\<lparr>b_flags := (b_flags (bufs s i) OR B_DIRTY) AND NOT B_DIRTY OR B_VALID\<rparr> \<Longrightarrow>
      valid b \<Longrightarrow> busy b \<Longrightarrow> \<not> dirty b \<Longrightarrow>
      t = s\<lparr>memdisk := (memdisk s)(unat (b_sector (bufs s i)) := b_data (bufs s i)),
            dwrites := dwrites s @ [(unat (b_sector (bufs s i)), b_data (bufs s i))],
            bufs := (bufs s)(i := b)\<rparr> \<Longrightarrow>
      bcache_inv (M - {i}) t \<Longrightarrow> bview t = bview s \<Longrightarrow> Q () t"
  shows "kwp (bwrite i) Q s"
proof -
  let ?b = "(bufs s i)\<lparr>b_flags := (b_flags (bufs s i) OR B_DIRTY) AND NOT B_DIRTY OR B_VALID\<rparr>"
  let ?n = "unat (b_sector (bufs s i))"
  let ?t = "s\<lparr>memdisk := (memdisk s)(?n := b_data (bufs s i)),
            dwrites := dwrites s @ [(?n, b_data (bufs s i))], bufs := (bufs s)(i := ?b)\<rparr>"
  have oki: "b_dev (bufs s i) = 1" "?n < disksize s" "length (b_data (bufs s i)) = BSIZE"
    using bcache_invD(3) [OF inv i(1)] i(3) by (auto simp: buf_ok_def Let_def)
  have fl: "valid ?b" "\<not> dirty ?b" "busy ?b" using i(2) by (auto simp: flag_simps)
  obtain xs where "ring (bufs s) xs" using bcache_invD(1) [OF inv] by auto
  then have "ring (bufs ?t) xs" by (rule ring_cong) auto
  moreover have "buf_ok (M - {i}) ?t j" if "j < NBUF" for j
    using bcache_invD(3) [OF inv that] bcache_invD(4) [OF inv that i(1)] oki
    by (cases "j = i") (auto simp: buf_ok_def Let_def fl)
  moreover have "M - {i} \<subseteq> busy_set ?t"
    using bcache_invD(5) [OF inv] by (auto simp: busy_set_def)
  moreover have "length (memdisk ?t n) = BSIZE" if "n < disksize ?t" for n
    using bcache_invD(2) [OF inv] oki that by simp
  ultimately have inv': "bcache_inv (M - {i}) ?t"
    using bcache_invD(4) [OF inv] by (auto simp: bcache_inv_def)
  have "bview ?t n = bview s n" for n
  proof (cases "n = ?n")
    case True
    then show ?thesis
      using bview_cached [OF inv' i(1)] bview_cached [OF inv i(1,3)] fl by simp
  next
    case False
    then have "caches ?t n = caches s n" using fl i by (auto simp: caches_def fun_eq_iff)
    then show ?thesis using False by (intro bview_local) auto
  qed
  then have "bview ?t = bview s" by (rule ext)
  moreover have "bwrite i s = Ok ((), ?t)"
    using i oki by (simp add: bwrite_def iderw_def kdefs flag_simps Let_def B_DIRTY_neq_0)
  ultimately show ?thesis using post [of ?b ?t] fl inv' by (intro kwpI) auto
qed

section \<open>The interface to callers\<close>

text \<open>
  A caller sees blocks, not buffers. \<open>held s i sec\<close>: the caller has buffer
  \<open>i\<close>, which carries block \<open>sec\<close>. \<open>io H s\<close>: the cache is well formed, the
  blocks \<open>H\<close> are held, and no change is waiting to be logged or written.
\<close>

definition held :: "'z bio_scheme \<Rightarrow> nat \<Rightarrow> u32 \<Rightarrow> bool" where
  "held s i sec \<longleftrightarrow> i < NBUF \<and> busy (bufs s i) \<and> valid (bufs s i)
     \<and> b_dev (bufs s i) = 1 \<and> b_sector (bufs s i) = sec"

definition held_secs :: "'z bio_scheme \<Rightarrow> nat set" where
  "held_secs s = (\<lambda>i. unat (b_sector (bufs s i))) ` busy_set s"

definition io :: "nat set \<Rightarrow> 'z bio_scheme \<Rightarrow> bool" where
  "io H s \<longleftrightarrow> bcache_inv {} s \<and> (\<forall>i \<in> busy_set s. valid (bufs s i)) \<and> held_secs s = H"

lemma bio_cong:
  assumes "bufs t = bufs s"
  shows "dirty_secs t = dirty_secs s" "held t = held s"
    "memdisk t = memdisk s \<Longrightarrow> bview t = bview s"
    "memdisk t = memdisk s \<Longrightarrow> disksize t = disksize s \<Longrightarrow> io H t = io H s"
  using assms
  by (simp_all add: dirty_secs_def dirty_set_def held_def [abs_def] bview_def [abs_def] caches_def [abs_def]
      io_def bcache_inv_def buf_ok_def busy_set_def held_secs_def cong: option.case_cong)

lemma ioD:
  assumes "io H s"
  shows "bcache_inv {} s" "i < NBUF \<Longrightarrow> busy (bufs s i) \<Longrightarrow> valid (bufs s i)"
    "held_secs s = H" "finite H"
  using assms by (auto simp: io_def busy_set_def held_secs_def)

lemma held_data: "io H s \<Longrightarrow> held s i sec \<Longrightarrow> b_data (bufs s i) = bview s (unat sec)"
  using bview_cached [of "{}" s i] by (auto simp: io_def held_def)

lemma held_in: "io H s \<Longrightarrow> held s i sec \<Longrightarrow> unat sec \<in> H"
  by (auto simp: io_def held_def held_secs_def busy_set_def)

lemma io_valid_dev:
  assumes "io H s" "i < NBUF" "busy (bufs s i) \<or> dirty (bufs s i)"
  shows "valid (bufs s i)" "b_dev (bufs s i) = 1"
  using assms ioD(2) [OF assms(1,2)] bcache_invD(3) [OF ioD(1) [OF assms(1)] assms(2)]
  by (auto simp: buf_ok_def Let_def)

lemma io_card:
  assumes "io H s"
  shows "card (busy_set s \<union> dirty_set s) = card (H \<union> dirty_secs s)"
proof -
  have "inj_on (\<lambda>i. unat (b_sector (bufs s i))) (busy_set s \<union> dirty_set s)"
    using io_valid_dev(2) [OF assms] bcache_invD(4) [OF ioD(1) [OF assms]]
    by (intro inj_onI) (auto simp: busy_set_def dirty_set_def)
  moreover have "(\<lambda>i. unat (b_sector (bufs s i))) ` (busy_set s \<union> dirty_set s) = H \<union> dirty_secs s"
    using ioD(3) [OF assms] by (auto simp: held_secs_def dirty_secs_def)
  ultimately show ?thesis by (metis card_image)
qed

lemma io_view_length: "io H s \<Longrightarrow> n < disksize s \<Longrightarrow> length (bview s n) = BSIZE"
proof -
  assume a: "io H s" "n < disksize s"
  note inv = ioD(1) [OF a(1)]
  show ?thesis
  proof (cases "List.find (caches s n) [0..<NBUF]")
    case None
    then show ?thesis using bcache_invD(2) [OF inv a(2)] by (simp add: bview_def)
  next
    case (Some j)
    then have "j < NBUF" "caches s n j" by (auto simp: find_Some_iff)
    then show ?thesis
      using Some bcache_invD(3) [OF inv, of j] by (simp add: bview_def caches_def buf_ok_def Let_def)
  qed
qed

lemma io_view_clean: "io H s \<Longrightarrow> x \<notin> dirty_secs s \<Longrightarrow> bview s x = memdisk s x"
proof -
  assume a: "io H s" "x \<notin> dirty_secs s"
  show ?thesis
  proof (cases "List.find (caches s x) [0..<NBUF]")
    case (Some j)
    then have j: "j < NBUF" "caches s x j" by (auto simp: find_Some_iff)
    then have "\<not> dirty (bufs s j)" using a(2) by (auto simp: dirty_secs_def dirty_set_def caches_def)
    then show ?thesis
      using Some j bcache_invD(3) [OF ioD(1) [OF a(1)], of j] by (simp add: bview_def caches_def buf_ok_def Let_def)
  qed (simp add: bview_def)
qed

lemma io_same_sector:
  assumes "io H s" "i < NBUF" "j < NBUF" "b_dev (bufs s i) = 1" "b_dev (bufs s j) = 1"
    "b_sector (bufs s i) = b_sector (bufs s j)"
  shows "i = j"
  using bcache_invD(4) [OF ioD(1) [OF assms(1)]] assms by blast

lemma io_bread:
  assumes io: "io H s" and sec: "unat sec < disksize s" "unat sec \<notin> H"
    and room: "unat sec \<in> dirty_secs s \<or> card (H \<union> dirty_secs s) < NBUF"
    and post: "\<And>i B. io (insert (unat sec) H) (s\<lparr>bufs := B\<rparr>) \<Longrightarrow> held (s\<lparr>bufs := B\<rparr>) i sec \<Longrightarrow>
      bview (s\<lparr>bufs := B\<rparr>) = bview s \<Longrightarrow> dirty_secs (s\<lparr>bufs := B\<rparr>) = dirty_secs s \<Longrightarrow>
      (\<And>j x. held s j x \<Longrightarrow> held (s\<lparr>bufs := B\<rparr>) j x) \<Longrightarrow> Q i (s\<lparr>bufs := B\<rparr>)"
  shows "kwp (bread 1 sec) Q s"
proof (rule bread_wp [OF ioD(1) [OF io]])
  have "\<exists>i < NBUF. b_dev (bufs s i) = 1 \<and> b_sector (bufs s i) = sec" if d: "unat sec \<in> dirty_secs s"
  proof -
    from d obtain j where "j < NBUF" "dirty (bufs s j)" "unat (b_sector (bufs s j)) = unat sec"
      by (auto simp: dirty_secs_def dirty_set_def)
    then show ?thesis using io_valid_dev(2) [OF io, of j] by auto
  qed
  then show "can_get s sec"
    using sec room ioD(3) [OF io] io_card [OF io] by (auto simp: can_get_def held_secs_def)
next
  fix i b
  let ?B = "(bufs s)(i := b)"
  let ?t = "s\<lparr>bufs := ?B\<rparr>"
  assume i: "i < NBUF" "\<not> busy (bufs s i)" and b: "busy b" "valid b" "b_dev b = 1" "b_sector b = sec"
    "b_data b = bview s (unat sec)" and d: "dirty b = dirty (bufs s i)" "dirty b \<Longrightarrow> b_sector (bufs s i) = sec"
    and inv: "bcache_inv {} ?t" and view: "bview ?t = bview s"
  have bs: "busy_set ?t = insert i (busy_set s)" "i \<notin> busy_set s"
    using i b(1) by (auto simp: busy_set_def)
  have "(\<lambda>j. unat (b_sector (bufs ?t j))) ` busy_set s = held_secs s"
    unfolding held_secs_def using bs(2) by (intro image_cong) auto
  then have "held_secs ?t = insert (unat sec) H"
    using b(4) ioD(3) [OF io] by (simp add: held_secs_def bs(1))
  then have io': "io (insert (unat sec) H) ?t"
    using inv ioD(2) [OF io] b(2) by (simp add: io_def busy_set_def)
  have dset: "dirty_set ?t = dirty_set s" using d(1) i by (auto simp: dirty_set_def)
  have "b_sector (bufs ?t j) = b_sector (bufs s j)" if "j \<in> dirty_set s" for j
  proof (cases "j = i")
    case True
    then have "dirty b" using that d(1) by (simp add: dirty_set_def)
    then show ?thesis using d(2) b(4) True by simp
  qed simp
  then have ds: "dirty_secs ?t = dirty_secs s"
    unfolding dirty_secs_def dset by (intro image_cong) simp_all
  have "held ?t i sec" using i b(1-4) by (simp add: held_def)
  moreover have "held ?t j x" if "held s j x" for j x
    using that i by (auto simp: held_def)
  ultimately show "Q i ?t" by (rule post [OF io' _ view ds])
qed

lemma io_brelse:
  assumes io: "io H s" and h: "held s i sec"
    and post: "\<And>B. io (H - {unat sec}) (s\<lparr>bufs := B\<rparr>) \<Longrightarrow> bview (s\<lparr>bufs := B\<rparr>) = bview s \<Longrightarrow>
      dirty_secs (s\<lparr>bufs := B\<rparr>) = dirty_secs s \<Longrightarrow>
      (\<And>j x. held s j x \<Longrightarrow> x \<noteq> sec \<Longrightarrow> held (s\<lparr>bufs := B\<rparr>) j x) \<Longrightarrow> Q () (s\<lparr>bufs := B\<rparr>)"
  shows "kwp (brelse i) Q s"
proof (rule brelse_wp [OF ioD(1) [OF io]])
  show "i < NBUF" "busy (bufs s i)" "i \<notin> {}" using h by (auto simp: held_def)
next
  fix B
  let ?t = "s\<lparr>bufs := B\<rparr>"
  assume f: "\<And>j. b_dev (B j) = b_dev (bufs s j)" "\<And>j. b_sector (B j) = b_sector (bufs s j)"
    "\<And>j. valid (B j) = valid (bufs s j)" "\<And>j. dirty (B j) = dirty (bufs s j)"
    "\<And>j. busy (B j) \<longleftrightarrow> busy (bufs s j) \<and> j \<noteq> i"
    and inv: "bcache_inv {} ?t" and view: "bview ?t = bview s"
  have uniq: "j = i" if "j < NBUF" "busy (bufs s j)" "b_sector (bufs s j) = sec" for j
    using that h io_valid_dev(2) [OF io that(1)] by (intro io_same_sector [OF io]) (auto simp: held_def)
  have "held_secs ?t = H - {unat sec}"
    using ioD(3) [OF io] h uniq by (auto simp: held_secs_def busy_set_def f held_def)
  then have "io (H - {unat sec}) ?t"
    using inv ioD(2) [OF io] by (auto simp: io_def busy_set_def f)
  moreover have "dirty_secs ?t = dirty_secs s" by (simp add: dirty_secs_def dirty_set_def f)
  moreover have "held ?t j x" if "held s j x" "x \<noteq> sec" for j x
    using that h by (auto simp: held_def f)
  ultimately show "Q () ?t" using view by (intro post)
qed

text \<open>The holder changes the block and writes it through.\<close>

lemma io_bwrite:
  assumes io: "io H s" and h: "held s i sec" and d: "length d = BSIZE"
    and post: "\<And>B t. t = s\<lparr>memdisk := (memdisk s)(unat sec := d), dwrites := dwrites s @ [(unat sec, d)],
        bufs := B\<rparr> \<Longrightarrow> io H t \<Longrightarrow> bview t = (bview s)(unat sec := d) \<Longrightarrow>
      dirty_secs t = dirty_secs s - {unat sec} \<Longrightarrow> (\<And>j x. held s j x \<Longrightarrow> held t j x) \<Longrightarrow> Q t"
  shows "kwp (set_bdata i d) (\<lambda>_. kwp (bwrite i) (\<lambda>_. Q)) s"
proof (rule set_bdata_wp [OF ioD(1) [OF io] _ _ _ d])
  show i: "i < NBUF" "busy (bufs s i)" "valid (bufs s i)" using h by (auto simp: held_def)
  let ?s1 = "s\<lparr>bufs := (bufs s)(i := (bufs s i)\<lparr>b_data := d\<rparr>)\<rparr>"
  assume inv1: "bcache_inv {i} ?s1" and v1: "bview ?s1 = (bview s)(unat (b_sector (bufs s i)) := d)"
  have sec: "b_sector (bufs s i) = sec" "b_dev (bufs s i) = 1" using h by (auto simp: held_def)
  show "kwp (bwrite i) (\<lambda>_. Q) ?s1"
  proof (rule bwrite_wp [OF inv1 i(1)])
    show "busy (bufs ?s1 i)" "valid (bufs ?s1 i)" using i by (simp_all add: flag_simps)
  next
    fix b t
    assume b: "b = (bufs ?s1 i)\<lparr>b_flags := (b_flags (bufs ?s1 i) OR B_DIRTY) AND NOT B_DIRTY OR B_VALID\<rparr>"
      and fl: "valid b" "busy b" "\<not> dirty b"
      and t: "t = ?s1\<lparr>memdisk := (memdisk ?s1)(unat (b_sector (bufs ?s1 i)) := b_data (bufs ?s1 i)),
            dwrites := dwrites ?s1 @ [(unat (b_sector (bufs ?s1 i)), b_data (bufs ?s1 i))],
            bufs := (bufs ?s1)(i := b)\<rparr>"
      and inv: "bcache_inv ({i} - {i}) t" and view: "bview t = bview ?s1"
    have B: "bufs t = (bufs s)(i := b)" using t by simp
    have bs: "b_sector b = sec" "b_dev b = 1" using b sec by simp_all
    have bt: "bufs t j = bufs s j \<or> j = i" for j using B by simp
    have busyt: "busy_set t = busy_set s" using fl(2) i(2) by (auto simp: busy_set_def B)
    moreover have "held_secs t = held_secs s"
      unfolding held_secs_def busyt by (intro image_cong) (auto simp: B bs sec)
    ultimately have "io H t"
      using inv ioD [OF io] fl by (auto simp: io_def busy_set_def B)
    moreover have "dirty_set t = dirty_set s - {i}" using fl(3) by (auto simp: dirty_set_def B)
    then have "dirty_secs t = (\<lambda>j. unat (b_sector (bufs s j))) ` (dirty_set s - {i})"
      unfolding dirty_secs_def by (intro image_cong) (auto simp: B)
    moreover have "j = i" if "j \<in> dirty_set s" "b_sector (bufs s j) = sec" for j
      using that io_same_sector [OF io, of j i] io_valid_dev(2) [OF io, of j] i(1) sec
      by (simp add: dirty_set_def)
    then have "(\<lambda>j. unat (b_sector (bufs s j))) ` (dirty_set s - {i}) = dirty_secs s - {unat sec}"
      using sec by (auto simp: dirty_secs_def)
    moreover have "held t j x" if "held s j x" for j x
      using that fl bs sec by (auto simp: held_def B)
    ultimately show "Q t"
      using view v1 sec t by (intro post [of t "bufs t"]) simp_all
  qed
qed

text \<open>The holder changes the block and pins it in the cache.\<close>

lemma io_put:
  assumes io: "io H s" and h: "held s i sec" and d: "length d = BSIZE"
    and post: "\<And>B. io H (s\<lparr>bufs := B\<rparr>) \<Longrightarrow> bview (s\<lparr>bufs := B\<rparr>) = (bview s)(unat sec := d) \<Longrightarrow>
      dirty_secs (s\<lparr>bufs := B\<rparr>) = insert (unat sec) (dirty_secs s) \<Longrightarrow>
      (\<And>j x. held s j x \<Longrightarrow> held (s\<lparr>bufs := B\<rparr>) j x) \<Longrightarrow> Q (s\<lparr>bufs := B\<rparr>)"
  shows "kwp (set_bdata i d) (\<lambda>_. kwp (mark_dirty i) (\<lambda>_. Q)) s"
proof (rule set_bdata_wp [OF ioD(1) [OF io] _ _ _ d])
  show i: "i < NBUF" "busy (bufs s i)" "valid (bufs s i)" using h by (auto simp: held_def)
  let ?s1 = "s\<lparr>bufs := (bufs s)(i := (bufs s i)\<lparr>b_data := d\<rparr>)\<rparr>"
  assume inv1: "bcache_inv {i} ?s1" and v1: "bview ?s1 = (bview s)(unat (b_sector (bufs s i)) := d)"
  have sec: "b_sector (bufs s i) = sec" "b_dev (bufs s i) = 1" using h by (auto simp: held_def)
  define b where "b = (bufs s i)\<lparr>b_data := d, b_flags := b_flags (bufs s i) OR B_DIRTY\<rparr>"
  have bf: "b_sector b = sec" "b_dev b = 1" "b_data b = d" "busy b" "valid b" "dirty b"
    "b_next b = b_next (bufs s i)" "b_prev b = b_prev (bufs s i)"
    using sec i by (simp_all add: b_def flag_simps)
  let ?t = "s\<lparr>bufs := (bufs s)(i := b)\<rparr>"
  have e: "?s1\<lparr>bufs := (bufs ?s1)(i := (bufs ?s1 i)\<lparr>b_flags := b_flags (bufs ?s1 i) OR B_DIRTY\<rparr>)\<rparr> = ?t"
    by (simp add: b_def)
  obtain xs where "ring (bufs s) xs" using bcache_invD(1) [OF ioD(1) [OF io]] by auto
  then have r: "ring (bufs ?t) xs" by (rule ring_cong) (auto simp: bf)
  have "buf_ok {} ?t j" if "j < NBUF" for j
    using bcache_invD(3) [OF inv1 that] bf d
      bcache_invD(3) [OF ioD(1) [OF io] that] sec i by (cases "j = i") (auto simp: buf_ok_def Let_def)
  moreover have secs: "b_sector (bufs ?t j) = b_sector (bufs s j)" "b_dev (bufs ?t j) = b_dev (bufs s j)" for j
    using bf sec by simp_all
  ultimately have inv: "bcache_inv {} ?t"
    unfolding bcache_inv_def secs using r ioD(1) [OF io] by (auto simp: bcache_inv_def)
  have "caches ?t = caches ?s1"
    using bf sec i by (auto simp: caches_def fun_eq_iff flag_simps)
  then have view: "bview ?t = bview ?s1"
    using bf by (intro ext bview_local) (auto simp: caches_def)
  have bs: "busy_set ?t = busy_set s" using bf i by (auto simp: busy_set_def)
  have "held_secs ?t = held_secs s" unfolding held_secs_def bs secs ..
  then have io': "io H ?t"
    using inv ioD(2,3) [OF io] bf by (simp add: io_def busy_set_def)
  have "dirty_set ?t = insert i (dirty_set s)" using bf i by (auto simp: dirty_set_def)
  then have ds: "dirty_secs ?t = insert (unat sec) (dirty_secs s)"
    unfolding dirty_secs_def secs by (simp add: sec)
  have "held ?t j x" if "held s j x" for j x
    using that bf sec by (auto simp: held_def)
  then have "Q ?t" using post [OF io' _ ds] view v1 sec by simp
  then show "kwp (mark_dirty i) (\<lambda>_. Q) ?s1" using e by (simp add: mark_dirty_def)
qed

text \<open>
  \<open>wrote W s t\<close>: between \<open>s\<close> and \<open>t\<close> exactly the sector writes \<open>W\<close> were
  performed, in that order, and no buffer is held.
\<close>

definition dapply :: "(nat \<times> u8 list) list \<Rightarrow> (nat \<Rightarrow> u8 list) \<Rightarrow> nat \<Rightarrow> u8 list" where
  "dapply W f = fold (\<lambda>(n, d) f. f(n := d)) W f"

definition wrote :: "(nat \<times> u8 list) list \<Rightarrow> 'z bio_scheme \<Rightarrow> 'z bio_scheme \<Rightarrow> bool" where
  "wrote W s t \<longleftrightarrow> io {} t \<and> bview t = dapply W (bview s) \<and>
     (\<exists>B. t = s\<lparr>memdisk := dapply W (memdisk s), dwrites := dwrites s @ W, bufs := B\<rparr>)"

lemma dapply_simps [simp]:
  "dapply [] f = f" "dapply ((n, d) # W) f = dapply W (f(n := d))"
  "dapply (V @ W) f = dapply W (dapply V f)"
  by (simp_all add: dapply_def)

lemma dapply_notin: "n \<notin> fst ` set W \<Longrightarrow> dapply W f n = f n"
  by (induction W arbitrary: f) (auto simp: dapply_def)

lemma dapply_in: "distinct (map fst W) \<Longrightarrow> (n, d) \<in> set W \<Longrightarrow> dapply W f n = d"
proof (induction W arbitrary: f)
  case (Cons x W)
  then show ?case using dapply_notin [of n W] by (cases x) force
qed simp

lemma dapply_indep: "x \<in> fst ` set W \<Longrightarrow> dapply W f x = dapply W g x"
proof (induction W arbitrary: f g)
  case (Cons a W)
  show ?case
  proof (cases "x \<in> fst ` set W")
    case True
    then show ?thesis using Cons.IH by (cases a) simp
  next
    case False
    then show ?thesis using Cons.prems by (cases a) (simp add: dapply_notin)
  qed
qed simp

lemma dapply_take: "dapply W (dapply (take k W) f) = dapply W f"
proof
  fix x
  show "dapply W (dapply (take k W) f) x = dapply W f x"
  proof (cases "x \<in> fst ` set W")
    case False
    then have "x \<notin> fst ` set (take k W)" using set_take_subset [of k W] by blast
    then show ?thesis using False by (simp add: dapply_notin)
  qed (rule dapply_indep)
qed

lemma dapply_take_notin: "x \<notin> fst ` set W \<Longrightarrow> dapply (take k W) f x = f x"
  by (rule dapply_notin) (auto dest: in_set_takeD)

lemma dapply_map: "inj_on g (set xs) \<Longrightarrow> x \<in> set xs \<Longrightarrow> distinct xs \<Longrightarrow>
    dapply (map (\<lambda>i. (g i, h i)) xs) f (g x) = h x"
  by (rule dapply_in) (auto simp: distinct_map comp_def)

lemma wrote_refl: "io {} s \<Longrightarrow> wrote [] s s"
  by (auto simp: wrote_def intro: exI [of _ "bufs s"])

lemma wrote_trans: "wrote V s t \<Longrightarrow> wrote W t u \<Longrightarrow> wrote (V @ W) s u"
  by (auto simp: wrote_def)

lemma wroteD:
  assumes "wrote W s t"
  shows "io {} t" "bview t = dapply W (bview s)" "memdisk t = dapply W (memdisk s)"
    "dwrites t = dwrites s @ W" "disksize t = disksize s"
  using assms by (auto simp: wrote_def)

text \<open>Two blocks are read, one is copied over the other and written through, both are released.\<close>

lemma io_bread2:
  assumes io: "io {} s" and a: "unat a < disksize s" and b: "unat b < disksize s" and ab: "a \<noteq> b"
    and room: "card (dirty_secs s) < NBUF"
      "unat b \<in> dirty_secs s \<or> card (insert (unat a) (dirty_secs s)) < NBUF"
    and Q: "\<And>i j B. io {unat a, unat b} (s\<lparr>bufs := B\<rparr>) \<Longrightarrow> held (s\<lparr>bufs := B\<rparr>) i a \<Longrightarrow>
      held (s\<lparr>bufs := B\<rparr>) j b \<Longrightarrow> bview (s\<lparr>bufs := B\<rparr>) = bview s \<Longrightarrow>
      dirty_secs (s\<lparr>bufs := B\<rparr>) = dirty_secs s \<Longrightarrow> Q i j (s\<lparr>bufs := B\<rparr>)"
    and R: "\<And>i B. kwp (bread 1 b) (Q i) (s\<lparr>bufs := B\<rparr>) \<Longrightarrow> R i (s\<lparr>bufs := B\<rparr>)"
  shows "kwp (bread 1 a) R s"
proof (rule io_bread [OF io a])
  show "unat a \<notin> {}" "unat a \<in> dirty_secs s \<or> card ({} \<union> dirty_secs s) < NBUF" using room by auto
  fix i B
  let ?s1 = "s\<lparr>bufs := B\<rparr>"
  assume 1: "io {unat a} ?s1" "held ?s1 i a" "bview ?s1 = bview s" "dirty_secs ?s1 = dirty_secs s"
  show "R i ?s1"
  proof (rule R, rule io_bread [OF 1(1)])
    show "unat b < disksize ?s1" "unat b \<notin> {unat a}" using b ab by auto
    show "unat b \<in> dirty_secs ?s1 \<or> card ({unat a} \<union> dirty_secs ?s1) < NBUF" using room 1(4) by auto
    fix j B'
    let ?s2 = "?s1\<lparr>bufs := B'\<rparr>"
    assume 2: "io (insert (unat b) {unat a}) ?s2" "held ?s2 j b" "bview ?s2 = bview ?s1"
      "dirty_secs ?s2 = dirty_secs ?s1" "\<And>j x. held ?s1 j x \<Longrightarrow> held ?s2 j x"
    show "Q i j ?s2"
      using Q [of B' i j] 2(1-4) 2(5) [OF 1(2)] 1(3,4) by (simp add: insert_commute)
  qed
qed

lemma copy_held:
  assumes io: "io {unat a, unat b} s" and h: "held s i a" "held s j b" and ab: "a \<noteq> b"
    and b: "unat b < disksize s"
    and Q: "\<And>t. wrote [(unat a, bview s (unat b))] s t \<Longrightarrow> dirty_secs t = dirty_secs s - {unat a} \<Longrightarrow> Q t"
  shows "kwp (bdata j) (\<lambda>d. kwp (set_bdata i d) (\<lambda>_. kwp (bwrite i) (\<lambda>_. kwp (brelse j) (\<lambda>_.
     kwp (brelse i) (\<lambda>_. Q))))) s"
proof -
  let ?d = "bview s (unat b)"
  have d: "b_data (bufs s j) = ?d" using held_data [OF io h(2)] .
  have len: "length ?d = BSIZE" using io_view_length [OF io b] .
  have "kwp (set_bdata i ?d) (\<lambda>_. kwp (bwrite i) (\<lambda>_. kwp (brelse j) (\<lambda>_. kwp (brelse i) (\<lambda>_. Q)))) s"
  proof (rule io_bwrite [OF io h(1) len])
    fix B3 t
    assume 3: "t = s\<lparr>memdisk := (memdisk s)(unat a := ?d), dwrites := dwrites s @ [(unat a, ?d)],
        bufs := B3\<rparr>" "io {unat a, unat b} t" "bview t = (bview s)(unat a := ?d)"
      "dirty_secs t = dirty_secs s - {unat a}" "\<And>j x. held s j x \<Longrightarrow> held t j x"
    show "kwp (brelse j) (\<lambda>_. kwp (brelse i) (\<lambda>_. Q)) t"
    proof (rule io_brelse [OF 3(2) 3(5) [OF h(2)]])
      fix B4
      let ?u = "t\<lparr>bufs := B4\<rparr>"
      assume 4: "io ({unat a, unat b} - {unat b}) ?u" "bview ?u = bview t"
        "dirty_secs ?u = dirty_secs t" "\<And>j x. held t j x \<Longrightarrow> x \<noteq> b \<Longrightarrow> held ?u j x"
      show "kwp (brelse i) (\<lambda>_. Q) ?u"
      proof (rule io_brelse [OF 4(1) 4(4) [OF 3(5) [OF h(1)] ab]])
        fix B5
        let ?v = "?u\<lparr>bufs := B5\<rparr>"
        assume 5: "io ({unat a, unat b} - {unat b} - {unat a}) ?v" "bview ?v = bview ?u"
          "dirty_secs ?v = dirty_secs ?u"
        have e: "{unat a, unat b} - {unat b} - {unat a} = {}" by auto
        have "wrote [(unat a, ?d)] s ?v"
          using 5(1) [unfolded e] 5(2) 4(2) 3(3) by (auto simp: wrote_def 3(1))
        then show "Q ?v" using Q 5(3) 4(3) 3(4) by simp
      qed
    qed
  qed
  then show ?thesis using d by (simp add: bdata_def)
qed

text \<open>
  After \<open>binit\<close>, with the buffers zeroed as the loader leaves them, the cache
  is empty and every block reads as the disk has it.
\<close>

lemma binit_step_fields:
  "b_flags (binit_step j B i) = b_flags (B i)"
  "b_dev (binit_step j B i) = (if i = j then - 1 else b_dev (B i))"
  by (auto simp: binit_step_def Let_def set_next_def set_prev_def)

lemma binit_keeps: "b_flags (fold binit_step is B i) = b_flags (B i)"
  by (induction "is" arbitrary: B) (auto simp: binit_step_fields)

lemma binit_dev: "i \<in> set is \<or> b_dev (B i) = - 1 \<Longrightarrow> b_dev (fold binit_step is B i) = - 1"
  by (induction "is" arbitrary: B) (auto simp: binit_step_fields)

lemma binit_io:
  assumes z: "\<forall>i. b_flags (bufs s i) = 0" and len: "\<forall>n < disksize s. length (memdisk s n) = BSIZE"
    and post: "\<And>B. io {} (s\<lparr>bufs := B\<rparr>) \<Longrightarrow> dirty_secs (s\<lparr>bufs := B\<rparr>) = {} \<Longrightarrow>
      bview (s\<lparr>bufs := B\<rparr>) = memdisk s \<Longrightarrow> Q () (s\<lparr>bufs := B\<rparr>)"
  shows "kwp binit Q s"
proof -
  define B where "B = fold binit_step [0..<NBUF] (set_next head head (set_prev head head (bufs s)))"
  let ?t = "s\<lparr>bufs := B\<rparr>"
  have fl: "b_flags (B i) = 0" for i using z by (simp add: B_def binit_keeps)
  then have nf: "\<not> busy (B i)" "\<not> valid (B i)" "\<not> dirty (B i)" for i by (simp_all add: flag_simps)
  have "b_dev (B i) = - 1" if "i < NBUF" for i using that by (simp add: B_def binit_dev)
  then have "bcache_inv {} ?t"
    using binit_ring [of "bufs s"] len nf by (auto simp: bcache_inv_def buf_ok_def Let_def B_def [symmetric])
  then have "io {} ?t" by (simp add: io_def held_secs_def busy_set_def nf)
  moreover have "dirty_secs ?t = {}" by (simp add: dirty_secs_def dirty_set_def nf)
  moreover have "bview ?t n = memdisk s n" for n
    using bview_uncached [of ?t n] nf by simp
  then have "bview ?t = memdisk s" by (rule ext)
  ultimately show ?thesis using post [of B] by (simp add: binit_def B_def)
qed

text \<open>The routines of this layer change the disk and the buffers only.\<close>

lemma kpres_bget [kpres_intros]: "(\<And>s B. f (s\<lparr>bufs := B\<rparr>) = f s) \<Longrightarrow> kpres f (bget dev sec)"
  by (auto simp: kpres_def bget_def Let_def split: scan.splits if_splits)

lemma kpres_iderw [kpres_intros]:
  assumes "\<And>s B. f (s\<lparr>bufs := B\<rparr>) = f s" "\<And>s B D W. f (s\<lparr>memdisk := D, dwrites := W, bufs := B\<rparr>) = f s"
  shows "kpres f (iderw i)"
  by (auto simp: kpres_def iderw_def Let_def split: if_splits intro: assms)

lemma kpres_bio [kpres_intros]:
  assumes b: "\<And>s B. f (s\<lparr>bufs := B\<rparr>) = f s" and d: "\<And>s B D W. f (s\<lparr>memdisk := D, dwrites := W, bufs := B\<rparr>) = f s"
  shows "kpres f (bread dev sec)" "kpres f (bwrite i)" "kpres f (brelse i)" "kpres f (bdata i)"
    "kpres f (set_bdata i e)" "kpres f (mark_dirty i)"
  unfolding bread_def bwrite_def brelse_def bdata_def set_bdata_def mark_dirty_def Let_def
  by (intro kpres_intros b d)+

section \<open>Properties\<close>

text \<open>A cache just initialised over a disk of zeroes, on which the properties are tried.\<close>

definition zero_bio :: bio where
  "zero_bio = \<lparr>kmem_freelist = 0, kmem_mem = (\<lambda>_. 0), memdisk = (\<lambda>_. replicate BSIZE 0), disksize = 64, dwrites = [],
     bufs = (\<lambda>_. \<lparr>b_flags = 0, b_dev = 0, b_sector = 0, b_prev = 0, b_next = 0, b_data = []\<rparr>)\<rparr>"

definition boot_bio :: bio where
  "boot_bio = zero_bio\<lparr>bufs :=
     fold binit_step [0..<NBUF] (set_next head head (set_prev head head (bufs zero_bio)))\<rparr>"

lemma boot_bio_simps [simp]:
  "memdisk boot_bio n = replicate 512 0" "disksize boot_bio = 64" "dwrites boot_bio = []"
  by (simp_all add: boot_bio_def zero_bio_def BSIZE_def)

lemma boot_bio_io: "io {} boot_bio" "dirty_secs boot_bio = {}" "bview boot_bio = memdisk boot_bio"
proof -
  have "kwp binit (\<lambda>_ t. io {} t \<and> dirty_secs t = {} \<and> bview t = memdisk t) zero_bio"
    by (rule binit_io) (simp_all add: zero_bio_def)
  then show "io {} boot_bio" "dirty_secs boot_bio = {}" "bview boot_bio = memdisk boot_bio"
    by (simp_all add: binit_def boot_bio_def)
qed

text \<open>
  C27: In a well-formed cache, with the block neither held nor impossible to
  find room for, \<open>bread\<close> returns a buffer that is locked for the caller and
  holds the block's logical contents; no block's contents change, and the
  cache stays well formed with exactly that block added to the held ones.
\<close>

theorem bread_correct:
  assumes "io H s" "unat sec < disksize s" "unat sec \<notin> H" "card (H \<union> dirty_secs s) < NBUF"
  shows "\<exists>i t. bread 1 sec s = Ok (i, t) \<and> held t i sec \<and> b_data (bufs t i) = bview s (unat sec)
    \<and> io (insert (unat sec) H) t \<and> bview t = bview s \<and> memdisk t = memdisk s"
proof -
  have "kwp (bread 1 sec) (\<lambda>i t. held t i sec \<and> b_data (bufs t i) = bview s (unat sec)
    \<and> io (insert (unat sec) H) t \<and> bview t = bview s \<and> memdisk t = memdisk s) s"
    by (rule io_bread [OF assms(1-3)]) (use assms(4) held_data in fastforce)+
  then show ?thesis by (auto simp: kwp_Ok)
qed

theorem bread_correct_witness:
  "\<exists>i t. bread 1 7 boot_bio = Ok (i, t) \<and> held t i 7 \<and> b_data (bufs t i) = replicate 512 0"
  using bread_correct [OF boot_bio_io(1), of 7]
  by (auto simp: boot_bio_io(2,3) NBUF_def)

text \<open>
  C28: The eviction policy, on every branch. If the ring lists the buffers
  as \<open>xs\<close>, most recently used first, \<open>bget\<close> waits for a cached block that
  is busy, locks one that is not, otherwise recycles the least recently
  used buffer that is neither busy nor dirty, and panics only when there is
  none; \<open>brelse\<close> moves the buffer to the front of the order.
\<close>

theorem bget_brelse_lru:
  assumes "ring (bufs s) xs" and "i < NBUF"
  shows "bget dev sec s =
      (case List.find (\<lambda>j. b_dev (bufs s j) = dev \<and> b_sector (bufs s j) = sec) xs of
         Some j \<Rightarrow> if busy (bufs s j) then Sleep ''bget''
           else Ok (j, s\<lparr>bufs := (bufs s)(j := (bufs s j)\<lparr>b_flags := b_flags (bufs s j) OR B_BUSY\<rparr>)\<rparr>)
       | None \<Rightarrow> let idle = filter (\<lambda>j. \<not> busy (bufs s j) \<and> \<not> dirty (bufs s j)) xs in
           if idle = [] then Panic ''bget: no buffers''
           else Ok (last idle, s\<lparr>bufs := (bufs s)(last idle := (bufs s (last idle))
                    \<lparr>b_dev := dev, b_sector := sec, b_flags := B_BUSY\<rparr>)\<rparr>))
    \<and> (if busy (bufs s i) then \<exists>t. brelse i s = Ok ((), t) \<and> ring (bufs t) (i # remove1 i xs)
       else brelse i s = Panic ''brelse'')"
proof (rule conjI)
  have "ring (bufs t) (i # remove1 i xs)" if "brelse i s = Ok ((), t)" for t
  proof -
    have "ring (move_to_head i (bufs s)) (i # remove1 i xs)" by (rule move_to_head_ring [OF assms])
    then show ?thesis
      by (rule ring_cong) (use that in \<open>auto simp: brelse_def kdefs Let_def split: if_splits\<close>)
  qed
  then show "if busy (bufs s i) then \<exists>t. brelse i s = Ok ((), t) \<and> ring (bufs t) (i # remove1 i xs)
      else brelse i s = Panic ''brelse''"
    by (auto simp: brelse_def kdefs flag_simps Let_def)
qed (simp add: bget_def scan_ring [OF assms(1)] find_rev_last Let_def flag_simps split: option.split)

theorem bget_brelse_lru_witness:
  "bget 1 7 boot_bio = Ok (0, boot_bio\<lparr>bufs := (bufs boot_bio)(0 := (bufs boot_bio 0)
     \<lparr>b_dev := 1, b_sector := 7, b_flags := B_BUSY\<rparr>)\<rparr>) \<and> brelse 3 boot_bio = Panic ''brelse''"
proof -
  let ?xs = "rev [0..<NBUF]"
  have r: "ring (bufs boot_bio) ?xs"
    using binit_ring [of "bufs zero_bio"] by (simp add: boot_bio_def)
  have nf: "\<not> busy (bufs boot_bio j)" "\<not> dirty (bufs boot_bio j)" for j
    by (simp_all add: boot_bio_def binit_keeps flag_simps zero_bio_def)
  have "List.find (\<lambda>j. b_dev (bufs boot_bio j) = 1 \<and> b_sector (bufs boot_bio j) = 7) ?xs = None"
    by (auto simp: find_None_iff boot_bio_def binit_dev)
  moreover have "last ?xs = 0" "?xs \<noteq> []" by (simp_all add: NBUF_def last_rev)
  moreover have "(3 :: nat) < NBUF" by (simp add: NBUF_def)
  ultimately show ?thesis
    using bget_brelse_lru [OF r, where i = 3 and dev = 1 and sec = 7] nf by (simp add: Let_def)
qed

end
