(* ===== verification/Log.thy ===== *)
theory Log
  imports Bio
begin

text \<open>
  The write-ahead log (\<open>log.c\<close>) and the super block it is found by
  (\<open>readsb\<close> of \<open>fs.c\<close>). A transaction collects the blocks changed through
  \<open>log_write\<close>; \<open>commit\<close> copies them to the log area, writes the header, which
  is the commit point, installs them at their home sectors and clears the
  header. Shown here: whatever prefix of the sector writes of a commit reaches
  the disk, recovery leaves either every home sector as it was before the
  transaction or every one as the transaction left it.

  \<open>log.lock\<close> makes the bookkeeping of \<open>begin_op\<close>, \<open>end_op\<close> and \<open>log_write\<close>
  atomic. Where \<open>begin_op\<close> sleeps, the model returns \<open>Sleep\<close>: the loop starts
  over when the process is woken.
\<close>

section \<open>State\<close>

definition MAXOPBLOCKS :: nat where "MAXOPBLOCKS = 10"
definition LOGSIZE :: nat where "LOGSIZE = MAXOPBLOCKS * 3"
definition ROOTDEV :: u32 where "ROOTDEV = 1"

record superblock =
  sb_size :: u32
  sb_nblocks :: u32
  sb_ninodes :: u32
  sb_nlog :: u32

text \<open>
  \<open>lh_n\<close> and \<open>lh_sector\<close> are the in-memory header \<open>log.lh\<close>; the array has
  \<open>LOGSIZE\<close> elements and an access beyond it is a \<open>Fault\<close>.
\<close>

record log_st = bio +
  log_start :: u32
  log_size :: int
  log_outstanding :: int
  log_committing :: bool
  log_dev :: u32
  lh_n :: int
  lh_sector :: "u32 list"

section \<open>Operations\<close>

definition readsb :: "u32 \<Rightarrow> ('z bio_scheme, superblock) km" where
  "readsb dev =
     kbind (bread dev 1) (\<lambda>bp.
     kbind (bdata bp) (\<lambda>d.
     kthen (brelse bp)
       (kret \<lparr>sb_size = get32 d 0, sb_nblocks = get32 d 4, sb_ninodes = get32 d 8, sb_nlog = get32 d 12\<rparr>)))"

definition get_sector :: "nat \<Rightarrow> ('z log_st_scheme, u32) km" where
  "get_sector i = kbind (kget lh_sector) (\<lambda>l.
     if i < length l then kret (l ! i) else kfault ''log.lh.sector'')"

definition set_sector :: "nat \<Rightarrow> u32 \<Rightarrow> ('z log_st_scheme, unit) km" where
  "set_sector i v = kbind (kget lh_sector) (\<lambda>l.
     if i < length l then kmod (\<lambda>s. s\<lparr>lh_sector := l[i := v]\<rparr>) else kfault ''log.lh.sector'')"

text \<open>Sector of the log block for slot \<open>tail\<close>: \<open>log.start+tail+1\<close>.\<close>

definition log_block :: "nat \<Rightarrow> ('z log_st_scheme, nat) km" where
  "log_block tail = kbind (kget (\<lambda>s. s)) (\<lambda>s. bread (log_dev s) (log_start s + of_nat tail + 1))"

definition home_block :: "nat \<Rightarrow> ('z log_st_scheme, nat) km" where
  "home_block tail =
     kbind (kget log_dev) (\<lambda>dev. kbind (get_sector tail) (\<lambda>sec. bread dev sec))"

definition install_trans :: "('z log_st_scheme, unit) km" where
  "install_trans = kbind (kget lh_n) (\<lambda>n. kfor [0..<nat n] (\<lambda>tail.
     kbind (log_block tail) (\<lambda>lbuf.
     kbind (home_block tail) (\<lambda>dbuf.
     kbind (bdata lbuf) (\<lambda>d.
     kthen (set_bdata dbuf d)
     (kthen (bwrite dbuf)
     (kthen (brelse lbuf)
            (brelse dbuf))))))))"

definition read_head :: "('z log_st_scheme, unit) km" where
  "read_head =
     kbind (kget (\<lambda>s. s)) (\<lambda>s.
     kbind (bread (log_dev s) (log_start s)) (\<lambda>bp.
     kbind (bdata bp) (\<lambda>d.
     kthen (kmod (\<lambda>s. s\<lparr>lh_n := sint (get32 d 0)\<rparr>))
     (kthen (kfor [0..<nat (sint (get32 d 0))] (\<lambda>i. set_sector i (get32 d (4 + 4 * i))))
            (brelse bp)))))"

text \<open>The bytes \<open>write_head\<close> stores over the old header block.\<close>

definition head_bytes :: "u8 list \<Rightarrow> int \<Rightarrow> u32 list \<Rightarrow> u8 list" where
  "head_bytes d n l = fold (\<lambda>i d. put32 d (4 + 4 * i) (l ! i)) [0..<nat n] (put32 d 0 (of_int n))"

definition write_head :: "('z log_st_scheme, unit) km" where
  "write_head =
     kbind (kget (\<lambda>s. s)) (\<lambda>s.
     kbind (bread (log_dev s) (log_start s)) (\<lambda>bp.
     kbind (bdata bp) (\<lambda>d.
     if length (lh_sector s) < nat (lh_n s) then kfault ''log.lh.sector'' else
     kthen (set_bdata bp (head_bytes d (lh_n s) (lh_sector s)))
     (kthen (bwrite bp)
            (brelse bp)))))"

definition recover_from_log :: "('z log_st_scheme, unit) km" where
  "recover_from_log =
     kthen read_head
     (kthen install_trans
     (kthen (kmod (\<lambda>s. s\<lparr>lh_n := 0\<rparr>))
            write_head))"

definition initlog :: "('z log_st_scheme, unit) km" where
  "initlog =
     (if BSIZE \<le> 4 + 4 * LOGSIZE then kpanic ''initlog: too big logheader'' else
      kbind (readsb ROOTDEV) (\<lambda>sb.
      kthen (kmod (\<lambda>s. s\<lparr>log_start := sb_size sb - sb_nlog sb, log_size := sint (sb_nlog sb), log_dev := ROOTDEV\<rparr>))
            recover_from_log))"

definition write_log :: "('z log_st_scheme, unit) km" where
  "write_log = kbind (kget lh_n) (\<lambda>n. kfor [0..<nat n] (\<lambda>tail.
     kbind (log_block tail) (\<lambda>to.
     kbind (home_block tail) (\<lambda>from.
     kbind (bdata from) (\<lambda>d.
     kthen (set_bdata to d)
     (kthen (bwrite to)
     (kthen (brelse from)
            (brelse to))))))))"

definition commit :: "('z log_st_scheme, unit) km" where
  "commit = kbind (kget lh_n) (\<lambda>n.
     if 0 < n then
       kthen write_log
       (kthen write_head
       (kthen install_trans
       (kthen (kmod (\<lambda>s. s\<lparr>lh_n := 0\<rparr>))
              write_head)))
     else kret ())"

definition begin_op :: "('z log_st_scheme, unit) km" where
  "begin_op = kbind (kget (\<lambda>s. s)) (\<lambda>s.
     if log_committing s then ksleep ''log''
     else if int LOGSIZE < lh_n s + (log_outstanding s + 1) * int MAXOPBLOCKS then ksleep ''log''
     else kmod (\<lambda>s. s\<lparr>log_outstanding := log_outstanding s + 1\<rparr>))"

definition end_op :: "('z log_st_scheme, unit) km" where
  "end_op =
     kthen (kmod (\<lambda>s. s\<lparr>log_outstanding := log_outstanding s - 1\<rparr>))
     (kbind (kget (\<lambda>s. s)) (\<lambda>s.
      if log_committing s then kpanic ''log.committing''
      else if log_outstanding s = 0 then
        kthen (kmod (\<lambda>s. s\<lparr>log_committing := True\<rparr>))
        (kthen commit
               (kmod (\<lambda>s. s\<lparr>log_committing := False\<rparr>)))
      else kret ()))"

text \<open>
  The search loop of \<open>log_write\<close> ends at the first slot that already has the
  sector, or at \<open>lh.n\<close>.
\<close>

primrec absorb :: "u32 \<Rightarrow> u32 list \<Rightarrow> nat" where
  "absorb sec [] = 0"
| "absorb sec (x # xs) = (if x = sec then 0 else Suc (absorb sec xs))"

definition log_write :: "nat \<Rightarrow> ('z log_st_scheme, unit) km" where
  "log_write b = kbind (kget (\<lambda>s. s)) (\<lambda>s.
     if int LOGSIZE \<le> lh_n s \<or> log_size s - 1 \<le> lh_n s then kpanic ''too big a transaction''
     else if log_outstanding s < 1 then kpanic ''log_write outside of trans''
     else let sec = b_sector (bufs s b); i = absorb sec (take (nat (lh_n s)) (lh_sector s)) in
       kthen (set_sector i sec)
       (kthen (if int i = lh_n s then kmod (\<lambda>s. s\<lparr>lh_n := lh_n s + 1\<rparr>) else kret ())
              (mark_dirty b)))"

section \<open>Invariant\<close>

lemma log_frame [simp]:
  "bview (lh_n_update f s) = bview s" "io H (lh_n_update f s) = io H s"
  "dirty_secs (lh_n_update f s) = dirty_secs s" "held (lh_n_update f s) = held s"
  "bview (lh_sector_update g s) = bview s" "io H (lh_sector_update g s) = io H s"
  "dirty_secs (lh_sector_update g s) = dirty_secs s" "held (lh_sector_update g s) = held s"
  "bview (log_outstanding_update f s) = bview s" "io H (log_outstanding_update f s) = io H s"
  "dirty_secs (log_outstanding_update f s) = dirty_secs s" "held (log_outstanding_update f s) = held s"
  "bview (log_committing_update h s) = bview s" "io H (log_committing_update h s) = io H s"
  "dirty_secs (log_committing_update h s) = dirty_secs s" "held (log_committing_update h s) = held s"
  by (rule bio_cong; simp)+

lemma bufs_commute:
  "bufs_update f (lh_n_update g s) = lh_n_update g (bufs_update f s)"
  "bufs_update f (lh_sector_update h s) = lh_sector_update h (bufs_update f s)"
  by (rule log_st.equality; simp)+

text \<open>
  The log area lies within the disk, and the in-memory header has its
  \<open>LOGSIZE\<close> slots. \<open>homes s\<close> are the sectors of the running transaction.
\<close>

definition log_geo :: "'z log_st_scheme \<Rightarrow> bool" where
  "log_geo s \<longleftrightarrow> log_dev s = 1 \<and> length (lh_sector s) = LOGSIZE \<and> 1 \<le> log_size s
     \<and> unat (log_start s) + nat (log_size s) \<le> disksize s
     \<and> unat (log_start s) + nat (log_size s) < 2 ^ 32"

definition homes :: "'z log_st_scheme \<Rightarrow> nat list" where
  "homes s = map unat (take (nat (lh_n s)) (lh_sector s))"

lemma length_homes: "log_geo s \<Longrightarrow> lh_n s \<le> int LOGSIZE \<Longrightarrow> length (homes s) = nat (lh_n s)"
  by (simp add: homes_def log_geo_def)

lemma homes_nth: "i < nat (lh_n s) \<Longrightarrow> i < length (lh_sector s) \<Longrightarrow> homes s ! i = unat (lh_sector s ! i)"
  by (simp add: homes_def)

lemma log_sector_unat:
  assumes "log_geo s" "int k + 1 < log_size s"
  shows "unat (log_start s + of_nat k + 1) = unat (log_start s) + k + 1"
proof -
  have "unat (log_start s) + (k + 1) < 4294967296" using assms by (auto simp: log_geo_def)
  then show ?thesis using unat_plus32 [of "log_start s" "k + 1"] by (simp add: ac_simps)
qed

text \<open>What \<open>wrote\<close> leaves alone.\<close>

lemma wrote_log:
  assumes "wrote W s t"
  shows "log_geo t = log_geo s" "homes t = homes s" "lh_n t = lh_n s" "lh_sector t = lh_sector s"
    "log_start t = log_start s" "log_size t = log_size s" "log_dev t = log_dev s"
    "log_outstanding t = log_outstanding s" "log_committing t = log_committing s"
  using assms by (auto simp: wrote_def log_geo_def homes_def)

lemma wrote_lh_n: "wrote W s t \<Longrightarrow> wrote W (s\<lparr>lh_n := n\<rparr>) (t\<lparr>lh_n := n\<rparr>)"
proof -
  assume w: "wrote W s t"
  then obtain B where B: "t = s\<lparr>memdisk := dapply W (memdisk s), dwrites := dwrites s @ W, bufs := B\<rparr>"
    by (auto simp: wrote_def)
  have "t\<lparr>lh_n := n\<rparr> = s\<lparr>lh_n := n, memdisk := dapply W (memdisk s), dwrites := dwrites s @ W, bufs := B\<rparr>"
    unfolding B by (rule log_st.equality) simp_all
  then have "\<exists>B. t\<lparr>lh_n := n\<rparr> = s\<lparr>lh_n := n, memdisk := dapply W (memdisk (s\<lparr>lh_n := n\<rparr>)),
      dwrites := dwrites (s\<lparr>lh_n := n\<rparr>) @ W, bufs := B\<rparr>" by auto
  then show ?thesis unfolding wrote_def using wroteD(1,2) [OF w] by simp
qed

section \<open>The pieces of a commit\<close>

lemma head_bytes_length:
  assumes "length d = BSIZE" "nat n \<le> LOGSIZE"
  shows "length (head_bytes d n l) = BSIZE"
proof -
  have "length (fold (\<lambda>i d. put32 d (4 + 4 * i) (l ! i)) [0..<m] e) = BSIZE"
    if "m \<le> LOGSIZE" "length e = BSIZE" for m e
    using that by (induction m) (auto simp: BSIZE_def LOGSIZE_def MAXOPBLOCKS_def)
  then show ?thesis using assms by (simp add: head_bytes_def BSIZE_def)
qed

lemma head_bytes_get:
  assumes "length d = BSIZE" "nat n \<le> LOGSIZE"
  shows "get32 (head_bytes d n l) 0 = of_int n"
    and "i < nat n \<Longrightarrow> get32 (head_bytes d n l) (4 + 4 * i) = l ! i"
proof -
  let ?f = "\<lambda>m. fold (\<lambda>i d. put32 d (4 + 4 * i) (l ! i)) [0..<m] (put32 d 0 (of_int n))"
  have *: "length (?f m) = BSIZE \<and> get32 (?f m) 0 = of_int n \<and> (\<forall>i < m. get32 (?f m) (4 + 4 * i) = l ! i)"
    if "m \<le> LOGSIZE" for m
    using that assms(1)
  proof (induction m)
    case (Suc m)
    have len: "length (?f m) = 512" and b: "m < 30" and ih: "get32 (?f m) 0 = of_int n"
      "\<And>i. i < m \<Longrightarrow> get32 (?f m) (4 + 4 * i) = l ! i"
      using Suc by (auto simp: BSIZE_def LOGSIZE_def MAXOPBLOCKS_def)
    have "get32 (put32 (?f m) (4 + 4 * m) (l ! m)) (4 + 4 * i) = l ! i" if "i < Suc m" for i
    proof (cases "i = m")
      case True
      then show ?thesis using len b by (simp add: get32_put32)
    next
      case False
      then show ?thesis using that len b ih(2) [of i] by (simp add: get32_put32_other)
    qed
    then show ?case using len b ih by (simp add: get32_put32_other BSIZE_def)
  qed (simp add: byte_simps BSIZE_def)
  show "get32 (head_bytes d n l) 0 = of_int n"
    using * [OF assms(2)] by (simp add: head_bytes_def)
  show "i < nat n \<Longrightarrow> get32 (head_bytes d n l) (4 + 4 * i) = l ! i"
    using * [OF assms(2)] by (simp add: head_bytes_def)
qed

text \<open>The sector writes of the four phases, for the block contents \<open>v\<close> at the start.\<close>

definition log_writes :: "'z log_st_scheme \<Rightarrow> nat \<Rightarrow> (nat \<Rightarrow> u8 list) \<Rightarrow> (nat \<times> u8 list) list" where
  "log_writes s k v = map (\<lambda>i. (unat (log_start s) + i + 1, v (unat (lh_sector s ! i)))) [0..<k]"

definition home_writes :: "'z log_st_scheme \<Rightarrow> nat \<Rightarrow> (nat \<Rightarrow> u8 list) \<Rightarrow> (nat \<times> u8 list) list" where
  "home_writes s k v = map (\<lambda>i. (unat (lh_sector s ! i), v (unat (log_start s) + i + 1))) [0..<k]"

lemma wp_log_block:
  "kwp (log_block k) Q s = kwp (bread (log_dev s) (log_start s + of_nat k + 1)) Q s"
  by (simp add: log_block_def)

lemma wp_home_block:
  "k < length (lh_sector s) \<Longrightarrow> kwp (home_block k) Q s = kwp (bread (log_dev s) (lh_sector s ! k)) Q s"
  by (simp add: home_block_def get_sector_def)

text \<open>The conditions under which slot \<open>k\<close> can be copied between the log and its home.\<close>

definition slot_ok :: "'z log_st_scheme \<Rightarrow> nat \<Rightarrow> bool" where
  "slot_ok s k \<longleftrightarrow> k < LOGSIZE \<and> int k + 1 < log_size s \<and> unat (lh_sector s ! k) < unat (log_start s)
     \<and> card (dirty_secs s) < NBUF
     \<and> (unat (lh_sector s ! k) \<in> dirty_secs s \<or> dirty_secs s = {})"

lemma slot_blocks:
  assumes io: "io {} s" and geo: "log_geo s" and ok: "slot_ok s k"
    and Q: "\<And>i j B a b. a = log_start s + of_nat k + 1 \<Longrightarrow> b = lh_sector s ! k \<Longrightarrow> a \<noteq> b \<Longrightarrow>
      unat a = unat (log_start s) + k + 1 \<Longrightarrow> unat a < disksize s \<Longrightarrow> unat b < disksize s \<Longrightarrow>
      io {unat a, unat b} (s\<lparr>bufs := B\<rparr>) \<Longrightarrow> held (s\<lparr>bufs := B\<rparr>) i a \<Longrightarrow>
      held (s\<lparr>bufs := B\<rparr>) j b \<Longrightarrow> bview (s\<lparr>bufs := B\<rparr>) = bview s \<Longrightarrow>
      dirty_secs (s\<lparr>bufs := B\<rparr>) = dirty_secs s \<Longrightarrow> Q i j (s\<lparr>bufs := B\<rparr>)"
  shows "kwp (log_block k) (\<lambda>i. kwp (home_block k) (Q i)) s"
proof -
  let ?a = "log_start s + of_nat k + 1" and ?b = "lh_sector s ! k"
  have a: "unat ?a = unat (log_start s) + k + 1"
    using log_sector_unat [OF geo] ok by (simp add: slot_ok_def)
  have ab: "?a \<noteq> ?b" using a ok by (auto simp: slot_ok_def)
  have sz: "unat ?a < disksize s" "unat ?b < disksize s"
    using a ok geo by (auto simp: slot_ok_def log_geo_def)
  have dev: "log_dev s = 1" "k < length (lh_sector s)" using geo ok by (auto simp: log_geo_def slot_ok_def)
  have room: "unat ?b \<in> dirty_secs s \<or> card (insert (unat ?a) (dirty_secs s)) < NBUF"
    using ok by (auto simp: slot_ok_def NBUF_def)
  have room1: "card (dirty_secs s) < NBUF" using ok by (simp add: slot_ok_def)
  show ?thesis
    unfolding wp_log_block dev(1)
  proof (rule io_bread2 [OF io sz ab room1 room])
    show "Q i j (s\<lparr>bufs := B\<rparr>)" if "io {unat ?a, unat ?b} (s\<lparr>bufs := B\<rparr>)" "held (s\<lparr>bufs := B\<rparr>) i ?a"
      "held (s\<lparr>bufs := B\<rparr>) j ?b" "bview (s\<lparr>bufs := B\<rparr>) = bview s"
      "dirty_secs (s\<lparr>bufs := B\<rparr>) = dirty_secs s" for i j B
      by (rule Q [OF refl refl ab a sz that])
    show "kwp (home_block k) (Q i) (s\<lparr>bufs := B\<rparr>)"
      if "kwp (bread 1 ?b) (Q i) (s\<lparr>bufs := B\<rparr>)" for i B
      using that dev by (simp add: wp_home_block)
  qed
qed

lemma wrote_bufs: "wrote W (s\<lparr>bufs := B\<rparr>) t \<Longrightarrow> bview (s\<lparr>bufs := B\<rparr>) = bview s \<Longrightarrow> wrote W s t"
  by (auto simp: wrote_def)

lemma write_log_step:
  assumes "io {} s" "log_geo s" "slot_ok s k"
    and "\<And>t. wrote [(unat (log_start s) + k + 1, bview s (unat (lh_sector s ! k)))] s t \<Longrightarrow>
      dirty_secs t = dirty_secs s - {unat (log_start s) + k + 1} \<Longrightarrow> Q t"
  shows "kwp (log_block k) (\<lambda>i. kwp (home_block k) (\<lambda>j. kwp (bdata j) (\<lambda>d. kwp (set_bdata i d) (\<lambda>_.
    kwp (bwrite i) (\<lambda>_. kwp (brelse j) (\<lambda>_. kwp (brelse i) (\<lambda>_. Q))))))) s"
proof (rule slot_blocks [OF assms(1-3)])
  fix i j B a b
  let ?s = "s\<lparr>bufs := B\<rparr>"
  assume *: "b = lh_sector s ! k" "a \<noteq> b" "unat a = unat (log_start s) + k + 1"
    "unat b < disksize s" "io {unat a, unat b} ?s" "held ?s i a" "held ?s j b"
    "bview ?s = bview s" "dirty_secs ?s = dirty_secs s"
  show "kwp (bdata j) (\<lambda>d. kwp (set_bdata i d) (\<lambda>_. kwp (bwrite i) (\<lambda>_. kwp (brelse j) (\<lambda>_.
    kwp (brelse i) (\<lambda>_. Q))))) ?s"
  proof (rule copy_held [OF *(5-7,2)])
    show "unat b < disksize ?s" using *(4) by simp
    fix t
    assume "wrote [(unat a, bview ?s (unat b))] ?s t" "dirty_secs t = dirty_secs ?s - {unat a}"
    then show "Q t" using assms(4) [OF wrote_bufs] * by metis
  qed
qed

lemma install_step:
  assumes "io {} s" "log_geo s" "slot_ok s k"
    and "\<And>t. wrote [(unat (lh_sector s ! k), bview s (unat (log_start s) + k + 1))] s t \<Longrightarrow>
      dirty_secs t = dirty_secs s - {unat (lh_sector s ! k)} \<Longrightarrow> Q t"
  shows "kwp (log_block k) (\<lambda>i. kwp (home_block k) (\<lambda>j. kwp (bdata i) (\<lambda>d. kwp (set_bdata j d) (\<lambda>_.
    kwp (bwrite j) (\<lambda>_. kwp (brelse i) (\<lambda>_. kwp (brelse j) (\<lambda>_. Q))))))) s"
proof (rule slot_blocks [OF assms(1-3)])
  fix i j B a b
  let ?s = "s\<lparr>bufs := B\<rparr>"
  assume *: "b = lh_sector s ! k" "a \<noteq> b" "unat a = unat (log_start s) + k + 1"
    "unat a < disksize s" "io {unat a, unat b} ?s" "held ?s i a" "held ?s j b"
    "bview ?s = bview s" "dirty_secs ?s = dirty_secs s"
  have io: "io {unat b, unat a} ?s" using *(5) by (simp add: insert_commute)
  show "kwp (bdata i) (\<lambda>d. kwp (set_bdata j d) (\<lambda>_. kwp (bwrite j) (\<lambda>_. kwp (brelse i) (\<lambda>_.
    kwp (brelse j) (\<lambda>_. Q))))) ?s"
  proof (rule copy_held [OF io *(7,6) *(2) [symmetric]])
    show "unat a < disksize ?s" using *(4) by simp
    fix t
    assume "wrote [(unat b, bview ?s (unat a))] ?s t" "dirty_secs t = dirty_secs ?s - {unat b}"
    then show "Q t" using assms(4) [OF wrote_bufs] * by metis
  qed
qed

lemma log_writes_Suc:
  "log_writes s (Suc k) v = log_writes s k v @ [(unat (log_start s) + k + 1, v (unat (lh_sector s ! k)))]"
  "home_writes s (Suc k) v = home_writes s k v @ [(unat (lh_sector s ! k), v (unat (log_start s) + k + 1))]"
  by (simp_all add: log_writes_def home_writes_def)

lemma dapply_log_writes_home:
  "x \<le> unat (log_start s) \<Longrightarrow> dapply (log_writes s k v) f x = f x"
  by (rule dapply_notin) (auto simp: log_writes_def)

lemma dapply_home_writes_log:
  "\<forall>i < k. unat (lh_sector s ! i) < unat (log_start s) \<Longrightarrow> unat (log_start s) \<le> x \<Longrightarrow>
    dapply (home_writes s k v) f x = f x"
  by (rule dapply_notin) (auto simp: home_writes_def)

lemma write_log_wp:
  assumes io: "io {} s" and geo: "log_geo s" and n: "n = nat (lh_n s)" "n \<le> LOGSIZE" "int n < log_size s"
    and home: "\<And>k. k < n \<Longrightarrow> unat (lh_sector s ! k) < unat (log_start s) \<and> unat (lh_sector s ! k) \<in> dirty_secs s"
    and dirty: "card (dirty_secs s) < NBUF" "dirty_secs s \<subseteq> {..<unat (log_start s)}"
    and Q: "\<And>t. wrote (log_writes s n (bview s)) s t \<Longrightarrow> dirty_secs t = dirty_secs s \<Longrightarrow> Q () t"
  shows "kwp write_log Q s"
proof -
  let ?I = "\<lambda>k t. wrote (log_writes s k (bview s)) s t \<and> dirty_secs t = dirty_secs s"
  have "kwp (kfor [0..<n] (\<lambda>tail.
     kbind (log_block tail) (\<lambda>to. kbind (home_block tail) (\<lambda>from. kbind (bdata from) (\<lambda>d.
     kthen (set_bdata to d) (kthen (bwrite to) (kthen (brelse from) (brelse to)))))))) Q s"
  proof (rule kwp_for_upt [where I = ?I])
    show "?I 0 s" using io by (simp add: log_writes_def wrote_refl)
    show "Q () t" if "?I n t" for t using that Q by blast
    fix k t
    assume k: "k < n" and I: "?I k t"
    note w = wrote_log [OF conjunct1 [OF I]] wroteD [OF conjunct1 [OF I]]
    have "int k + 1 < log_size s" "k < LOGSIZE" using k n by linarith+
    then have ok: "slot_ok t k" using home [OF k] dirty(1) I by (simp add: slot_ok_def w)
    have v: "bview t (unat (lh_sector s ! k)) = bview s (unat (lh_sector s ! k))"
      using home [OF k] by (simp add: w dapply_log_writes_home)
    show "kwp (kbind (log_block k) (\<lambda>to. kbind (home_block k) (\<lambda>from. kbind (bdata from) (\<lambda>d.
     kthen (set_bdata to d) (kthen (bwrite to) (kthen (brelse from) (brelse to))))))) (\<lambda>_. ?I (Suc k)) t"
      unfolding kwp_bind kwp_then
    proof (rule write_log_step [OF w(10) _ ok])
      show "log_geo t" using geo w by simp
      fix u
      assume u: "wrote [(unat (log_start t) + k + 1, bview t (unat (lh_sector t ! k)))] t u"
        "dirty_secs u = dirty_secs t - {unat (log_start t) + k + 1}"
      have "wrote (log_writes s (Suc k) (bview s)) s u"
        using wrote_trans [OF conjunct1 [OF I] u(1)] v by (simp add: log_writes_Suc w)
      moreover have "dirty_secs u = dirty_secs s" using u(2) conjunct2 [OF I] dirty(2) by (auto simp: w(5))
      ultimately show "?I (Suc k) u" by blast
    qed
  qed
  then show ?thesis by (simp add: write_log_def n)
qed

lemma install_trans_wp:
  assumes io: "io {} s" and geo: "log_geo s" and n: "n = nat (lh_n s)" "n \<le> LOGSIZE" "int n < log_size s"
    and home: "\<And>k. k < n \<Longrightarrow> unat (lh_sector s ! k) < unat (log_start s)"
    and dirty: "dirty_secs s = {} \<or> dirty_secs s = set (homes s) \<and> distinct (homes s)" "card (dirty_secs s) < NBUF"
    and Q: "\<And>t. wrote (home_writes s n (bview s)) s t \<Longrightarrow> dirty_secs t = {} \<Longrightarrow> Q () t"
  shows "kwp install_trans Q s"
proof -
  let ?h = "\<lambda>k. unat (lh_sector s ! k)"
  let ?I = "\<lambda>k t. wrote (home_writes s k (bview s)) s t \<and> dirty_secs t = dirty_secs s - ?h ` {..<k}"
  have len: "length (homes s) = n" using length_homes [OF geo] n by simp
  have hs: "homes s ! k = ?h k" if "k < n" for k
    using that n geo by (simp add: homes_nth log_geo_def)
  then have hmap: "homes s = map ?h [0..<n]" using len by (intro nth_equalityI) simp_all
  then have hset: "set (homes s) = ?h ` {..<n}" by (auto simp: atLeast0LessThan)
  have inj: "?h k \<notin> ?h ` {..<k}" if "k < n" "distinct (homes s)" for k
  proof
    assume "?h k \<in> ?h ` {..<k}"
    then obtain j where "j < k" "?h j = ?h k" by auto
    then show False using that hs len by (metis distinct_conv_nth less_imp_neq order.strict_trans)
  qed
  have "kwp (kfor [0..<n] (\<lambda>tail.
     kbind (log_block tail) (\<lambda>lbuf. kbind (home_block tail) (\<lambda>dbuf. kbind (bdata lbuf) (\<lambda>d.
     kthen (set_bdata dbuf d) (kthen (bwrite dbuf) (kthen (brelse lbuf) (brelse dbuf)))))))) Q s"
  proof (rule kwp_for_upt [where I = ?I])
    show "?I 0 s" using io by (simp add: home_writes_def wrote_refl)
    show "Q () t" if "?I n t" for t using that Q dirty(1) hset by auto
    fix k t
    assume k: "k < n" and I: "?I k t"
    note w = wrote_log [OF conjunct1 [OF I]] wroteD [OF conjunct1 [OF I]]
    have "dirty_secs t \<subseteq> dirty_secs s" using I by blast
    then have "card (dirty_secs t) < NBUF" using dirty(2) card_mono [of "dirty_secs s"] by (meson finite_bsets(3) le_less_trans)
    moreover have "?h k \<in> dirty_secs t \<or> dirty_secs t = {}"
      using dirty(1) I inj [OF k] hset k by auto
    moreover have "int k + 1 < log_size s" "k < LOGSIZE" using k n by linarith+
    ultimately have ok: "slot_ok t k" using home [OF k] by (simp add: slot_ok_def w)
    have v: "bview t (unat (log_start s) + k + 1) = bview s (unat (log_start s) + k + 1)"
      using home k by (simp add: w dapply_home_writes_log)
    show "kwp (kbind (log_block k) (\<lambda>lbuf. kbind (home_block k) (\<lambda>dbuf. kbind (bdata lbuf) (\<lambda>d.
     kthen (set_bdata dbuf d) (kthen (bwrite dbuf) (kthen (brelse lbuf) (brelse dbuf))))))) (\<lambda>_. ?I (Suc k)) t"
      unfolding kwp_bind kwp_then
    proof (rule install_step [OF w(10) _ ok])
      show "log_geo t" using geo w by simp
      fix u
      assume u: "wrote [(unat (lh_sector t ! k), bview t (unat (log_start t) + k + 1))] t u"
        "dirty_secs u = dirty_secs t - {unat (lh_sector t ! k)}"
      have "wrote (home_writes s (Suc k) (bview s)) s u"
        using wrote_trans [OF conjunct1 [OF I] u(1)] v by (simp add: log_writes_Suc w)
      moreover have "dirty_secs u = dirty_secs s - ?h ` {..<Suc k}"
        using u(2) conjunct2 [OF I] by (auto simp: w(4) lessThan_Suc)
      ultimately show "?I (Suc k) u" by blast
    qed
  qed
  then show ?thesis by (simp add: install_trans_def n)
qed

lemma write_head_wp:
  assumes io: "io {} s" and geo: "log_geo s" and n: "nat (lh_n s) \<le> LOGSIZE"
    and dirty: "card (dirty_secs s) < NBUF" "unat (log_start s) \<notin> dirty_secs s"
    and Q: "\<And>t. wrote [(unat (log_start s), head_bytes (bview s (unat (log_start s))) (lh_n s) (lh_sector s))] s t \<Longrightarrow>
      dirty_secs t = dirty_secs s \<Longrightarrow> Q () t"
  shows "kwp write_head Q s"
proof -
  let ?L = "unat (log_start s)"
  let ?h = "head_bytes (bview s ?L) (lh_n s) (lh_sector s)"
  have L: "?L < disksize s" and dev: "log_dev s = 1" and len: "length (lh_sector s) = LOGSIZE"
    using geo by (auto simp: log_geo_def)
  have hl: "length ?h = BSIZE" using head_bytes_length n io_view_length [OF io L] by simp
  have "kwp (bread 1 (log_start s)) (\<lambda>bp. kwp (bdata bp) (\<lambda>d. kwp (set_bdata bp (head_bytes d (lh_n s) (lh_sector s)))
     (\<lambda>_. kwp (bwrite bp) (\<lambda>_. kwp (brelse bp) Q)))) s"
  proof (rule io_bread [OF io L])
    show "?L \<notin> {}" "?L \<in> dirty_secs s \<or> card ({} \<union> dirty_secs s) < NBUF" using dirty by auto
    fix i B
    let ?s1 = "s\<lparr>bufs := B\<rparr>"
    assume 1: "io {?L} ?s1" "held ?s1 i (log_start s)" "bview ?s1 = bview s" "dirty_secs ?s1 = dirty_secs s"
    have "kwp (set_bdata i ?h) (\<lambda>_. kwp (bwrite i) (\<lambda>_. kwp (brelse i) Q)) ?s1"
    proof (rule io_bwrite [OF 1(1,2) hl])
      fix B2 t
      assume 2: "t = ?s1\<lparr>memdisk := (memdisk ?s1)(?L := ?h), dwrites := dwrites ?s1 @ [(?L, ?h)], bufs := B2\<rparr>"
        "io {?L} t" "bview t = (bview ?s1)(?L := ?h)" "dirty_secs t = dirty_secs ?s1 - {?L}"
        "\<And>j x. held ?s1 j x \<Longrightarrow> held t j x"
      show "kwp (brelse i) Q t"
      proof (rule io_brelse [OF 2(2) 2(5) [OF 1(2)]])
        fix B3
        let ?u = "t\<lparr>bufs := B3\<rparr>"
        assume 3: "io ({?L} - {?L}) ?u" "bview ?u = bview t" "dirty_secs ?u = dirty_secs t"
        have "wrote [(?L, ?h)] s ?u" using 3(1,2) 2(3) 1(3) by (auto simp: wrote_def 2(1))
        moreover have "dirty_secs ?u = dirty_secs s" using 3(3) 2(4) 1(4) dirty(2) by simp
        ultimately show "Q () ?u" by (rule Q)
      qed
    qed
    then show "kwp (bdata i) (\<lambda>d. kwp (set_bdata i (head_bytes d (lh_n s) (lh_sector s)))
     (\<lambda>_. kwp (bwrite i) (\<lambda>_. kwp (brelse i) Q))) ?s1"
      using held_data [OF 1(1,2)] 1(3) by (simp add: bdata_def)
  qed
  moreover have "\<not> LOGSIZE < nat (lh_n s)" using n by simp
  ultimately show ?thesis by (simp add: write_head_def dev len)
qed

text \<open>
  The invariant of the log between operations, with the blocks \<open>H\<close> held.
  The transaction's blocks are exactly the dirty ones, they lie below the log
  and above the super block, the header on disk is empty, and the super block
  on disk describes the log.
\<close>

definition log_inv :: "nat set \<Rightarrow> 'z log_st_scheme \<Rightarrow> bool" where
  "log_inv H s \<longleftrightarrow> io H s \<and> log_geo s \<and> 0 \<le> lh_n s \<and> lh_n s < log_size s \<and> log_size s \<le> int LOGSIZE
     \<and> distinct (homes s) \<and> dirty_secs s = set (homes s) \<and> set (homes s) \<subseteq> {2..<unat (log_start s)}
     \<and> 1 < unat (log_start s) \<and> get32 (memdisk s (unat (log_start s))) 0 = 0
     \<and> get32 (memdisk s 1) 0 - get32 (memdisk s 1) 12 = log_start s
     \<and> sint (get32 (memdisk s 1) 12) = log_size s"

lemma log_invD:
  assumes "log_inv H s"
  shows "io H s" "log_geo s" "0 \<le> lh_n s" "lh_n s < log_size s" "log_size s \<le> int LOGSIZE"
    "distinct (homes s)" "dirty_secs s = set (homes s)" "set (homes s) \<subseteq> {2..<unat (log_start s)}"
    "1 < unat (log_start s)" "get32 (memdisk s (unat (log_start s))) 0 = 0"
    "get32 (memdisk s 1) 0 - get32 (memdisk s 1) 12 = log_start s"
    "sint (get32 (memdisk s 1) 12) = log_size s"
  using assms unfolding log_inv_def by blast+

lemma log_inv_homes:
  assumes "log_inv H s"
  shows "length (homes s) = nat (lh_n s)" "card (dirty_secs s) = nat (lh_n s)" "nat (lh_n s) < LOGSIZE"
    "card (dirty_secs s) < NBUF" "homes s = map (\<lambda>k. unat (lh_sector s ! k)) [0..<nat (lh_n s)]"
    "k < nat (lh_n s) \<Longrightarrow> unat (lh_sector s ! k) \<in> dirty_secs s"
    "k < nat (lh_n s) \<Longrightarrow> unat (lh_sector s ! k) < unat (log_start s)"
proof -
  note D = log_invD [OF assms]
  show len: "length (homes s) = nat (lh_n s)" using length_homes [OF D(2)] D(4,5) by simp
  show n: "nat (lh_n s) < LOGSIZE" using D(3-5) by linarith
  show c: "card (dirty_secs s) = nat (lh_n s)" using D(6,7) len by (simp add: distinct_card)
  show "card (dirty_secs s) < NBUF" using c n by (simp add: NBUF_def LOGSIZE_def MAXOPBLOCKS_def)
  have nth: "homes s ! k = unat (lh_sector s ! k)" if "k < nat (lh_n s)" for k
    using that n D(2) by (simp add: homes_nth log_geo_def)
  show "homes s = map (\<lambda>k. unat (lh_sector s ! k)) [0..<nat (lh_n s)]"
    using len nth by (intro nth_equalityI) simp_all
  show k: "unat (lh_sector s ! k) \<in> dirty_secs s" if "k < nat (lh_n s)"
    using that nth [OF that] len D(7) nth_mem by metis
  show "unat (lh_sector s ! k) < unat (log_start s)" if "k < nat (lh_n s)"
    using k [OF that] D(7,8) by auto
qed

section \<open>Commit\<close>

text \<open>The sector writes of \<open>commit\<close>, in order.\<close>

definition commit_head :: "'z log_st_scheme \<Rightarrow> u8 list" where
  "commit_head s = head_bytes (bview s (unat (log_start s))) (lh_n s) (lh_sector s)"

definition commit_writes :: "'z log_st_scheme \<Rightarrow> (nat \<times> u8 list) list" where
  "commit_writes s = log_writes s (nat (lh_n s)) (bview s)
     @ [(unat (log_start s), commit_head s)]
     @ map (\<lambda>h. (h, bview s h)) (homes s)
     @ [(unat (log_start s), head_bytes (commit_head s) 0 (lh_sector s))]"

lemma log_writes_lookup:
  "i < k \<Longrightarrow> dapply (log_writes s k v) f (unat (log_start s) + i + 1) = v (unat (lh_sector s ! i))"
  unfolding log_writes_def
  using dapply_map [of "\<lambda>i. unat (log_start s) + i + 1" "[0..<k]" i "\<lambda>i. v (unat (lh_sector s ! i))" f]
  by (simp add: inj_on_def)

lemma commit_wp:
  assumes inv: "log_inv {} s" and pos: "0 < lh_n s"
    and Q: "\<And>t. wrote (commit_writes s) (s\<lparr>lh_n := 0\<rparr>) t \<Longrightarrow> dirty_secs t = {} \<Longrightarrow> Q () t"
  shows "kwp commit Q s"
proof -
  note D = log_invD [OF inv] and HM = log_inv_homes [OF inv]
  let ?n = "nat (lh_n s)" and ?L = "unat (log_start s)" and ?v = "bview s"
  let ?W1 = "log_writes s ?n ?v" and ?H1 = "commit_head s"
  let ?W2 = "map (\<lambda>h. (h, ?v h)) (homes s)"
  have n: "?n \<le> LOGSIZE" "int ?n < log_size s" using HM(3) D(3,4) by auto
  have L: "?L \<notin> dirty_secs s" "dirty_secs s \<subseteq> {..<?L}" using D(7,8) by auto
  have "kwp write_log (\<lambda>_. kwp write_head (\<lambda>_. kwp install_trans (\<lambda>_ t. kwp write_head Q (t\<lparr>lh_n := 0\<rparr>)))) s"
  proof (rule write_log_wp [OF D(1,2) refl n _ HM(4) L(2)])
    show "unat (lh_sector s ! k) < ?L \<and> unat (lh_sector s ! k) \<in> dirty_secs s" if "k < ?n" for k
      using HM(6,7) that by blast
    fix t1
    assume 1: "wrote ?W1 s t1" "dirty_secs t1 = dirty_secs s"
    note w1 = wrote_log [OF 1(1)] wroteD [OF 1(1)]
    show "kwp write_head (\<lambda>_. kwp install_trans (\<lambda>_ t. kwp write_head Q (t\<lparr>lh_n := 0\<rparr>))) t1"
    proof (rule write_head_wp)
      show "io {} t1" "log_geo t1" "nat (lh_n t1) \<le> LOGSIZE" "card (dirty_secs t1) < NBUF"
        "unat (log_start t1) \<notin> dirty_secs t1"
        using w1 D(2) n 1(2) HM(4) L(1) by simp_all
      fix t2
      assume "wrote [(unat (log_start t1), head_bytes (bview t1 (unat (log_start t1))) (lh_n t1) (lh_sector t1))] t1 t2"
        and 2: "dirty_secs t2 = dirty_secs t1"
      then have "wrote [(?L, ?H1)] t1 t2" by (simp add: w1 commit_head_def dapply_log_writes_home)
      from wrote_trans [OF 1(1) this] have w: "wrote (?W1 @ [(?L, ?H1)]) s t2" .
      note w2 = wrote_log [OF w] wroteD [OF w]
      show "kwp install_trans (\<lambda>_ t. kwp write_head Q (t\<lparr>lh_n := 0\<rparr>)) t2"
      proof (rule install_trans_wp [OF w2(10) _ refl])
        show "log_geo t2" "nat (lh_n t2) \<le> LOGSIZE" "int (nat (lh_n t2)) < log_size t2"
          "card (dirty_secs t2) < NBUF"
          using w2 D(2) n 1(2) 2 HM(4) by simp_all
        show "dirty_secs t2 = {} \<or> dirty_secs t2 = set (homes t2) \<and> distinct (homes t2)"
          using w2(2) 2 1(2) D(6,7) by simp
        show "unat (lh_sector t2 ! k) < unat (log_start t2)" if "k < nat (lh_n t2)" for k
          using that HM(7) by (simp add: w2)
        fix t3
        assume 3: "wrote (home_writes t2 (nat (lh_n t2)) (bview t2)) t2 t3" "dirty_secs t3 = {}"
        have "bview t2 (?L + k + 1) = ?v (unat (lh_sector s ! k))" if "k < ?n" for k
          using log_writes_lookup [OF that] by (simp add: w2)
        then have "home_writes t2 (nat (lh_n t2)) (bview t2) = ?W2"
          by (simp add: home_writes_def w2 HM(5))
        then have w': "wrote (?W1 @ [(?L, ?H1)] @ ?W2) s t3"
          using wrote_trans [OF w] 3(1) by simp
        note w3 = wrote_log [OF w'] wroteD [OF w']
        let ?u = "t3\<lparr>lh_n := 0\<rparr>"
        have wu: "wrote (?W1 @ [(?L, ?H1)] @ ?W2) (s\<lparr>lh_n := 0\<rparr>) ?u"
          using w' by (rule wrote_lh_n)
        have hL: "bview t3 ?L = ?H1"
        proof -
          have "?L \<notin> fst ` set ?W2" using D(8) by auto
          then show ?thesis using dapply_notin [of ?L ?W2] by (simp add: w3(11))
        qed
        show "kwp write_head Q ?u"
        proof (rule write_head_wp)
          show "io {} ?u" "log_geo ?u" "nat (lh_n ?u) \<le> LOGSIZE" "card (dirty_secs ?u) < NBUF"
            "unat (log_start ?u) \<notin> dirty_secs ?u"
            using w3 D(2) 3(2) by (auto simp: log_geo_def NBUF_def)
          fix u
          assume 4: "wrote [(unat (log_start ?u), head_bytes (bview ?u (unat (log_start ?u))) (lh_n ?u) (lh_sector ?u))] ?u u"
            "dirty_secs u = dirty_secs ?u"
          then have "wrote [(?L, head_bytes ?H1 0 (lh_sector s))] ?u u" by (simp add: w3(4,5) hL)
          from wrote_trans [OF wu this] show "Q () u"
            using 4(2) 3(2) by (intro Q) (simp_all add: commit_writes_def)
        qed
      qed
    qed
  qed
  then show ?thesis using pos by (simp add: commit_def)
qed

section \<open>Recovery\<close>

lemma wrote_lh_sector: "wrote W s t \<Longrightarrow> wrote W (s\<lparr>lh_sector := l\<rparr>) (t\<lparr>lh_sector := l\<rparr>)"
proof -
  assume w: "wrote W s t"
  then obtain B where B: "t = s\<lparr>memdisk := dapply W (memdisk s), dwrites := dwrites s @ W, bufs := B\<rparr>"
    by (auto simp: wrote_def)
  have "t\<lparr>lh_sector := l\<rparr> = s\<lparr>lh_sector := l, memdisk := dapply W (memdisk s), dwrites := dwrites s @ W, bufs := B\<rparr>"
    unfolding B by (rule log_st.equality) simp_all
  then have "\<exists>B. t\<lparr>lh_sector := l\<rparr> = s\<lparr>lh_sector := l, memdisk := dapply W (memdisk (s\<lparr>lh_sector := l\<rparr>)),
      dwrites := dwrites (s\<lparr>lh_sector := l\<rparr>) @ W, bufs := B\<rparr>" by auto
  then show ?thesis unfolding wrote_def using wroteD(1,2) [OF w] by simp
qed

lemma wrote_Nil_bufs: "io {} (s\<lparr>bufs := B\<rparr>) \<Longrightarrow> bview (s\<lparr>bufs := B\<rparr>) = bview s \<Longrightarrow> wrote [] s (s\<lparr>bufs := B\<rparr>)"
  by (simp add: wrote_def) (metis bio.surjective bio.update_convs(1,3))

text \<open>The header as stored in a block: the number of slots and the home sector of a slot.\<close>

definition head_n :: "u8 list \<Rightarrow> int" where "head_n h = sint (get32 h 0)"
definition head_sec :: "u8 list \<Rightarrow> nat \<Rightarrow> u32" where "head_sec h k = get32 h (4 + 4 * k)"

lemma read_head_loop:
  assumes "n \<le> length (lh_sector s)"
    and Q: "\<And>l. length l = length (lh_sector s) \<Longrightarrow> (\<And>i. i < n \<Longrightarrow> l ! i = f i) \<Longrightarrow> Q () (s\<lparr>lh_sector := l\<rparr>)"
  shows "kwp (kfor [0..<n] (\<lambda>i. set_sector i (f i))) Q s"
proof (rule kwp_for_upt [where I = "\<lambda>k t. \<exists>l. t = s\<lparr>lh_sector := l\<rparr> \<and> length l = length (lh_sector s)
      \<and> (\<forall>i < k. l ! i = f i)"])
  show "\<exists>l. s = s\<lparr>lh_sector := l\<rparr> \<and> length l = length (lh_sector s) \<and> (\<forall>i < 0. l ! i = f i)"
    by (intro exI [of _ "lh_sector s"]) simp
next
  fix k t
  assume k: "k < n" and "\<exists>l. t = s\<lparr>lh_sector := l\<rparr> \<and> length l = length (lh_sector s) \<and> (\<forall>i < k. l ! i = f i)"
  then obtain l where l: "t = s\<lparr>lh_sector := l\<rparr>" "length l = length (lh_sector s)" "\<forall>i < k. l ! i = f i" by auto
  have "\<forall>i < Suc k. l[k := f k] ! i = f i" using k l assms(1) by (simp add: nth_list_update less_Suc_eq)
  then show "kwp (set_sector k (f k)) (\<lambda>_ u. \<exists>l. u = s\<lparr>lh_sector := l\<rparr> \<and> length l = length (lh_sector s)
      \<and> (\<forall>i < Suc k. l ! i = f i)) t"
    using k l assms(1) by (auto simp: set_sector_def intro!: exI [of _ "l[k := f k]"])
qed (use Q in blast)

lemma read_head_wp:
  assumes io: "io {} s" and dev: "log_dev s = 1" and L: "unat (log_start s) < disksize s"
    and dirty: "dirty_secs s = {}" and n: "head_n (bview s (unat (log_start s))) \<le> int (length (lh_sector s))"
    and Q: "\<And>t l. wrote [] (s\<lparr>lh_n := head_n (bview s (unat (log_start s))), lh_sector := l\<rparr>) t \<Longrightarrow>
      dirty_secs t = {} \<Longrightarrow> length l = length (lh_sector s) \<Longrightarrow>
      (\<And>i. i < nat (head_n (bview s (unat (log_start s)))) \<Longrightarrow> l ! i = head_sec (bview s (unat (log_start s))) i) \<Longrightarrow> Q () t"
  shows "kwp read_head Q s"
proof -
  let ?L = "unat (log_start s)"
  let ?h = "bview s ?L"
  have "kwp (bread 1 (log_start s)) (\<lambda>bp. kwp (bdata bp) (\<lambda>d t.
     kwp (kfor [0..<nat (sint (get32 d 0))] (\<lambda>i. set_sector i (get32 d (4 + 4 * i)))) (\<lambda>_. kwp (brelse bp) Q)
       (t\<lparr>lh_n := sint (get32 d 0)\<rparr>))) s"
  proof (rule io_bread [OF io L])
    show "?L \<notin> {}" "?L \<in> dirty_secs s \<or> card ({} \<union> dirty_secs s) < NBUF" using dirty by (auto simp: NBUF_def)
    fix bp B
    let ?s1 = "s\<lparr>bufs := B\<rparr>"
    assume 1: "io {?L} ?s1" "held ?s1 bp (log_start s)" "bview ?s1 = bview s" "dirty_secs ?s1 = dirty_secs s"
    have "kwp (kfor [0..<nat (head_n ?h)] (\<lambda>i. set_sector i (head_sec ?h i))) (\<lambda>_. kwp (brelse bp) Q)
       (?s1\<lparr>lh_n := head_n ?h\<rparr>)"
    proof (rule read_head_loop)
      show "nat (head_n ?h) \<le> length (lh_sector (?s1\<lparr>lh_n := head_n ?h\<rparr>))" using n by simp
      fix l
      let ?s2 = "?s1\<lparr>lh_n := head_n ?h, lh_sector := l\<rparr>"
      assume 2: "length l = length (lh_sector (?s1\<lparr>lh_n := head_n ?h\<rparr>))"
        "\<And>i. i < nat (head_n ?h) \<Longrightarrow> l ! i = head_sec ?h i"
      have s2: "io {?L} ?s2" "held ?s2 bp (log_start s)" "bview ?s2 = bview s" "dirty_secs ?s2 = {}"
        using 1 dirty by simp_all
      show "kwp (brelse bp) Q ?s2"
      proof (rule io_brelse [OF s2(1,2)])
        fix B2
        let ?u = "?s2\<lparr>bufs := B2\<rparr>"
        assume 3: "io ({?L} - {?L}) ?u" "bview ?u = bview ?s2" "dirty_secs ?u = dirty_secs ?s2"
        have e: "?u = s\<lparr>lh_n := head_n ?h, lh_sector := l, bufs := B2\<rparr>"
          by (rule log_st.equality) simp_all
        have "wrote [] (s\<lparr>lh_n := head_n ?h, lh_sector := l\<rparr>) ?u"
          unfolding e by (rule wrote_Nil_bufs) (use 3(1,2) s2(3) in \<open>simp_all add: e\<close>)
        then show "Q () ?u" by (rule Q) (use 3(3) s2(4) 2 in simp_all)
      qed
    qed
    then show "kwp (bdata bp) (\<lambda>d t.
     kwp (kfor [0..<nat (sint (get32 d 0))] (\<lambda>i. set_sector i (get32 d (4 + 4 * i)))) (\<lambda>_. kwp (brelse bp) Q)
       (t\<lparr>lh_n := sint (get32 d 0)\<rparr>)) ?s1"
      using held_data [OF 1(1,2)] 1(3) by (simp add: bdata_def head_n_def head_sec_def)
  qed
  then show ?thesis by (simp add: read_head_def dev)
qed

text \<open>The writes of a recovery from the disk contents \<open>d\<close> with the log at \<open>L\<close>.\<close>

definition redo :: "(nat \<Rightarrow> u8 list) \<Rightarrow> nat \<Rightarrow> (nat \<times> u8 list) list" where
  "redo d L = map (\<lambda>k. (unat (head_sec (d L) k), d (L + k + 1))) [0..<nat (head_n (d L))]"

lemma recover_wp:
  assumes io: "io {} s" and geo: "log_geo s" and dirty: "dirty_secs s = {}"
    and L: "L = unat (log_start s)" and h: "h = bview s L"
    and n: "head_n h < log_size s" "log_size s \<le> int LOGSIZE"
    and home: "\<And>k. k < nat (head_n h) \<Longrightarrow> unat (head_sec h k) < L"
    and Q: "\<And>t l. length l = LOGSIZE \<Longrightarrow>
      wrote (redo (bview s) L @ [(L, head_bytes h 0 l)]) (s\<lparr>lh_sector := l, lh_n := 0\<rparr>) t \<Longrightarrow>
      dirty_secs t = {} \<Longrightarrow> Q () t"
  shows "kwp recover_from_log Q s"
proof -
  have g: "log_dev s = 1" "L < disksize s" "length (lh_sector s) = LOGSIZE"
    using geo by (auto simp: log_geo_def L)
  have nL: "nat (head_n h) \<le> LOGSIZE" "int (nat (head_n h)) < log_size s"
    using n geo by (auto simp: log_geo_def)
  have "kwp read_head (\<lambda>_. kwp install_trans (\<lambda>_ t. kwp write_head Q (t\<lparr>lh_n := 0\<rparr>))) s"
  proof (rule read_head_wp [OF io g(1) _ dirty])
    show "unat (log_start s) < disksize s" "head_n (bview s (unat (log_start s))) \<le> int (length (lh_sector s))"
      using g n L h by auto
    fix t1 l
    assume 1: "wrote [] (s\<lparr>lh_n := head_n (bview s (unat (log_start s))), lh_sector := l\<rparr>) t1" "dirty_secs t1 = {}"
      and "length l = length (lh_sector s)"
      and "\<And>i. i < nat (head_n (bview s (unat (log_start s)))) \<Longrightarrow> l ! i = head_sec (bview s (unat (log_start s))) i"
    then have l: "length l = LOGSIZE" "\<And>i. i < nat (head_n h) \<Longrightarrow> l ! i = head_sec h i"
      using g(3) by (simp_all add: h L)
    note w1 = wrote_log [OF 1(1)] wroteD [OF 1(1)]
    have f: "lh_n t1 = head_n h" "lh_sector t1 = l" "log_start t1 = log_start s" "log_size t1 = log_size s"
      "bview t1 = bview s" by (simp_all add: w1 h L)
    have geo1: "log_geo t1" using geo l(1) by (simp add: w1 log_geo_def)
    show "kwp install_trans (\<lambda>_ t. kwp write_head Q (t\<lparr>lh_n := 0\<rparr>)) t1"
    proof (rule install_trans_wp [OF w1(10) geo1 refl])
      show "nat (lh_n t1) \<le> LOGSIZE" "int (nat (lh_n t1)) < log_size t1" "card (dirty_secs t1) < NBUF"
        "dirty_secs t1 = {} \<or> dirty_secs t1 = set (homes t1) \<and> distinct (homes t1)"
        using nL 1(2) by (simp_all add: f NBUF_def)
      show "unat (lh_sector t1 ! k) < unat (log_start t1)" if "k < nat (lh_n t1)" for k
        using that home l(2) by (simp add: f L)
      fix t2
      assume 2: "wrote (home_writes t1 (nat (lh_n t1)) (bview t1)) t1 t2" "dirty_secs t2 = {}"
      have "home_writes t1 (nat (lh_n t1)) (bview t1) = redo (bview s) L"
        using l(2) by (simp add: home_writes_def redo_def f h L)
      then have w2: "wrote (redo (bview s) L) t1 t2" using 2(1) by simp
      note f2 = wrote_log [OF w2] wroteD [OF w2]
      let ?u = "t2\<lparr>lh_n := 0\<rparr>"
      have "L \<notin> fst ` set (redo (bview s) L)" using home h by (force simp: redo_def)
      then have hL: "bview t2 L = h" by (simp add: f2 f dapply_notin h)
      have W: "wrote (redo (bview s) L) (s\<lparr>lh_sector := l, lh_n := 0\<rparr>) ?u"
        using wrote_lh_n [OF wrote_trans [OF 1(1) w2], of 0] by simp
      show "kwp write_head Q ?u"
      proof (rule write_head_wp)
        show "io {} ?u" "log_geo ?u" "nat (lh_n ?u) \<le> LOGSIZE" "card (dirty_secs ?u) < NBUF"
          "unat (log_start ?u) \<notin> dirty_secs ?u"
          using f2 geo1 2(2) by (auto simp: log_geo_def NBUF_def)
        fix v
        assume 3: "wrote [(unat (log_start ?u), head_bytes (bview ?u (unat (log_start ?u))) (lh_n ?u) (lh_sector ?u))] ?u v"
          "dirty_secs v = dirty_secs ?u"
        then have "wrote [(L, head_bytes h 0 l)] ?u v" using hL by (simp add: f2(4,5) f L)
        from wrote_trans [OF W this] show "Q () v" using 3(2) 2(2) l(1) by (intro Q) simp_all
      qed
    qed
  qed
  then show ?thesis by (simp add: recover_from_log_def)
qed

lemma readsb_wp:
  assumes io: "io H s" and one: "1 < disksize s" "1 \<notin> H" and room: "card (H \<union> dirty_secs s) < NBUF"
    and Q: "\<And>B d. d = bview s 1 \<Longrightarrow> io H (s\<lparr>bufs := B\<rparr>) \<Longrightarrow> bview (s\<lparr>bufs := B\<rparr>) = bview s \<Longrightarrow>
      dirty_secs (s\<lparr>bufs := B\<rparr>) = dirty_secs s \<Longrightarrow> (\<And>j x. held s j x \<Longrightarrow> held (s\<lparr>bufs := B\<rparr>) j x) \<Longrightarrow>
      Q \<lparr>sb_size = get32 d 0, sb_nblocks = get32 d 4, sb_ninodes = get32 d 8, sb_nlog = get32 d 12\<rparr> (s\<lparr>bufs := B\<rparr>)"
  shows "kwp (readsb 1) Q s"
proof -
  let ?sb = "\<lambda>d. \<lparr>sb_size = get32 d 0, sb_nblocks = get32 d 4, sb_ninodes = get32 d 8, sb_nlog = get32 d 12\<rparr>"
  have "kwp (bread 1 1) (\<lambda>bp. kwp (bdata bp) (\<lambda>d. kwp (brelse bp) (\<lambda>_. Q (?sb d)))) s"
  proof (rule io_bread [OF io])
    show "unat (1 :: u32) < disksize s" "unat (1 :: u32) \<notin> H"
      "unat (1 :: u32) \<in> dirty_secs s \<or> card (H \<union> dirty_secs s) < NBUF" using one room by simp_all
    fix bp B
    let ?s1 = "s\<lparr>bufs := B\<rparr>"
    assume 1: "io (insert (unat (1 :: u32)) H) ?s1" "held ?s1 bp 1" "bview ?s1 = bview s" "dirty_secs ?s1 = dirty_secs s"
      "\<And>j x. held s j x \<Longrightarrow> held ?s1 j x"
    have "kwp (brelse bp) (\<lambda>_. Q (?sb (bview s 1))) ?s1"
    proof (rule io_brelse [OF 1(1,2)])
      fix B2
      let ?u = "?s1\<lparr>bufs := B2\<rparr>"
      assume 2: "io (insert (unat (1 :: u32)) H - {unat (1 :: u32)}) ?u" "bview ?u = bview ?s1"
        "dirty_secs ?u = dirty_secs ?s1" "\<And>j x. held ?s1 j x \<Longrightarrow> x \<noteq> 1 \<Longrightarrow> held ?u j x"
      have "insert (unat (1 :: u32)) H - {unat (1 :: u32)} = H" using one(2) by simp
      moreover have "held ?u j x" if "held s j x" for j x
        using 2(4) [OF 1(5) [OF that]] held_in [OF io that] one(2) by (cases "x = 1") auto
      ultimately show "Q (?sb (bview s 1)) ?u"
        using Q [OF refl, of B2] 2(1-3) 1(3,4) by simp
    qed
    then show "kwp (bdata bp) (\<lambda>d. kwp (brelse bp) (\<lambda>_. Q (?sb d))) ?s1"
      using held_data [OF 1(1,2)] 1(3) by (simp add: bdata_def)
  qed
  then show ?thesis by (simp add: readsb_def)
qed

section \<open>Disk images\<close>

text \<open>
  A disk image with \<open>sz\<close> sectors and the log of \<open>lsz\<close> sectors at \<open>L\<close>: the super
  block says so and the log header is one that \<open>write_head\<close> can have written.
  \<open>recovered d L\<close> is what the home sectors hold after recovery.
\<close>

definition image_ok :: "(nat \<Rightarrow> u8 list) \<Rightarrow> nat \<Rightarrow> nat \<Rightarrow> int \<Rightarrow> bool" where
  "image_ok d sz L lsz \<longleftrightarrow> (\<forall>n < sz. length (d n) = BSIZE) \<and> 1 < L \<and> 1 \<le> lsz \<and> lsz \<le> int LOGSIZE
     \<and> L + nat lsz \<le> sz \<and> L + nat lsz < 2 ^ 32
     \<and> L = unat (get32 (d 1) 0 - get32 (d 1) 12) \<and> lsz = sint (get32 (d 1) 12)
     \<and> 0 \<le> head_n (d L) \<and> head_n (d L) < lsz
     \<and> (\<forall>k < nat (head_n (d L)). 2 \<le> unat (head_sec (d L) k) \<and> unat (head_sec (d L) k) < L)"

definition recovered :: "(nat \<Rightarrow> u8 list) \<Rightarrow> nat \<Rightarrow> nat \<Rightarrow> u8 list" where
  "recovered d L = dapply (redo d L) d"

lemma image_okD:
  assumes "image_ok d sz L lsz"
  shows "n < sz \<Longrightarrow> length (d n) = BSIZE" "1 < L" "1 \<le> lsz" "lsz \<le> int LOGSIZE" "L + nat lsz \<le> sz"
    "L + nat lsz < 2 ^ 32" "L = unat (get32 (d 1) 0 - get32 (d 1) 12)" "lsz = sint (get32 (d 1) 12)"
    "0 \<le> head_n (d L)" "head_n (d L) < lsz"
    "k < nat (head_n (d L)) \<Longrightarrow> 2 \<le> unat (head_sec (d L) k)" "k < nat (head_n (d L)) \<Longrightarrow> unat (head_sec (d L) k) < L"
  using assms unfolding image_ok_def by blast+

definition kboot :: "('z log_st_scheme, unit) km" where
  "kboot = kthen binit initlog"

text \<open>
  The state at power-on: whatever is on the disk, the kernel's memory zeroed
  by the loader.
\<close>

definition powered_on :: "'z log_st_scheme \<Rightarrow> bool" where
  "powered_on r \<longleftrightarrow> (\<forall>i. b_flags (bufs r i) = 0) \<and> length (lh_sector r) = LOGSIZE"

lemma kboot_wp:
  assumes on: "powered_on r" and img: "image_ok (memdisk r) (disksize r) L lsz"
    and Q: "\<And>u l B. length l = LOGSIZE \<Longrightarrow>
      wrote (redo (memdisk r) L @ [(L, head_bytes (memdisk r L) 0 l)])
        (r\<lparr>bufs := B, log_start := of_nat L, log_size := lsz, log_dev := 1, lh_sector := l, lh_n := 0\<rparr>) u \<Longrightarrow>
      bview (r\<lparr>bufs := B\<rparr>) = memdisk r \<Longrightarrow> dirty_secs u = {} \<Longrightarrow> Q () u"
  shows "kwp kboot Q r"
proof -
  note I = image_okD [OF img]
  have "kwp binit (\<lambda>_. kwp initlog Q) r"
  proof (rule binit_io)
    show "\<forall>i. b_flags (bufs r i) = 0" using on by (simp add: powered_on_def)
    show "\<forall>n < disksize r. length (memdisk r n) = BSIZE" using I(1) by blast
    fix B
    let ?s = "r\<lparr>bufs := B\<rparr>"
    assume 1: "io {} ?s" "dirty_secs ?s = {}" "bview ?s = memdisk r"
    have "kwp (readsb 1) (\<lambda>sb t. kwp recover_from_log Q (t\<lparr>log_start := sb_size sb - sb_nlog sb,
        log_size := sint (sb_nlog sb), log_dev := 1\<rparr>)) ?s"
    proof (rule readsb_wp [OF 1(1)])
      show "1 < disksize ?s" "1 \<notin> ({} :: nat set)" "card ({} \<union> dirty_secs ?s) < NBUF"
        using I(2,5) 1(2) by (simp_all add: NBUF_def)
      fix B2 d
      let ?t = "?s\<lparr>bufs := B2\<rparr>"
      assume d: "d = bview ?s 1" and 2: "io {} ?t" "bview ?t = bview ?s" "dirty_secs ?t = dirty_secs ?s"
      have d1: "d = memdisk r 1" using d 1(3) by simp
      have start: "get32 d 0 - get32 d 12 = of_nat L" using I(7) d1 by simp
      have sz: "sint (get32 d 12) = lsz" using I(8) d1 by simp
      have Lu: "unat (of_nat L :: u32) = L" using I(6) by (simp add: unat_of_nat32)
      define u where "u = ?t\<lparr>log_start := of_nat L, log_size := lsz, log_dev := 1\<rparr>"
      have "io {} u = io {} ?t" "bview u = bview ?t" "dirty_secs u = dirty_secs ?t"
        by (rule bio_cong; simp add: u_def)+
      then have u: "io {} u" "bview u = memdisk r" "dirty_secs u = {}" "unat (log_start u) = L" "log_size u = lsz"
        using 2 1 Lu by (simp_all add: u_def)
      have geo: "log_geo u"
        using I(3,5,6) on u(4) by (simp add: log_geo_def powered_on_def u_def)
      have "kwp recover_from_log Q u"
      proof (rule recover_wp [OF u(1) geo u(3) refl refl], unfold u(2,4,5))
        show "head_n (memdisk r L) < lsz" "lsz \<le> int LOGSIZE" using I(4,10) by simp_all
        show "unat (head_sec (memdisk r L) k) < L" if "k < nat (head_n (memdisk r L))" for k
          using that I(12) by simp
        fix t l
        assume l: "length l = LOGSIZE" and w: "wrote (redo (memdisk r) L @ [(L, head_bytes (memdisk r L) 0 l)])
          (u\<lparr>lh_sector := l, lh_n := 0\<rparr>) t" and t: "dirty_secs t = {}"
        have "bview (r\<lparr>bufs := B2\<rparr>) = memdisk r" using 2(2) 1(3) by simp
        then show "Q () t" using Q [OF l _ _ t, of B2] w by (simp add: u_def)
      qed
      then show "kwp recover_from_log Q (?t\<lparr>log_start := sb_size \<lparr>sb_size = get32 d 0, sb_nblocks = get32 d 4,
          sb_ninodes = get32 d 8, sb_nlog = get32 d 12\<rparr> - sb_nlog \<lparr>sb_size = get32 d 0, sb_nblocks = get32 d 4,
          sb_ninodes = get32 d 8, sb_nlog = get32 d 12\<rparr>,
        log_size := sint (sb_nlog \<lparr>sb_size = get32 d 0, sb_nblocks = get32 d 4,
          sb_ninodes = get32 d 8, sb_nlog = get32 d 12\<rparr>), log_dev := 1\<rparr>)" by (simp add: start sz u_def)
    qed
    then show "kwp initlog Q ?s"
      by (simp add: initlog_def ROOTDEV_def BSIZE_def LOGSIZE_def MAXOPBLOCKS_def)
  qed
  then show ?thesis by (simp add: kboot_def)
qed

text \<open>Overwriting sectors other than the super block, with a header that is still well formed.\<close>

lemma image_ok_change:
  assumes "image_ok d sz L lsz" and "d' 1 = d 1" and "\<And>n. n < sz \<Longrightarrow> length (d' n) = BSIZE"
    and "0 \<le> head_n (d' L)" "head_n (d' L) < lsz"
    and "\<And>k. k < nat (head_n (d' L)) \<Longrightarrow> 2 \<le> unat (head_sec (d' L) k) \<and> unat (head_sec (d' L) k) < L"
  shows "image_ok d' sz L lsz"
  using assms unfolding image_ok_def by metis

lemma dapply_length:
  "(\<And>n. n < sz \<Longrightarrow> length (f n) = BSIZE) \<Longrightarrow> (\<And>n d. (n, d) \<in> set W \<Longrightarrow> length d = BSIZE) \<Longrightarrow> n < sz \<Longrightarrow>
    length (dapply W f n) = BSIZE"
proof (induction W arbitrary: f)
  case (Cons x W)
  obtain m d where x: "x = (m, d)" by (cases x)
  have "length (dapply W (f(m := d)) n) = BSIZE"
    by (rule Cons.IH) (use Cons.prems x in auto)
  then show ?case using x by simp
qed simp

lemma dapply_take_length:
  "(\<And>n. n < sz \<Longrightarrow> length (f n) = BSIZE) \<Longrightarrow> (\<And>n d. (n, d) \<in> set W \<Longrightarrow> length d = BSIZE) \<Longrightarrow> n < sz \<Longrightarrow>
    length (dapply (take k W) f n) = BSIZE"
  using dapply_length [of sz f "take k W" n] in_set_takeD by metis

lemma dapply_graph: "dapply (map (\<lambda>h. (h, v h)) hs) f x = (if x \<in> set hs then v x else f x)"
  by (induction hs arbitrary: f) auto

lemma head_empty:
  assumes "length h = BSIZE"
  shows "head_n (head_bytes h 0 l) = 0" "length (head_bytes h 0 l) = BSIZE"
  using head_bytes_get(1) [OF assms, of 0 l] head_bytes_length [OF assms, of 0 l]
  by (simp_all add: head_n_def)

lemma redo_cong:
  "d' L = d L \<Longrightarrow> (\<And>k. k < nat (head_n (d L)) \<Longrightarrow> d' (L + k + 1) = d (L + k + 1)) \<Longrightarrow> redo d' L = redo d L"
  by (simp add: redo_def)

lemma recovered_empty: "head_n (d L) = 0 \<Longrightarrow> recovered d L = d"
  by (simp add: recovered_def redo_def)

lemma redo_recovers:
  assumes img: "image_ok d sz L lsz" and W: "W = redo d L @ [(L, head_bytes (d L) 0 l)]"
  shows "image_ok (dapply (take k W) d) sz L lsz"
    and "x < L \<Longrightarrow> recovered (dapply (take k W) d) L x = recovered d L x"
    and "x < L \<Longrightarrow> dapply W d x = recovered d L x"
proof -
  note I = image_okD [OF img]
  let ?R = "redo d L" and ?h0 = "head_bytes (d L) 0 l"
  have Lsz: "L < sz" using I(3,5) by simp
  note h0 = head_empty [OF I(1) [OF Lsz], of l]
  have homes: "2 \<le> n \<and> n < L" if "(n, e) \<in> set ?R" for n e
    using that I(11,12) by (auto simp: redo_def)
  have len: "length e = BSIZE" if "(n, e) \<in> set ?R" for n e
  proof -
    obtain j where "j < nat (head_n (d L))" "e = d (L + j + 1)" using \<open>(n, e) \<in> set ?R\<close> by (auto simp: redo_def)
    then show ?thesis using I(1) [of "L + j + 1"] I(5,9,10) by simp
  qed
  show fin: "dapply W d x = recovered d L x" if "x < L" for x
    using that by (simp add: W recovered_def)
  have part: "dapply (take k ?R) d y = d y" if "y < 2 \<or> L \<le> y" for k y
    by (rule dapply_take_notin) (use homes that in force)
  have lenp: "length (dapply (take k ?R) d n) = BSIZE" if "n < sz" for k n
    by (rule dapply_take_length [OF I(1) len that])
  have "image_ok (dapply (take k W) d) sz L lsz \<and> (\<forall>x < L. recovered (dapply (take k W) d) L x = recovered d L x)"
  proof (cases "k \<le> length ?R")
    case True
    then have t: "take k W = take k ?R" by (simp add: W)
    let ?d = "dapply (take k ?R) d"
    have img': "image_ok ?d sz L lsz"
      by (rule image_ok_change [OF img]) (use part I lenp in auto)
    have "redo ?d L = ?R" by (rule redo_cong) (simp_all add: part)
    then have "recovered ?d L = recovered d L" by (simp add: recovered_def dapply_take)
    then show ?thesis using img' t by simp
  next
    case False
    then have t: "take k W = W" by (simp add: W)
    let ?d = "dapply W d"
    have dL: "?d L = ?h0" by (simp add: W)
    have img': "image_ok ?d sz L lsz"
    proof (rule image_ok_change [OF img])
      show "?d 1 = d 1" using part [of 1 "length ?R"] I(2) by (simp add: W)
      show "length (?d n) = BSIZE" if "n < sz" for n
        using that lenp [of n "length ?R"] h0(2) by (simp add: W)
    qed (use dL h0 I(3) in simp_all)
    have "recovered ?d L = ?d" by (simp add: recovered_def redo_def dL h0(1))
    then show ?thesis using img' t fin by simp
  qed
  then show "image_ok (dapply (take k W) d) sz L lsz"
    and "x < L \<Longrightarrow> recovered (dapply (take k W) d) L x = recovered d L x" by auto
qed

lemma log_inv_image: "log_inv {} s \<Longrightarrow> image_ok (memdisk s) (disksize s) (unat (log_start s)) (log_size s)"
proof -
  assume inv: "log_inv {} s"
  note D = log_invD [OF inv]
  have "head_n (memdisk s (unat (log_start s))) = 0" using D(10) by (simp add: head_n_def)
  then show ?thesis
    using D bcache_invD(2) [OF ioD(1) [OF D(1)]] by (auto simp: image_ok_def log_geo_def)
qed

lemma commit_images:
  assumes inv: "log_inv {} s" and d: "d = dapply (take k (commit_writes s)) (memdisk s)"
    and L: "L = unat (log_start s)"
  shows "image_ok d (disksize s) L (log_size s)
    \<and> (\<forall>x < L. recovered d L x = (if k \<le> nat (lh_n s) then memdisk s x else bview s x))"
proof -
  note D = log_invD [OF inv] and HM = log_inv_homes [OF inv]
  have img: "image_ok (memdisk s) (disksize s) L (log_size s)" using log_inv_image [OF inv] L by simp
  note I = image_okD [OF img]
  let ?n = "nat (lh_n s)" and ?v = "bview s" and ?sz = "disksize s" and ?d0 = "memdisk s"
  let ?W1 = "log_writes s ?n ?v" and ?H1 = "commit_head s" and ?W2 = "map (\<lambda>h. (h, ?v h)) (homes s)"
  let ?H0 = "head_bytes ?H1 0 (lh_sector s)"
  have W: "commit_writes s = ?W1 @ [(L, ?H1)] @ ?W2 @ [(L, ?H0)]" by (simp add: commit_writes_def L)
  have hom: "h < ?sz" "2 \<le> h" "h < L" if "h \<in> set (homes s)" for h
    using I(3,5) D(8) that by (auto simp: L)
  have Lsz: "L < ?sz" using I(3,5) by simp
  have vl: "length (?v n) = BSIZE" if "n < ?sz" for n using io_view_length [OF D(1) that] .
  have n: "?n \<le> LOGSIZE" using HM(3) by simp
  have H1: "length ?H1 = BSIZE" "head_n ?H1 = lh_n s" "\<And>j. j < ?n \<Longrightarrow> head_sec ?H1 j = lh_sector s ! j"
    using head_bytes_length [OF vl [OF Lsz] n] head_bytes_get [OF vl [OF Lsz] n] D(3) HM(3)
    by (simp_all add: commit_head_def head_n_def head_sec_def L sint_of_int32 LOGSIZE_def MAXOPBLOCKS_def)
  note H0 = head_empty [OF H1(1), of "lh_sector s"]
  have len1: "length e = BSIZE" if "(m, e) \<in> set ?W1" for m e
    using that vl HM(6) hom(1) D(7) by (auto simp: log_writes_def)
  have clean: "x \<notin> set (homes s) \<Longrightarrow> ?d0 x = ?v x" for x using io_view_clean [OF D(1)] D(7) by simp
  have low: "dapply (take j ?W1) f x = f x" if "x \<le> L" for j f x
    by (rule dapply_take_notin) (use that L in \<open>auto simp: log_writes_def\<close>)
  let ?e = "(dapply ?W1 ?d0)(L := ?H1)"
  have e: "?e 1 = ?d0 1" "\<And>j. j < ?n \<Longrightarrow> ?e (L + j + 1) = ?v (unat (lh_sector s ! j))"
    "\<And>x. x < L \<Longrightarrow> ?e x = ?d0 x"
    using low [of _ ?n] I(2) log_writes_lookup by (auto simp: L log_writes_def)
  have elen: "length (?e m) = BSIZE" if "m < ?sz" for m
    using that dapply_length [OF I(1) len1] H1(1) by simp
  have w2: "dapply (take j ?W2) f x = f x" if "x < 2 \<or> L \<le> x" for j f x
    by (rule dapply_take_notin) (use that hom in force)
  have w2len: "length (dapply (take j ?W2) ?e m) = BSIZE" if "m < ?sz" for j m
    by (rule dapply_take_length [OF elen _ that]) (use vl hom in auto)
  have full: "dapply ?W2 ?e x = ?v x" if "x < L" for x
    using that e(3) clean by (simp add: dapply_graph)
  consider (a) "k \<le> ?n" | (b) j where "k = Suc (?n + j)" "j \<le> ?n" | (c) "Suc (?n + ?n) < k"
    by (metis add_Suc le_Suc_ex less_Suc_eq_le less_or_eq_imp_le linorder_not_less nat_add_left_cancel_le not_less_eq_eq)
  then show ?thesis
  proof cases
    case a
    then have t: "d = dapply (take k ?W1) ?d0" by (simp add: d W log_writes_def)
    then have dL: "head_n (d L) = 0" using low D(10) by (simp add: head_n_def L)
    have dl: "length (d m) = BSIZE" if "m < ?sz" for m
      unfolding t by (rule dapply_take_length [OF I(1) len1 that])
    have "image_ok d ?sz L (log_size s)"
      by (rule image_ok_change [OF img _ dl]) (use t low I(2) D(3,4) dL in simp_all)
    then show ?thesis using a recovered_empty [of d L, OF dL] low by (simp add: t)
  next
    case b
    then have t: "d = dapply (take j ?W2) ?e" by (simp add: d W log_writes_def HM(1))
    have dL: "d L = ?H1" using w2 [of L] by (simp add: t)
    have "image_ok d ?sz L (log_size s)"
      by (rule image_ok_change [OF img])
        (use t w2 [of 1] e(1) w2len dL H1 D(3,4) HM(6) D(7) hom in auto)
    moreover have "d (L + i + 1) = ?v (unat (lh_sector s ! i))" if "i < ?n" for i
      using w2 [of "L + i + 1" j ?e] e(2) [OF that] by (simp only: t) simp
    then have "redo d L = map (\<lambda>i. (unat (lh_sector s ! i), ?v (unat (lh_sector s ! i)))) [0..<?n]"
      using H1(2,3) by (simp add: redo_def dL)
    then have "redo d L = ?W2" by (simp add: HM(5))
    then have "recovered d L = dapply ?W2 ?e" by (simp add: recovered_def t dapply_take)
    ultimately show ?thesis using b full by simp
  next
    case c
    then have t: "d = (dapply ?W2 ?e)(L := ?H0)" by (simp add: d W log_writes_def HM(1))
    have dL: "head_n (d L) = 0" using H0(1) by (simp add: t)
    have "image_ok d ?sz L (log_size s)"
      by (rule image_ok_change [OF img])
        (use t w2 [of 1 "length ?W2"] e(1) w2len [of _ "length ?W2"] dL H0 I(2,3) in auto)
    then show ?thesis using c recovered_empty [of d L, OF dL] full by (simp add: t)
  qed
qed

lemma log_invI_image:
  assumes "io {} u" "dirty_secs u = {}" "log_geo u" "lh_n u = 0"
    and img: "image_ok (memdisk u) (disksize u) (unat (log_start u)) (log_size u)"
    and h: "head_n (memdisk u (unat (log_start u))) = 0"
  shows "log_inv {} u"
proof -
  have "get32 (memdisk u (unat (log_start u))) 0 = 0" using h by (simp add: head_n_def signed_eq_0_iff)
  then show ?thesis
    using assms image_okD(2-8) [OF img] unfolding log_inv_def by (simp add: homes_def)
qed

section \<open>Inside a transaction\<close>

lemma absorb_notin: "sec \<notin> set xs \<Longrightarrow> absorb sec xs = length xs"
  by (induction xs) auto

lemma absorb_in: "sec \<in> set xs \<Longrightarrow> absorb sec xs < length xs \<and> xs ! absorb sec xs = sec"
  by (induction xs) auto

text \<open>The in-memory header after \<open>log_write\<close> of block \<open>sec\<close>.\<close>

definition logged_n :: "'z log_st_scheme \<Rightarrow> u32 \<Rightarrow> int" where
  "logged_n s sec = (if unat sec \<in> set (homes s) then lh_n s else lh_n s + 1)"

definition logged_sector :: "'z log_st_scheme \<Rightarrow> u32 \<Rightarrow> u32 list" where
  "logged_sector s sec = (if unat sec \<in> set (homes s) then lh_sector s else (lh_sector s)[nat (lh_n s) := sec])"

lemma log_write_eq:
  assumes geo: "log_geo s" and n: "0 \<le> lh_n s" "lh_n s < int LOGSIZE" "lh_n s + 1 < log_size s"
    and out: "1 \<le> log_outstanding s" and sec: "b_sector (bufs s b) = sec"
  shows "kwp (log_write b) Q s = kwp (mark_dirty b) Q (s\<lparr>lh_sector := logged_sector s sec, lh_n := logged_n s sec\<rparr>)"
proof -
  let ?xs = "take (nat (lh_n s)) (lh_sector s)"
  have len: "length ?xs = nat (lh_n s)" "length (lh_sector s) = LOGSIZE"
    using geo n by (auto simp: log_geo_def)
  have mem: "unat sec \<in> set (homes s) \<longleftrightarrow> sec \<in> set ?xs" by (auto simp: homes_def)
  show ?thesis
  proof (cases "sec \<in> set ?xs")
    case True
    note i = absorb_in [OF True]
    then have "absorb sec ?xs < nat (lh_n s)" "lh_sector s ! absorb sec ?xs = sec" using len by auto
    then have e: "(lh_sector s)[absorb sec ?xs := sec] = lh_sector s" "int (absorb sec ?xs) \<noteq> lh_n s"
      "absorb sec ?xs < LOGSIZE"
      using n by (metis list_update_id, auto)
    have "s\<lparr>lh_sector := lh_sector s\<rparr> = s" "s\<lparr>lh_sector := lh_sector s, lh_n := lh_n s\<rparr> = s"
      by (rule log_st.equality; simp)+
    then show ?thesis
      using True mem e len n out sec
      by (simp add: log_write_def set_sector_def logged_sector_def logged_n_def Let_def not_le)
  next
    case False
    then have "absorb sec ?xs = nat (lh_n s)" using absorb_notin len by metis
    moreover have "nat (lh_n s) < LOGSIZE" using n by simp
    ultimately show ?thesis
      using False mem len n out sec
      by (simp add: log_write_def set_sector_def logged_sector_def logged_n_def Let_def not_le)
  qed
qed

lemma homes_logged:
  assumes inv: "log_inv H s" and room: "lh_n s + 1 < log_size s"
  shows "homes (s\<lparr>lh_sector := logged_sector s sec, lh_n := logged_n s sec\<rparr>) =
    (if unat sec \<in> set (homes s) then homes s else homes s @ [unat sec])"
proof -
  have n: "nat (lh_n s) < length (lh_sector s)" "nat (lh_n s + 1) = Suc (nat (lh_n s))"
    using log_invD(2,3,5) [OF inv] room by (auto simp: log_geo_def)
  then show ?thesis
    by (auto simp: homes_def logged_sector_def logged_n_def take_Suc_conv_app_nth)
qed

lemma log_put:
  assumes inv: "log_inv H s" and h: "held s i sec" and d: "length d = BSIZE"
    and sec: "2 \<le> unat sec" "unat sec < unat (log_start s)"
    and out: "1 \<le> log_outstanding s" and room: "lh_n s + 1 < log_size s"
    and Q: "\<And>B n l t. t = s\<lparr>bufs := B, lh_sector := l, lh_n := n\<rparr> \<Longrightarrow> log_inv H t \<Longrightarrow>
      bview t = (bview s)(unat sec := d) \<Longrightarrow> set (homes t) = insert (unat sec) (set (homes s)) \<Longrightarrow>
      n = logged_n s sec \<Longrightarrow> (\<And>j x. held s j x \<Longrightarrow> held t j x) \<Longrightarrow> Q t"
  shows "kwp (set_bdata i d) (\<lambda>_. kwp (log_write i) (\<lambda>_. Q)) s"
proof -
  note D = log_invD [OF inv]
  let ?l = "logged_sector s sec" and ?n = "logged_n s sec"
  have "kwp (set_bdata i d) (\<lambda>_. kwp (mark_dirty i) (\<lambda>_ t. Q (t\<lparr>lh_sector := ?l, lh_n := ?n\<rparr>))) s"
  proof (rule io_put [OF D(1) h d])
    fix B
    let ?s = "s\<lparr>bufs := B\<rparr>"
    let ?t = "s\<lparr>bufs := B, lh_sector := ?l, lh_n := ?n\<rparr>"
    assume 1: "io H ?s" "bview ?s = (bview s)(unat sec := d)" "dirty_secs ?s = insert (unat sec) (dirty_secs s)"
      "\<And>j x. held s j x \<Longrightarrow> held ?s j x"
    have "homes ?t = homes (s\<lparr>lh_sector := ?l, lh_n := ?n\<rparr>)" by (simp add: homes_def)
    then have homes: "homes ?t = (if unat sec \<in> set (homes s) then homes s else homes s @ [unat sec])"
      using homes_logged [OF inv room] by simp
    have "length ?l = LOGSIZE" "0 \<le> ?n" "?n < log_size s"
      using D(2,3,4) room by (auto simp: logged_sector_def logged_n_def log_geo_def)
    then have "log_inv H ?t"
      unfolding log_inv_def using D sec 1(1,3) homes by (auto simp: log_geo_def)
    then show "Q (?s\<lparr>lh_sector := ?l, lh_n := ?n\<rparr>)"
      using 1 homes by (intro Q [where t = ?t, OF refl]) auto
  qed
  moreover have "b_sector (bufs (s\<lparr>bufs := (bufs s)(i := (bufs s i)\<lparr>b_data := d\<rparr>)\<rparr>) i) = sec"
    using h by (simp add: held_def)
  moreover have "logged_sector (s\<lparr>bufs := B\<rparr>) sec = ?l" "logged_n (s\<lparr>bufs := B\<rparr>) sec = ?n" for B
    by (simp_all add: logged_sector_def logged_n_def homes_def)
  ultimately show ?thesis
    using D(2-5) out room
    by (simp add: set_bdata_def log_write_eq mark_dirty_def log_geo_def bufs_commute)
qed

lemma log_inv_frame [simp]:
  "log_inv H (log_outstanding_update f s) = log_inv H s"
  "log_inv H (log_committing_update h s) = log_inv H s"
  by (simp_all add: log_inv_def log_geo_def homes_def)

text \<open>What a commit leaves behind.\<close>

lemma commit_done:
  assumes inv: "log_inv {} s"
    and Q: "\<And>t W. dwrites t = dwrites s @ W \<Longrightarrow> (0 < lh_n s \<Longrightarrow> W = commit_writes s) \<Longrightarrow> (lh_n s = 0 \<Longrightarrow> W = []) \<Longrightarrow>
      log_inv {} t \<Longrightarrow> lh_n t = 0 \<Longrightarrow> log_start t = log_start s \<Longrightarrow> log_size t = log_size s \<Longrightarrow>
      disksize t = disksize s \<Longrightarrow> log_outstanding t = log_outstanding s \<Longrightarrow> log_committing t = log_committing s \<Longrightarrow>
      (\<And>x. x < unat (log_start s) \<Longrightarrow> memdisk t x = bview s x \<and> bview t x = bview s x) \<Longrightarrow> Q () t"
  shows "kwp commit Q s"
proof (cases "0 < lh_n s")
  case True
  show ?thesis
  proof (rule commit_wp [OF inv True])
    fix t
    let ?L = "unat (log_start s)" and ?W = "commit_writes s"
    assume w: "wrote ?W (s\<lparr>lh_n := 0\<rparr>) t" and dirty: "dirty_secs t = {}"
    note f = wrote_log [OF w] wroteD [OF w]
    have mt: "memdisk t = dapply (take (length ?W) ?W) (memdisk s)" using f(12) by simp
    have k: "\<not> length ?W \<le> nat (lh_n s)" by (simp add: commit_writes_def log_writes_def)
    note img = commit_images [OF inv mt refl]
    have "?L < disksize s" using log_invD(2) [OF inv] by (auto simp: log_geo_def)
    then have "length (commit_head s) = BSIZE"
      unfolding commit_head_def using head_bytes_length io_view_length [OF log_invD(1) [OF inv]]
        log_inv_homes(3) [OF inv] less_imp_le by blast
    then have h: "head_n (memdisk t ?L) = 0" using head_empty by (simp add: f(12) commit_writes_def)
    have geo: "log_geo t" using log_invD(2) [OF inv] by (simp add: f log_geo_def)
    have img': "image_ok (memdisk t) (disksize t) (unat (log_start t)) (log_size t)" using img by (simp add: f)
    have it: "log_inv {} t"
      by (rule log_invI_image [OF f(10) dirty geo _ img']) (use h in \<open>simp_all add: f\<close>)
    have mem: "memdisk t x = bview s x" if "x < ?L" for x
      using img k that recovered_empty [of "memdisk t" ?L, OF h] by auto
    then have "bview t x = bview s x" if "x < ?L" for x
      using io_view_clean [OF f(10)] dirty that by simp
    then show "Q () t" using mem it True by (intro Q [of t ?W]) (simp_all add: f)
  qed
next
  case False
  then have n: "lh_n s = 0" "homes s = []" using log_invD(3) [OF inv] by (auto simp: homes_def)
  then have "memdisk s x = bview s x" for x
    using io_view_clean [OF log_invD(1) [OF inv]] log_invD(7) [OF inv] by simp
  then show ?thesis using n inv by (auto simp: commit_def intro!: Q [of s "[]"])
qed

lemma kboot_done:
  assumes on: "powered_on r" and img: "image_ok (memdisk r) (disksize r) L lsz"
    and Q: "\<And>u W l. W = redo (memdisk r) L @ [(L, head_bytes (memdisk r L) 0 l)] \<Longrightarrow> dwrites u = dwrites r @ W \<Longrightarrow>
      memdisk u = dapply W (memdisk r) \<Longrightarrow> log_inv {} u \<Longrightarrow> lh_n u = 0 \<Longrightarrow> unat (log_start u) = L \<Longrightarrow>
      log_size u = lsz \<Longrightarrow> disksize u = disksize r \<Longrightarrow> log_outstanding u = log_outstanding r \<Longrightarrow>
      log_committing u = log_committing r \<Longrightarrow> Q () u"
  shows "kwp kboot Q r"
proof (rule kboot_wp [OF on img])
  fix u l B
  let ?W = "redo (memdisk r) L @ [(L, head_bytes (memdisk r L) 0 l)]"
  let ?r = "r\<lparr>bufs := B, log_start := of_nat L, log_size := lsz, log_dev := 1, lh_sector := l, lh_n := 0\<rparr>"
  assume l: "length l = LOGSIZE" and w: "wrote ?W ?r u" and d: "dirty_secs u = {}"
  note f = wrote_log [OF w] wroteD [OF w] and I = image_okD [OF img]
  have L: "unat (log_start u) = L" using I(6) by (simp add: f unat_of_nat32)
  have mu: "memdisk u = dapply ?W (memdisk r)" by (simp add: f)
  have img': "image_ok (memdisk u) (disksize u) (unat (log_start u)) (log_size u)"
    using redo_recovers(1) [OF img refl, of "length ?W" l] L by (simp add: f)
  have h: "head_n (memdisk u L) = 0"
    using head_empty(1) [OF I(1), of L l] I(3,5) by (simp add: mu)
  have geo: "log_geo u" using I(3,5,6) L l by (simp add: f log_geo_def)
  have "log_inv {} u"
    by (rule log_invI_image [OF f(10) d geo _ img']) (use h L in \<open>simp_all add: f\<close>)
  then show "Q () u" using mu L by (intro Q [where l = l, OF refl]) (simp_all add: f)
qed

text \<open>\<open>begin_op\<close>, on every branch; \<open>end_op\<close> of the last outstanding operation.\<close>

lemma begin_op_eq:
  "begin_op s = (if log_committing s \<or> int LOGSIZE < lh_n s + (log_outstanding s + 1) * int MAXOPBLOCKS
     then Sleep ''log'' else Ok ((), s\<lparr>log_outstanding := log_outstanding s + 1\<rparr>))"
  by (simp add: begin_op_def kdefs)

lemma end_op_done:
  assumes inv: "log_inv {} s" and out: "log_outstanding s = 1" and nc: "\<not> log_committing s"
    and Q: "\<And>t. log_inv {} t \<Longrightarrow> lh_n t = 0 \<Longrightarrow> log_start t = log_start s \<Longrightarrow> log_size t = log_size s \<Longrightarrow>
      log_outstanding t = 0 \<Longrightarrow> \<not> log_committing t \<Longrightarrow>
      (\<And>x. x < unat (log_start s) \<Longrightarrow> memdisk t x = bview s x \<and> bview t x = bview s x) \<Longrightarrow> Q () t"
  shows "kwp end_op Q s"
proof -
  let ?s = "s\<lparr>log_outstanding := 0, log_committing := True\<rparr>"
  have "kwp commit (\<lambda>_ t. Q () (t\<lparr>log_committing := False\<rparr>)) ?s"
    by (rule commit_done) (use inv in \<open>auto intro!: Q\<close>)
  then show ?thesis using out nc by (simp add: end_op_def)
qed

section \<open>Properties\<close>

text \<open>A disk of 64 sectors whose super block puts a log of 30 sectors at sector 34, and one transaction on it.\<close>

definition demo_sb :: "u8 list" where
  "demo_sb = put32 (put32 (replicate BSIZE 0) 0 64) 12 30"

definition demo_log0 :: log_st where
  "demo_log0 = \<lparr>kmem_freelist = 0, kmem_mem = (\<lambda>_. 0), memdisk = (\<lambda>n. if n = 1 then demo_sb else replicate BSIZE 0), disksize = 64, dwrites = [],
     bufs = (\<lambda>_. \<lparr>b_flags = 0, b_dev = 0, b_sector = 0, b_prev = 0, b_next = 0, b_data = []\<rparr>),
     log_start = 0, log_size = 0, log_outstanding = 0, log_committing = False, log_dev = 0,
     lh_n = 0, lh_sector = replicate LOGSIZE 0\<rparr>"

definition demo_run :: "(log_st, unit) km" where
  "demo_run = kthen kboot (kthen begin_op (kbind (bread 1 5) (\<lambda>b.
     kthen (set_bdata b (replicate BSIZE 7)) (kthen (log_write b) (brelse b)))))"

definition demo_log :: log_st where
  "demo_log = (case demo_run demo_log0 of Ok (_, s) \<Rightarrow> s | _ \<Rightarrow> demo_log0)"

lemma demo_image: "image_ok (memdisk demo_log0) 64 34 30"
proof -
  have "get32 demo_sb 0 = 64" "get32 demo_sb 12 = 30" "length demo_sb = BSIZE"
    by (simp_all add: demo_sb_def BSIZE_def get32_put32 get32_put32_other)
  then show ?thesis
    by (auto simp: image_ok_def demo_log0_def LOGSIZE_def MAXOPBLOCKS_def head_n_def get32_replicate_0 BSIZE_def)
qed

lemma demo_on: "powered_on demo_log0"
  by (simp add: powered_on_def demo_log0_def)

lemma demo_run_ok:
  "kwp demo_run (\<lambda>_ t. log_inv {} t \<and> lh_n t = 1 \<and> unat (log_start t) = 34 \<and> log_size t = 30 \<and> disksize t = 64
     \<and> log_outstanding t = 1 \<and> \<not> log_committing t \<and> memdisk t 5 = replicate 512 0 \<and> bview t 5 = replicate 512 7) demo_log0"
    (is "kwp _ (\<lambda>_. ?P) _")
proof -
  have sz: "disksize demo_log0 = 64" by (simp add: demo_log0_def)
  have five: "unat (5 :: u32) = 5" by simp
  let ?rest = "kbind (bread 1 5) (\<lambda>b. kthen (set_bdata b (replicate BSIZE 7)) (kthen (log_write b) (brelse b)))"
  have "kwp kboot (\<lambda>_. kwp begin_op (\<lambda>_. kwp ?rest (\<lambda>_. ?P))) demo_log0"
  proof (rule kboot_done [OF demo_on])
    show "image_ok (memdisk demo_log0) (disksize demo_log0) 34 30" using demo_image sz by simp
    fix u :: log_st and W l
    assume W: "W = redo (memdisk demo_log0) 34 @ [(34, head_bytes (memdisk demo_log0 34) 0 l)]"
      and u: "memdisk u = dapply W (memdisk demo_log0)" "log_inv {} u" "lh_n u = 0" "unat (log_start u) = 34"
        "log_size u = 30" "disksize u = disksize demo_log0" "log_outstanding u = log_outstanding demo_log0"
        "log_committing u = log_committing demo_log0"
    have m5: "memdisk u 5 = replicate 512 0"
      by (simp add: u(1) W redo_def demo_log0_def head_n_def get32_replicate_0 BSIZE_def)
    let ?s = "u\<lparr>log_outstanding := 1\<rparr>"
    have s: "log_inv {} ?s" "io {} ?s" using u(2) log_invD(1) [OF u(2)] by simp_all
    have dirty: "dirty_secs ?s = {}" using log_invD(7) [OF u(2)] u(3) by (simp add: homes_def)
    have "kwp ?rest (\<lambda>_. ?P) ?s"
      unfolding kwp_bind kwp_then
    proof (rule io_bread [OF s(2)])
      show "unat (5 :: u32) < disksize ?s" "unat (5 :: u32) \<notin> {}"
        "unat (5 :: u32) \<in> dirty_secs ?s \<or> card ({} \<union> dirty_secs ?s) < NBUF"
        using u(6) sz dirty by (simp_all add: NBUF_def)
      fix b B
      let ?s1 = "?s\<lparr>bufs := B\<rparr>"
      assume 1: "io (insert (unat (5 :: u32)) {}) ?s1" "held ?s1 b 5" "bview ?s1 = bview ?s"
        "dirty_secs ?s1 = dirty_secs ?s"
      have i1: "log_inv {5} ?s1"
        using s(1) 1 unfolding log_inv_def by (auto simp: log_geo_def homes_def)
      show "kwp (set_bdata b (replicate BSIZE 7)) (\<lambda>_. kwp (log_write b) (\<lambda>_. kwp (brelse b) (\<lambda>_. ?P))) ?s1"
      proof (rule log_put [OF i1 1(2)])
        fix B2 n l2 t
        assume t: "t = ?s1\<lparr>bufs := B2, lh_sector := l2, lh_n := n\<rparr>" "log_inv {5} t"
          "bview t = (bview ?s1)(unat (5 :: u32) := replicate BSIZE 7)" "n = logged_n ?s1 5"
          "\<And>j x. held ?s1 j x \<Longrightarrow> held t j x"
        have n: "n = 1" using u(3) by (simp add: t(4) logged_n_def homes_def)
        show "kwp (brelse b) (\<lambda>_. ?P) t"
        proof (rule io_brelse [OF log_invD(1) [OF t(2)] t(5) [OF 1(2)]])
          fix B3
          let ?u = "t\<lparr>bufs := B3\<rparr>"
          assume 3: "io ({5} - {unat (5 :: u32)}) ?u" "bview ?u = bview t" "dirty_secs ?u = dirty_secs t"
          have "log_inv {} ?u"
            using t(2) 3 unfolding log_inv_def by (auto simp: log_geo_def homes_def)
          then show "?P ?u" using 3(2) t(3) n u m5 sz by (simp add: t(1) BSIZE_def demo_log0_def)
        qed
      qed (use u in \<open>simp_all add: five\<close>)
    qed
    then show "kwp begin_op (\<lambda>_. kwp ?rest (\<lambda>_. ?P)) u"
      using u by (simp add: kwp_def begin_op_eq demo_log0_def LOGSIZE_def MAXOPBLOCKS_def)
  qed
  then show ?thesis by (simp add: demo_run_def)
qed

lemma demo_log_inv:
  "log_inv {} demo_log" "lh_n demo_log = 1" "unat (log_start demo_log) = 34" "log_size demo_log = 30"
  "disksize demo_log = 64" "log_outstanding demo_log = 1" "\<not> log_committing demo_log"
  "memdisk demo_log 5 = replicate 512 0" "bview demo_log 5 = replicate 512 7"
  using demo_run_ok by (auto simp: kwp_Ok demo_log_def)

text \<open>
  C1: Commit is atomic with respect to crashes. From any state between
  operations with a transaction in the log, \<open>commit\<close> returns with every home
  sector holding the transaction's contents; and if the power fails after any
  number \<open>k\<close> of its sector writes, the next boot recovers a disk on which
  either every home sector is as before the transaction (when the header had
  not been written, \<open>k \<le> n\<close>) or every one is as the transaction left it.
\<close>

theorem commit_crash_atomic:
  fixes s :: "'z log_st_scheme"
  assumes inv: "log_inv {} s"
  shows "\<exists>t. commit s = Ok ((), t) \<and> log_inv {} t \<and> lh_n t = 0
    \<and> (\<forall>x. x < unat (log_start s) \<longrightarrow> memdisk t x = bview s x)
    \<and> (\<forall>k (r :: 'z log_st_scheme). powered_on r \<longrightarrow> disksize r = disksize s \<longrightarrow>
          memdisk r = dapply (take k (drop (length (dwrites s)) (dwrites t))) (memdisk s) \<longrightarrow>
          (\<exists>u. kboot r = Ok ((), u) \<and> log_inv {} u \<and> (\<forall>x. x < unat (log_start s) \<longrightarrow>
             memdisk u x = (if k \<le> nat (lh_n s) then memdisk s x else bview s x))))"
proof -
  let ?L = "unat (log_start s)"
  have boots: "\<exists>u. kboot r = Ok ((), u) \<and> log_inv {} u \<and> (\<forall>x. x < ?L \<longrightarrow> memdisk u x = c x)"
    if "powered_on r" "disksize r = disksize s" "image_ok (memdisk r) (disksize s) ?L (log_size s)"
      "\<forall>x < ?L. recovered (memdisk r) ?L x = c x" for r :: "'z log_st_scheme" and c
  proof -
    have "kwp kboot (\<lambda>_ u. log_inv {} u \<and> (\<forall>x. x < ?L \<longrightarrow> memdisk u x = c x)) r"
      by (rule kboot_done [OF that(1), of ?L "log_size s"])
        (use that redo_recovers(3) [OF that(3) refl] in auto)
    then show ?thesis by (simp add: kwp_Ok)
  qed
  have clean: "lh_n s = 0 \<Longrightarrow> bview s x = memdisk s x" for x
    using io_view_clean [OF log_invD(1) [OF inv]] log_invD(7) [OF inv] by (simp add: homes_def)
  have "kwp commit (\<lambda>_ t. log_inv {} t \<and> lh_n t = 0 \<and> (\<forall>x. x < ?L \<longrightarrow> memdisk t x = bview s x)
    \<and> (\<forall>k (r :: 'z log_st_scheme). powered_on r \<longrightarrow> disksize r = disksize s \<longrightarrow>
          memdisk r = dapply (take k (drop (length (dwrites s)) (dwrites t))) (memdisk s) \<longrightarrow>
          (\<exists>u. kboot r = Ok ((), u) \<and> log_inv {} u \<and> (\<forall>x. x < ?L \<longrightarrow>
             memdisk u x = (if k \<le> nat (lh_n s) then memdisk s x else bview s x))))) s"
  proof (rule commit_done [OF inv], intro conjI allI impI)
    fix t W k and r :: "'z log_st_scheme"
    assume W: "dwrites t = dwrites s @ W" "0 < lh_n s \<Longrightarrow> W = commit_writes s" "lh_n s = 0 \<Longrightarrow> W = []"
      and r: "powered_on r" "disksize r = disksize s"
        "memdisk r = dapply (take k (drop (length (dwrites s)) (dwrites t))) (memdisk s)"
    have mr: "memdisk r = dapply (take k W) (memdisk s)" using r(3) W(1) by simp
    have "image_ok (memdisk r) (disksize s) ?L (log_size s) \<and> (\<forall>x < ?L.
      recovered (memdisk r) ?L x = (if k \<le> nat (lh_n s) then memdisk s x else bview s x))"
    proof (cases "0 < lh_n s")
      case True
      then show ?thesis using commit_images [OF inv _ refl, of "memdisk r" k] mr W(2) by simp
    next
      case False
      then have n: "lh_n s = 0" using log_invD(3) [OF inv] by simp
      then have m: "memdisk r = memdisk s" using mr W(3) by simp
      have "head_n (memdisk s ?L) = 0" using log_invD(10) [OF inv] by (simp add: head_n_def)
      from recovered_empty [of "memdisk s" ?L, OF this] show ?thesis
        using log_inv_image [OF inv] clean [OF n] by (simp add: m)
    qed
    then show "\<exists>u. kboot r = Ok ((), u) \<and> log_inv {} u \<and> (\<forall>x. x < ?L \<longrightarrow>
      memdisk u x = (if k \<le> nat (lh_n s) then memdisk s x else bview s x))"
      using boots [OF r(1,2), where c = "\<lambda>x. if k \<le> nat (lh_n s) then memdisk s x else bview s x"] by simp
  qed auto
  then show ?thesis by (simp add: kwp_Ok)
qed

theorem commit_crash_atomic_witness:
  "\<exists>t. commit demo_log = Ok ((), t) \<and> memdisk t 5 = replicate 512 7
    \<and> (\<exists>u. kboot (demo_log0\<lparr>memdisk := dapply (take 1 (drop (length (dwrites demo_log)) (dwrites t))) (memdisk demo_log)\<rparr>)
          = Ok ((), u) \<and> memdisk u 5 = replicate 512 0)
    \<and> (\<exists>u. kboot (demo_log0\<lparr>memdisk := dapply (take 2 (drop (length (dwrites demo_log)) (dwrites t))) (memdisk demo_log)\<rparr>)
          = Ok ((), u) \<and> memdisk u 5 = replicate 512 7)"
proof -
  have on: "powered_on (demo_log0\<lparr>memdisk := m\<rparr>)" "disksize (demo_log0\<lparr>memdisk := m\<rparr>) = disksize demo_log" for m
    using demo_on demo_log_inv(5) by (simp_all add: powered_on_def demo_log0_def)
  have five: "5 < unat (log_start demo_log)" by (simp add: demo_log_inv(3))
  obtain t where t: "commit demo_log = Ok ((), t)"
    "\<forall>x. x < unat (log_start demo_log) \<longrightarrow> memdisk t x = bview demo_log x"
    "\<forall>k (r :: log_st). powered_on r \<longrightarrow> disksize r = disksize demo_log \<longrightarrow>
       memdisk r = dapply (take k (drop (length (dwrites demo_log)) (dwrites t))) (memdisk demo_log) \<longrightarrow>
       (\<exists>u. kboot r = Ok ((), u) \<and> log_inv {} u \<and> (\<forall>x. x < unat (log_start demo_log) \<longrightarrow>
          memdisk u x = (if k \<le> nat (lh_n demo_log) then memdisk demo_log x else bview demo_log x)))"
    using commit_crash_atomic [OF demo_log_inv(1)] by blast
  have boot: "\<exists>u. kboot (demo_log0\<lparr>memdisk := dapply (take k (drop (length (dwrites demo_log)) (dwrites t))) (memdisk demo_log)\<rparr>)
      = Ok ((), u) \<and> memdisk u 5 = (if k \<le> 1 then memdisk demo_log 5 else bview demo_log 5)" for k
    using t(3) [rule_format, of "demo_log0\<lparr>memdisk := dapply (take k (drop (length (dwrites demo_log)) (dwrites t)))
      (memdisk demo_log)\<rparr>" k] on five demo_log_inv(2) by auto
  show ?thesis
    using t(1,2) five boot [of 1] boot [of 2] demo_log_inv(8,9) by simp
qed

text \<open>
  C6: Recovery survives crashes of its own. Booting from a disk image with
  a well-formed log header returns, with the home sectors as the header
  prescribes and the log empty; and after any prefix of the writes of that
  boot the image is again one from which a boot recovers the same contents.
\<close>

theorem recovery_idempotent:
  assumes "powered_on r" "image_ok (memdisk r) (disksize r) L lsz"
  shows "\<exists>u W. kboot r = Ok ((), u) \<and> log_inv {} u \<and> lh_n u = 0 \<and> dwrites u = dwrites r @ W
    \<and> memdisk u = dapply W (memdisk r) \<and> (\<forall>x. x < L \<longrightarrow> memdisk u x = recovered (memdisk r) L x)
    \<and> (\<forall>k. image_ok (dapply (take k W) (memdisk r)) (disksize r) L lsz
         \<and> (\<forall>x. x < L \<longrightarrow> recovered (dapply (take k W) (memdisk r)) L x = recovered (memdisk r) L x))"
proof -
  have "kwp kboot (\<lambda>_ u. \<exists>W. log_inv {} u \<and> lh_n u = 0 \<and> dwrites u = dwrites r @ W
    \<and> memdisk u = dapply W (memdisk r) \<and> (\<forall>x. x < L \<longrightarrow> memdisk u x = recovered (memdisk r) L x)
    \<and> (\<forall>k. image_ok (dapply (take k W) (memdisk r)) (disksize r) L lsz
         \<and> (\<forall>x. x < L \<longrightarrow> recovered (dapply (take k W) (memdisk r)) L x = recovered (memdisk r) L x))) r"
  proof (rule kboot_done [OF assms], rule exI, intro conjI allI impI)
    fix u W l x k
    assume W: "W = redo (memdisk r) L @ [(L, head_bytes (memdisk r L) 0 l)]" and u: "memdisk u = dapply W (memdisk r)"
    show "image_ok (dapply (take k W) (memdisk r)) (disksize r) L lsz" using redo_recovers(1) [OF assms(2) W] .
    show "recovered (dapply (take k W) (memdisk r)) L x = recovered (memdisk r) L x" if "x < L"
      using redo_recovers(2) [OF assms(2) W that] .
    show "memdisk u x = recovered (memdisk r) L x" if "x < L"
      using redo_recovers(3) [OF assms(2) W that] u by simp
  qed assumption+
  then show ?thesis by (simp add: kwp_Ok)
qed

theorem recovery_idempotent_witness:
  "\<exists>u W. kboot demo_log0 = Ok ((), u) \<and> log_inv {} u \<and> memdisk u = dapply W (memdisk demo_log0)"
  using recovery_idempotent [OF demo_on, of 34 30] demo_image by (auto simp: demo_log0_def)

section \<open>Admission of operations\<close>

text \<open>
  System calls of different processes interleave. A step of the log is one
  call of \<open>begin_op\<close>, \<open>log_write\<close> or \<open>end_op\<close>, or other code that does not
  touch the log's bookkeeping. The second component records, for each
  operation between its \<open>begin_op\<close> and \<open>end_op\<close>, how many times it has called
  \<open>log_write\<close>; the contract of \<open>param.h\<close> is at most \<open>MAXOPBLOCKS\<close> times.
\<close>

inductive log_step :: "'z log_st_scheme \<times> (nat \<rightharpoonup> nat) \<Rightarrow> 'z log_st_scheme \<times> (nat \<rightharpoonup> nat) \<Rightarrow> bool" where
  step_begin: "begin_op s = Ok ((), t) \<Longrightarrow> u j = None \<Longrightarrow> log_step (s, u) (t, u(j \<mapsto> 0))"
| step_write: "log_write b s = Ok ((), t) \<Longrightarrow> u j = Some k \<Longrightarrow> k < MAXOPBLOCKS \<Longrightarrow>
    log_step (s, u) (t, u(j \<mapsto> Suc k))"
| step_end: "end_op s = Ok ((), t) \<Longrightarrow> u j = Some k \<Longrightarrow> log_step (s, u) (t, u(j := None))"
| step_other: "lh_n t = lh_n s \<Longrightarrow> log_outstanding t = log_outstanding s \<Longrightarrow> log_step (s, u) (t, u)"

definition reserved :: "(nat \<rightharpoonup> nat) \<Rightarrow> nat" where
  "reserved u = (\<Sum>j \<in> dom u. MAXOPBLOCKS - the (u j))"

definition adm_inv :: "'z log_st_scheme \<times> (nat \<rightharpoonup> nat) \<Rightarrow> bool" where
  "adm_inv su = (case su of (s, u) \<Rightarrow> finite (dom u) \<and> log_outstanding s = int (card (dom u)) \<and> 0 \<le> lh_n s
     \<and> lh_n s + int (reserved u) \<le> int LOGSIZE)"

lemma reserved_upd:
  assumes "finite (dom u)"
  shows "u j = None \<Longrightarrow> reserved (u(j \<mapsto> 0)) = reserved u + MAXOPBLOCKS"
    and "u j = Some k \<Longrightarrow> k < MAXOPBLOCKS \<Longrightarrow> Suc (reserved (u(j \<mapsto> Suc k))) = reserved u"
    and "u j = Some k \<Longrightarrow> reserved (u(j := None)) \<le> reserved u"
proof -
  have out: "(\<Sum>i \<in> D. MAXOPBLOCKS - the ((u(j := v)) i)) = (\<Sum>i \<in> D. MAXOPBLOCKS - the (u i))"
    if "j \<notin> D" for v D
    using that by (intro sum.cong) auto
  show "reserved (u(j \<mapsto> 0)) = reserved u + MAXOPBLOCKS" if "u j = None"
    using that assms out [of "dom u"] by (simp add: reserved_def domIff)
  have split: "reserved u = (MAXOPBLOCKS - k) + (\<Sum>i \<in> dom u - {j}. MAXOPBLOCKS - the (u i))" if "u j = Some k" for k
    using that assms by (simp add: reserved_def sum.remove [of _ j] domI)
  show "Suc (reserved (u(j \<mapsto> Suc k))) = reserved u" if "u j = Some k" "k < MAXOPBLOCKS"
  proof -
    have d: "dom (u(j \<mapsto> Suc k)) = insert j (dom u - {j})" using that(1) by auto
    have "reserved (u(j \<mapsto> Suc k)) = (MAXOPBLOCKS - Suc k) + (\<Sum>i \<in> dom u - {j}. MAXOPBLOCKS - the (u i))"
      unfolding reserved_def d using assms out [of "dom u - {j}" "Some (Suc k)"] by (subst sum.insert) simp_all
    then show ?thesis using that split [OF that(1)] by simp
  qed
  show "reserved (u(j := None)) \<le> reserved u" if "u j = Some k"
    using split [OF that] out [of "dom u - {j}" None] by (simp add: reserved_def)
qed

lemma log_write_counts:
  assumes "log_write b s = Ok ((), t)"
  shows "lh_n s \<le> lh_n t" "lh_n t \<le> lh_n s + 1" "log_outstanding t = log_outstanding s"
  using assms
  by (auto simp: log_write_def set_sector_def mark_dirty_def Let_def kdefs split: if_splits)

lemma commit_lh_n:
  "commit s = Ok ((), t) \<Longrightarrow> lh_n t = (if 0 < lh_n s then 0 else lh_n s) \<and> log_outstanding t = log_outstanding s"
proof -
  assume a: "commit s = Ok ((), t)"
  have p: "kpres (\<lambda>s. (lh_n s, log_outstanding s)) write_log" "kpres (\<lambda>s. (lh_n s, log_outstanding s)) install_trans"
    "kpres (\<lambda>s. (lh_n s, log_outstanding s)) write_head"
    unfolding write_log_def install_trans_def write_head_def log_block_def home_block_def get_sector_def
    by (intro kpres_intros; simp)+
  show ?thesis
  proof (cases "0 < lh_n s")
    case True
    then have "kthen write_log (kthen write_head (kthen install_trans
       (kthen (kmod (\<lambda>s. s\<lparr>lh_n := 0\<rparr>)) write_head))) s = Ok ((), t)"
      using a by (simp add: commit_def kbind_def kget_def)
    then show ?thesis
      using True p by (fastforce simp: kthen_def kbind_def kmod_def kpres_def split: res.splits)
  next
    case False
    then show ?thesis using a by (simp add: commit_def kdefs)
  qed
qed

lemma end_op_counts:
  assumes "end_op s = Ok ((), t)" "0 \<le> lh_n s"
  shows "lh_n t \<le> lh_n s" "0 \<le> lh_n t" "log_outstanding t = log_outstanding s - 1"
  using assms commit_lh_n [of "s\<lparr>log_outstanding := log_outstanding s - 1, log_committing := True\<rparr>"]
  by (auto simp: end_op_def kdefs split: if_splits res.splits)

lemma log_step_inv: "log_step su tu \<Longrightarrow> adm_inv su \<Longrightarrow> adm_inv tu"
proof (induction rule: log_step.induct)
  case (step_begin s t u j)
  have fin: "finite (dom u)" using step_begin.prems by (simp add: adm_inv_def)
  have "reserved u \<le> card (dom u) * MAXOPBLOCKS"
    unfolding reserved_def using sum_bounded_above [of "dom u" "\<lambda>j. MAXOPBLOCKS - the (u j)" MAXOPBLOCKS] by simp
  then have "int (reserved u) \<le> int (card (dom u)) * int MAXOPBLOCKS" by (metis of_nat_le_iff of_nat_mult)
  then show ?case
    using step_begin reserved_upd(1) [OF fin step_begin(2)]
    by (auto simp: adm_inv_def begin_op_eq domIff algebra_simps split: if_splits)
next
  case (step_write b s t u j k)
  then have fin: "finite (dom u)" by (simp add: adm_inv_def)
  have "insert j (dom u) = dom u" using step_write(2) by auto
  then show ?case
    using step_write log_write_counts [OF step_write(1)] reserved_upd(2) [OF fin step_write(2,3)]
    by (auto simp: adm_inv_def)
next
  case (step_end s t u j k)
  then have fin: "finite (dom u)" and n: "0 \<le> lh_n s" by (auto simp: adm_inv_def)
  have "card (dom u) = Suc (card (dom u - {j}))" using fin step_end(2) by (metis card.remove domI)
  then show ?case
    using step_end end_op_counts [OF step_end(1) n] reserved_upd(3) [OF fin step_end(2)]
    by (auto simp: adm_inv_def)
qed (simp add: adm_inv_def)

lemma log_steps_inv: "log_step\<^sup>*\<^sup>* su tu \<Longrightarrow> adm_inv su \<Longrightarrow> adm_inv tu"
  by (induction rule: rtranclp_induct) (auto intro: log_step_inv)

lemma reserved_le:
  assumes "finite (dom u)" "u j = Some k"
  shows "MAXOPBLOCKS - k \<le> reserved u"
proof -
  have "(\<Sum>i \<in> {j}. MAXOPBLOCKS - the (u i)) \<le> reserved u"
    unfolding reserved_def using assms by (intro sum_mono2) (auto intro: domI)
  then show ?thesis using assms(2) by simp
qed


text \<open>A log whose buffers carry pairwise different sectors, with \<open>nlog\<close> sectors.\<close>

definition adm0 :: "int \<Rightarrow> log_st" where
  "adm0 nlog = demo_log0\<lparr>log_size := nlog,
     bufs := (\<lambda>b. \<lparr>b_flags = 3, b_dev = 1, b_sector = of_nat b, b_prev = 0, b_next = 0, b_data = []\<rparr>)\<rparr>"

definition adm_at :: "int \<Rightarrow> nat \<Rightarrow> log_st \<Rightarrow> bool" where
  "adm_at nlog k t \<longleftrightarrow> lh_n t = int k \<and> log_outstanding t = 3 \<and> log_size t = nlog \<and> length (lh_sector t) = LOGSIZE
     \<and> take k (lh_sector t) = map of_nat [0..<k] \<and> (\<forall>b. b_sector (bufs t b) = of_nat b)"

definition adm_used :: "nat \<Rightarrow> nat \<rightharpoonup> nat" where
  "adm_used k = (\<lambda>j. if j < 3 then Some (min 10 (k - 10 * j)) else None)"

lemma adm_write:
  assumes at: "adm_at nlog k t" and k: "k < 30" "int k + 1 < nlog"
  shows "\<exists>t'. log_write k t = Ok ((), t') \<and> adm_at nlog (Suc k) t'"
proof -
  have "(of_nat k :: u32) \<notin> set (map of_nat [0..<k])"
  proof
    assume "(of_nat k :: u32) \<in> set (map of_nat [0..<k])"
    then obtain i where "i < k" "(of_nat k :: u32) = of_nat i" by auto
    then show False using k unat_of_nat32 [of k] unat_of_nat32 [of i] by simp
  qed
  then have "absorb (of_nat k) (take k (lh_sector t)) = k"
    using at absorb_notin by (metis adm_at_def length_map length_upt diff_zero)
  then show ?thesis
    using at k
    by (auto simp: adm_at_def log_write_def set_sector_def mark_dirty_def kdefs Let_def LOGSIZE_def MAXOPBLOCKS_def
        take_Suc_conv_app_nth)
qed

lemma adm_used_at:
  assumes "q < 3" "r < 10"
  shows "adm_used (Suc (10 * q + r)) = (adm_used (10 * q + r))(q \<mapsto> Suc r)" "adm_used (10 * q + r) q = Some r"
proof -
  have "adm_used (Suc (10 * q + r)) j = ((adm_used (10 * q + r))(q \<mapsto> Suc r)) j" for j
    using assms by (auto simp: adm_used_def min_def)
  then show "adm_used (Suc (10 * q + r)) = (adm_used (10 * q + r))(q \<mapsto> Suc r)" by (rule ext)
qed (use assms in \<open>simp add: adm_used_def\<close>)

lemma adm_used_Suc:
  assumes "k < 30"
  shows "adm_used (Suc k) = (adm_used k)(k div 10 \<mapsto> Suc (k mod 10))" "adm_used k (k div 10) = Some (k mod 10)"
  using adm_used_at [of "k div 10" "k mod 10"] assms by simp_all

lemma adm_reach0: "\<exists>t. log_step\<^sup>*\<^sup>* (adm0 nlog, Map.empty) (t, adm_used 0) \<and> adm_at nlog 0 t"
proof -
  let ?o = "\<lambda>n. (adm0 nlog)\<lparr>log_outstanding := n\<rparr>"
  have ok: "begin_op (?o n) = Ok ((), ?o (n + 1))" if "n \<le> 2" for n
    using that by (simp add: begin_op_eq adm0_def demo_log0_def LOGSIZE_def MAXOPBLOCKS_def)
  have o0: "adm0 nlog = ?o 0" by (simp add: adm0_def demo_log0_def)
  have "log_step (?o 0, Map.empty) (?o 1, [0 \<mapsto> 0])" "log_step (?o 1, [0 \<mapsto> 0]) (?o 2, [0 \<mapsto> 0, 1 \<mapsto> 0])"
    "log_step (?o 2, [0 \<mapsto> 0, 1 \<mapsto> 0]) (?o 3, [0 \<mapsto> 0, 1 \<mapsto> 0, 2 \<mapsto> 0])"
    using ok [of 0] ok [of 1] ok [of 2] by (simp_all add: step_begin)
  then have "log_step\<^sup>*\<^sup>* (adm0 nlog, Map.empty) (?o 3, [0 \<mapsto> 0, 1 \<mapsto> 0, 2 \<mapsto> 0])"
    unfolding o0 [symmetric] by (blast intro: rtranclp.intros)
  moreover have "[0 \<mapsto> 0, 1 \<mapsto> 0, 2 \<mapsto> 0] = adm_used 0" by (auto simp: adm_used_def fun_eq_iff)
  moreover have "adm_at nlog 0 (?o 3)" by (simp add: adm_at_def adm0_def demo_log0_def)
  ultimately show ?thesis by auto
qed

lemma adm_reach:
  "k \<le> 30 \<Longrightarrow> int k < nlog \<Longrightarrow>
    \<exists>t. log_step\<^sup>*\<^sup>* (adm0 nlog, Map.empty) (t, adm_used k) \<and> adm_at nlog k t"
proof (induction k)
  case 0
  then show ?case using adm_reach0 by simp
next
  case (Suc k)
  then obtain t where t: "log_step\<^sup>*\<^sup>* (adm0 nlog, Map.empty) (t, adm_used k)" "adm_at nlog k t" by auto
  obtain t' where t': "log_write k t = Ok ((), t')" "adm_at nlog (Suc k) t'"
    using adm_write [OF t(2)] Suc.prems by auto
  have "log_step (t, adm_used k) (t', adm_used (Suc k))"
    using step_write [OF t'(1), of "adm_used k" "k div 10" "k mod 10"] adm_used_Suc [of k] Suc.prems
    by (simp add: MAXOPBLOCKS_def)
  then show ?case using t t' by (meson rtranclp.rtrancl_into_rtrancl)
qed


text \<open>
  C34: The file system that \<open>mkfs\<close> builds gives the log only \<open>LOGSIZE\<close>
  sectors, header included. There the reservation does not protect: three
  admitted operations reach a state where an operation that has logged only
  nine blocks makes \<open>log_write\<close> panic.
\<close>

theorem mkfs_log_too_small:
  "\<exists>s u. log_step\<^sup>*\<^sup>* (adm0 (int LOGSIZE), Map.empty) (s, u) \<and> u 2 = Some 9 \<and> 9 < MAXOPBLOCKS
     \<and> log_write 29 s = Panic ''too big a transaction''"
proof -
  obtain s where s: "log_step\<^sup>*\<^sup>* (adm0 (int LOGSIZE), Map.empty) (s, adm_used 29)" "adm_at (int LOGSIZE) 29 s"
    using adm_reach [of 29 "int LOGSIZE"] by (auto simp: LOGSIZE_def MAXOPBLOCKS_def)
  have "log_write 29 s = Panic ''too big a transaction''"
    using s(2) by (simp add: adm_at_def log_write_def kdefs LOGSIZE_def MAXOPBLOCKS_def)
  moreover have "adm_used 29 2 = Some 9" by (simp add: adm_used_def)
  ultimately show ?thesis using s(1) by (auto simp: MAXOPBLOCKS_def)
qed

end
