(* ===== verification/Blocks.thy ===== *)
theory Blocks
  imports Log
begin

text \<open>
  The block allocator of \<open>fs.c\<close>: a bitmap on disk with one bit per block.
  Shown here: inside a transaction \<open>balloc\<close> hands out the first free block,
  zeroed and marked, and changes nothing else; \<open>bfree\<close> undoes the marking, and
  freeing a free block panics.
\<close>

section \<open>Operations\<close>

definition IPB :: nat where "IPB = 8"
definition BPB :: nat where "BPB = BSIZE * 8"

definition IBLOCK :: "nat \<Rightarrow> nat" where "IBLOCK i = i div IPB + 2"
definition BBLOCK :: "nat \<Rightarrow> nat \<Rightarrow> nat" where "BBLOCK b ninodes = b div BPB + ninodes div IPB + 3"

text \<open>Bit \<open>bi\<close> of a bitmap block: \<open>bp->data[bi/8] & (1 << (bi % 8))\<close>, set and cleared.\<close>

definition bm_test :: "u8 list \<Rightarrow> nat \<Rightarrow> bool" where
  "bm_test d bi \<longleftrightarrow> (d ! (bi div 8)) AND push_bit (bi mod 8) 1 \<noteq> 0"

definition bm_set :: "u8 list \<Rightarrow> nat \<Rightarrow> u8 list" where
  "bm_set d bi = d[bi div 8 := (d ! (bi div 8)) OR push_bit (bi mod 8) 1]"

definition bm_clear :: "u8 list \<Rightarrow> nat \<Rightarrow> u8 list" where
  "bm_clear d bi = d[bi div 8 := (d ! (bi div 8)) AND NOT (push_bit (bi mod 8) 1)]"

definition bzero :: "u32 \<Rightarrow> nat \<Rightarrow> ('z log_st_scheme, unit) km" where
  "bzero dev bno =
     kbind (bread dev (of_nat bno)) (\<lambda>bp.
     kthen (set_bdata bp (replicate BSIZE 0))
     (kthen (log_write bp)
            (brelse bp)))"

text \<open>
  The outer loop of \<open>balloc\<close>, over the starting blocks \<open>0, BPB, 2*BPB, ...\<close>
  below \<open>sb.size\<close>; the inner loop stops at the first clear bit.
\<close>

primrec balloc_scan :: "u32 \<Rightarrow> superblock \<Rightarrow> nat list \<Rightarrow> ('z log_st_scheme, nat) km" where
  "balloc_scan dev sb [] = kpanic ''balloc: out of blocks''"
| "balloc_scan dev sb (b # bs) =
     kbind (bread dev (of_nat (BBLOCK b (unat (sb_ninodes sb))))) (\<lambda>bp.
     kbind (bdata bp) (\<lambda>d.
     case List.find (\<lambda>bi. b + bi < unat (sb_size sb) \<and> \<not> bm_test d bi) [0..<BPB] of
       Some bi \<Rightarrow>
         kthen (set_bdata bp (bm_set d bi))
         (kthen (log_write bp)
         (kthen (brelse bp)
         (kthen (bzero dev (b + bi))
                (kret (b + bi)))))
     | None \<Rightarrow> kthen (brelse bp) (balloc_scan dev sb bs)))"

definition balloc_starts :: "nat \<Rightarrow> nat list" where
  "balloc_starts sz = map (\<lambda>i. i * BPB) [0..<(sz + BPB - 1) div BPB]"

definition balloc :: "u32 \<Rightarrow> ('z log_st_scheme, nat) km" where
  "balloc dev = kbind (readsb dev) (\<lambda>sb. balloc_scan dev sb (balloc_starts (unat (sb_size sb))))"

definition bfree :: "u32 \<Rightarrow> nat \<Rightarrow> ('z log_st_scheme, unit) km" where
  "bfree dev b =
     kbind (readsb dev) (\<lambda>sb.
     kbind (bread dev (of_nat (BBLOCK b (unat (sb_ninodes sb))))) (\<lambda>bp.
     kbind (bdata bp) (\<lambda>d.
     let bi = b mod BPB in
     if \<not> bm_test d bi then kpanic ''freeing free block''
     else kthen (set_bdata bp (bm_clear d bi))
         (kthen (log_write bp)
                (brelse bp)))))"

section \<open>Bitmaps\<close>

lemma bm_test_bit: "bm_test d bi \<longleftrightarrow> bit (d ! (bi div 8)) (bi mod 8)"
proof -
  have "bi mod 8 < 8" by simp
  then show ?thesis
    using and_exp_eq_0_iff_not_bit [of "d ! (bi div 8)" "bi mod 8"]
    by (simp add: bm_test_def push_bit_of_1)
qed

lemma bm_length [simp]: "length (bm_set d bi) = length d" "length (bm_clear d bi) = length d"
  by (simp_all add: bm_set_def bm_clear_def)

lemma bm_test_upd:
  assumes "bi < 8 * length d" "bj < 8 * length d"
  shows "bm_test (bm_set d bi) bj = (bm_test d bj \<or> bj = bi)"
    and "bm_test (bm_clear d bi) bj = (bm_test d bj \<and> bj \<noteq> bi)"
proof -
  have e: "bi = bj \<longleftrightarrow> bi div 8 = bj div 8 \<and> bi mod 8 = bj mod 8" by (metis div_mult_mod_eq)
  have l: "bi div 8 < length d" "bj div 8 < length d" using assms by linarith+
  have m: "bi mod 8 < 8" "bj mod 8 < 8" by simp_all
  have b: "bit (2 ^ (bi mod 8) :: u8) n \<longleftrightarrow> n = bi mod 8" for n
    using m(1) by (auto simp: bit_exp_iff)
  show "bm_test (bm_set d bi) bj = (bm_test d bj \<or> bj = bi)"
    using l e by (auto simp: bm_test_bit bm_set_def nth_list_update bit_or_iff b)
  show "bm_test (bm_clear d bi) bj = (bm_test d bj \<and> bj \<noteq> bi)"
    using l e m by (auto simp: bm_test_bit bm_clear_def nth_list_update bit_and_iff bit_not_iff b)
qed

section \<open>Block operations inside a transaction\<close>

text \<open>
  \<open>txf s t\<close>: \<open>t\<close> differs from \<open>s\<close> only in the buffers and the in-memory log
  header, which is all a routine may change inside a transaction through
  \<open>bread\<close>, \<open>log_write\<close> and \<open>brelse\<close>.
\<close>

definition txf :: "'z log_st_scheme \<Rightarrow> 'z log_st_scheme \<Rightarrow> bool" where
  "txf s t \<longleftrightarrow> t = s\<lparr>bufs := bufs t, lh_sector := lh_sector t, lh_n := lh_n t\<rparr>"

lemma txf_upd [simp]: "txf s (s\<lparr>bufs := B\<rparr>)" "txf s (s\<lparr>bufs := B, lh_sector := l, lh_n := n\<rparr>)"
  unfolding txf_def by (rule log_st.equality; simp)+

lemma txf_refl [simp]: "txf s s"
  unfolding txf_def by (rule log_st.equality) simp_all

lemma txf_fields:
  assumes "txf s t"
  shows "memdisk t = memdisk s" "disksize t = disksize s" "dwrites t = dwrites s" "log_start t = log_start s"
    "log_size t = log_size s" "log_outstanding t = log_outstanding s" "log_committing t = log_committing s"
    "log_dev t = log_dev s" "log_st.more t = log_st.more s" "kmem_freelist t = kmem_freelist s" "kmem_mem t = kmem_mem s"
  by (subst assms [unfolded txf_def], simp)+

lemma txf_trans: "txf s t \<Longrightarrow> txf t u \<Longrightarrow> txf s u"
  unfolding txf_def [of s u] using txf_fields [of s t] txf_fields [of t u]
  by (intro log_st.equality) simp_all

lemma log_inv_bufs:
  assumes "log_inv H s" "io H' (s\<lparr>bufs := B\<rparr>)" "dirty_secs (s\<lparr>bufs := B\<rparr>) = dirty_secs s"
  shows "log_inv H' (s\<lparr>bufs := B\<rparr>)"
proof -
  have "log_geo (s\<lparr>bufs := B\<rparr>) = log_geo s" "homes (s\<lparr>bufs := B\<rparr>) = homes s"
    by (simp_all add: log_geo_def homes_def)
  then show ?thesis using assms unfolding log_inv_def by simp
qed

lemma log_inv_dirty: "log_inv H s \<Longrightarrow> card (H \<union> dirty_secs s) \<le> card H + nat (lh_n s)"
  using card_Un_le [of H "dirty_secs s"] log_inv_homes(2) [of H s] by simp

lemma tx_bread:
  assumes inv: "log_inv H s" and sec: "unat sec < disksize s" "unat sec \<notin> H"
    and room: "card H + nat (lh_n s) < NBUF"
    and post: "\<And>i B. log_inv (insert (unat sec) H) (s\<lparr>bufs := B\<rparr>) \<Longrightarrow> held (s\<lparr>bufs := B\<rparr>) i sec \<Longrightarrow>
      bview (s\<lparr>bufs := B\<rparr>) = bview s \<Longrightarrow> (\<And>j x. held s j x \<Longrightarrow> held (s\<lparr>bufs := B\<rparr>) j x) \<Longrightarrow> Q i (s\<lparr>bufs := B\<rparr>)"
  shows "kwp (bread 1 sec) Q s"
proof (rule io_bread [OF log_invD(1) [OF inv] sec])
  show "unat sec \<in> dirty_secs s \<or> card (H \<union> dirty_secs s) < NBUF"
    using log_inv_dirty [OF inv] room by simp
qed (use post log_inv_bufs [OF inv] in blast)

lemma tx_brelse:
  assumes inv: "log_inv H s" and h: "held s i sec"
    and post: "\<And>B. log_inv (H - {unat sec}) (s\<lparr>bufs := B\<rparr>) \<Longrightarrow> bview (s\<lparr>bufs := B\<rparr>) = bview s \<Longrightarrow>
      (\<And>j x. held s j x \<Longrightarrow> x \<noteq> sec \<Longrightarrow> held (s\<lparr>bufs := B\<rparr>) j x) \<Longrightarrow> Q () (s\<lparr>bufs := B\<rparr>)"
  shows "kwp (brelse i) Q s"
  by (rule io_brelse [OF log_invD(1) [OF inv] h]) (use post log_inv_bufs [OF inv] in blast)

lemma wp_bdata: "log_inv H s \<Longrightarrow> held s i sec \<Longrightarrow> kwp (bdata i) Q s = Q (bview s (unat sec)) s"
  by (simp add: bdata_def held_data [of H])
    (simp add: held_data [of H] log_invD(1))

text \<open>Changing a held block and logging it.\<close>

lemma tx_put:
  assumes inv: "log_inv H s" and h: "held s i sec" and d: "length d = BSIZE"
    and sec: "2 \<le> unat sec" "unat sec < unat (log_start s)"
    and out: "1 \<le> log_outstanding s" and room: "lh_n s + 1 < log_size s"
    and Q: "\<And>t. txf s t \<Longrightarrow> log_inv H t \<Longrightarrow> bview t = (bview s)(unat sec := d) \<Longrightarrow> lh_n t \<le> lh_n s + 1 \<Longrightarrow>
      (\<And>j x. held s j x \<Longrightarrow> held t j x) \<Longrightarrow> Q t"
  shows "kwp (set_bdata i d) (\<lambda>_. kwp (log_write i) (\<lambda>_. Q)) s"
proof (rule log_put [OF inv h d sec out room])
  fix B n l t
  assume t: "t = s\<lparr>bufs := B, lh_sector := l, lh_n := n\<rparr>" "log_inv H t" "bview t = (bview s)(unat sec := d)"
    "n = logged_n s sec" "\<And>j x. held s j x \<Longrightarrow> held t j x"
  have "txf s t" "lh_n t \<le> lh_n s + 1" using t(1,4) by (simp_all add: logged_n_def)
  then show "Q t" using Q t by blast
qed

text \<open>
  Read a block that no one holds, change it by \<open>f\<close>, log it and release it. \<open>R\<close>
  is what follows the \<open>bread\<close>, which must come down to that.
\<close>

lemma tx_modify:
  assumes inv: "log_inv H s" and sec: "2 \<le> unat sec" "unat sec < unat (log_start s)" "unat sec \<notin> H"
    and out: "1 \<le> log_outstanding s" and room: "lh_n s + 1 < log_size s" "card H + nat (lh_n s) < NBUF"
    and f: "length (f (bview s (unat sec))) = BSIZE"
    and Q: "\<And>t. txf s t \<Longrightarrow> log_inv H t \<Longrightarrow> bview t = (bview s)(unat sec := f (bview s (unat sec))) \<Longrightarrow>
      lh_n t \<le> lh_n s + 1 \<Longrightarrow> (\<And>j x. held s j x \<Longrightarrow> held t j x) \<Longrightarrow> Q t"
    and R: "\<And>bp t. b_data (bufs t bp) = bview s (unat sec) \<Longrightarrow>
      kwp (set_bdata bp (f (bview s (unat sec)))) (\<lambda>_. kwp (log_write bp) (\<lambda>_. kwp (brelse bp) (\<lambda>_. Q))) t \<Longrightarrow> R bp t"
  shows "kwp (bread 1 sec) R s"
proof (rule tx_bread [OF inv _ sec(3) room(2)])
  show "unat sec < disksize s" using sec(2) log_invD(2) [OF inv] by (auto simp: log_geo_def)
  fix bp B
  let ?s1 = "s\<lparr>bufs := B\<rparr>"
  assume 1: "log_inv (insert (unat sec) H) ?s1" "held ?s1 bp sec" "bview ?s1 = bview s"
    "\<And>j x. held s j x \<Longrightarrow> held ?s1 j x"
  let ?d = "f (bview s (unat sec))"
  have "kwp (set_bdata bp ?d) (\<lambda>_. kwp (log_write bp) (\<lambda>_. kwp (brelse bp) (\<lambda>_. Q))) ?s1"
  proof (rule tx_put [OF 1(1,2) f])
    show "2 \<le> unat sec" "unat sec < unat (log_start ?s1)" "1 \<le> log_outstanding ?s1" "lh_n ?s1 + 1 < log_size ?s1"
      using sec out room by simp_all
    fix t
    assume t: "txf ?s1 t" "log_inv (insert (unat sec) H) t" "bview t = (bview ?s1)(unat sec := ?d)"
      "lh_n t \<le> lh_n ?s1 + 1" "\<And>j x. held ?s1 j x \<Longrightarrow> held t j x"
    show "kwp (brelse bp) (\<lambda>_. Q) t"
    proof (rule tx_brelse [OF t(2) t(5) [OF 1(2)]])
      fix B2
      let ?u = "t\<lparr>bufs := B2\<rparr>"
      assume 2: "log_inv (insert (unat sec) H - {unat sec}) ?u" "bview ?u = bview t"
        "\<And>j x. held t j x \<Longrightarrow> x \<noteq> sec \<Longrightarrow> held ?u j x"
      have h: "held ?u j x" if "held s j x" for j x
        using that 2(3) [OF t(5) [OF 1(4) [OF that]]] held_in [OF log_invD(1) [OF inv] that] sec(3) by auto
      have "insert (unat sec) H - {unat sec} = H" using sec(3) by simp
      then show "Q ?u"
        using txf_trans [OF txf_trans [OF txf_upd(1) t(1)] txf_upd(1)] 2 t(3,4) 1(3) h
        by (intro Q) simp_all
    qed
  qed
  then show "R bp ?s1"
    using R held_data [OF log_invD(1) [OF 1(1)] 1(2)] 1(3) by simp
qed

text \<open>Read a block and release it unchanged.\<close>

lemma tx_peek:
  assumes inv: "log_inv H s" and sec: "unat sec < disksize s" "unat sec \<notin> H"
    and room: "card H + nat (lh_n s) < NBUF"
    and Q: "\<And>B. log_inv H (s\<lparr>bufs := B\<rparr>) \<Longrightarrow> bview (s\<lparr>bufs := B\<rparr>) = bview s \<Longrightarrow>
      (\<And>j x. held s j x \<Longrightarrow> held (s\<lparr>bufs := B\<rparr>) j x) \<Longrightarrow> Q (s\<lparr>bufs := B\<rparr>)"
    and R: "\<And>bp t. b_data (bufs t bp) = bview s (unat sec) \<Longrightarrow> kwp (brelse bp) (\<lambda>_. Q) t \<Longrightarrow> R bp t"
  shows "kwp (bread 1 sec) R s"
proof (rule tx_bread [OF inv sec room])
  fix bp B
  let ?s1 = "s\<lparr>bufs := B\<rparr>"
  assume 1: "log_inv (insert (unat sec) H) ?s1" "held ?s1 bp sec" "bview ?s1 = bview s"
    "\<And>j x. held s j x \<Longrightarrow> held ?s1 j x"
  have "kwp (brelse bp) (\<lambda>_. Q) ?s1"
  proof (rule tx_brelse [OF 1(1,2)])
    fix B2
    let ?u = "?s1\<lparr>bufs := B2\<rparr>"
    assume 2: "log_inv (insert (unat sec) H - {unat sec}) ?u" "bview ?u = bview ?s1"
      "\<And>j x. held ?s1 j x \<Longrightarrow> x \<noteq> sec \<Longrightarrow> held ?u j x"
    have h: "held ?u j x" if "held s j x" for j x
      using that 2(3) [OF 1(4) [OF that]] held_in [OF log_invD(1) [OF inv] that] sec(2) by auto
    have "insert (unat sec) H - {unat sec} = H" using sec(2) by simp
    then show "Q ?u" using Q [of B2] 2 1(3) h by simp
  qed
  then show "R bp ?s1"
    using R held_data [OF log_invD(1) [OF 1(1)] 1(2)] 1(3) by simp
qed

section \<open>Allocation\<close>

definition sb_of :: "u8 list \<Rightarrow> superblock" where
  "sb_of d = \<lparr>sb_size = get32 d 0, sb_nblocks = get32 d 4, sb_ninodes = get32 d 8, sb_nlog = get32 d 12\<rparr>"

lemma tx_readsb:
  assumes inv: "log_inv H s" and one: "1 \<notin> H" and room: "card H + nat (lh_n s) < NBUF"
    and Q: "\<And>B. log_inv H (s\<lparr>bufs := B\<rparr>) \<Longrightarrow> bview (s\<lparr>bufs := B\<rparr>) = bview s \<Longrightarrow>
      (\<And>j x. held s j x \<Longrightarrow> held (s\<lparr>bufs := B\<rparr>) j x) \<Longrightarrow> Q (sb_of (bview s 1)) (s\<lparr>bufs := B\<rparr>)"
  shows "kwp (readsb 1) Q s"
proof (rule readsb_wp [OF log_invD(1) [OF inv] _ one])
  show "1 < disksize s" using log_invD(2,9) [OF inv] by (auto simp: log_geo_def)
  show "card (H \<union> dirty_secs s) < NBUF" using log_inv_dirty [OF inv] room by simp
  fix B d
  assume "d = bview s 1" "io H (s\<lparr>bufs := B\<rparr>)" "bview (s\<lparr>bufs := B\<rparr>) = bview s"
    "dirty_secs (s\<lparr>bufs := B\<rparr>) = dirty_secs s" "\<And>j x. held s j x \<Longrightarrow> held (s\<lparr>bufs := B\<rparr>) j x"
  then show "Q \<lparr>sb_size = get32 d 0, sb_nblocks = get32 d 4, sb_ninodes = get32 d 8, sb_nlog = get32 d 12\<rparr>
      (s\<lparr>bufs := B\<rparr>)"
    using Q [of B] log_inv_bufs [OF inv, of H B] by (simp add: sb_of_def)
qed

text \<open>
  The number of blocks and of inodes the super block in a view announces, and
  whether the bitmap in it has block \<open>b\<close> free.
\<close>

definition fs_size :: "(nat \<Rightarrow> u8 list) \<Rightarrow> nat" where "fs_size v = unat (get32 (v 1) 0)"
definition fs_ninodes :: "(nat \<Rightarrow> u8 list) \<Rightarrow> nat" where "fs_ninodes v = unat (get32 (v 1) 8)"

definition bfree_bit :: "(nat \<Rightarrow> u8 list) \<Rightarrow> nat \<Rightarrow> bool" where
  "bfree_bit v b \<longleftrightarrow> \<not> bm_test (v (BBLOCK b (fs_ninodes v))) (b mod BPB)"

definition bm_geo :: "nat set \<Rightarrow> 'z log_st_scheme \<Rightarrow> bool" where
  "bm_geo H s \<longleftrightarrow> (\<forall>b < fs_size (bview s). BBLOCK b (fs_ninodes (bview s)) < unat (log_start s)
     \<and> BBLOCK b (fs_ninodes (bview s)) \<notin> H) \<and> 1 \<notin> H"

lemma BBLOCK_ge: "3 \<le> BBLOCK b ni"
  by (simp add: BBLOCK_def)

lemma log_start_32: "log_inv H s \<Longrightarrow> unat (log_start s) < 4294967296"
  using log_invD(2) [of H s] by (auto simp: log_geo_def)

lemma tx_bzero:
  assumes "log_inv H s" "2 \<le> b" "b < unat (log_start s)" "b \<notin> H" "1 \<le> log_outstanding s"
    "lh_n s + 1 < log_size s" "card H + nat (lh_n s) < NBUF"
    and Q: "\<And>t. txf s t \<Longrightarrow> log_inv H t \<Longrightarrow> bview t = (bview s)(b := replicate BSIZE 0) \<Longrightarrow>
      lh_n t \<le> lh_n s + 1 \<Longrightarrow> (\<And>j x. held s j x \<Longrightarrow> held t j x) \<Longrightarrow> Q () t"
  shows "kwp (bzero 1 b) Q s"
proof -
  have u: "unat (of_nat b :: u32) = b" using assms(3) log_start_32 [OF assms(1)] by (simp add: unat_of_nat32)
  show ?thesis
    unfolding bzero_def kwp_bind kwp_then
    by (rule tx_modify [where f = "\<lambda>_. replicate BSIZE 0" and Q = "Q ()", OF assms(1)]) (use assms u in simp_all)
qed

lemma BBLOCK_chunk: "bi < BPB \<Longrightarrow> BBLOCK (i * BPB + bi) ni = BBLOCK (i * BPB) ni" "bi < BPB \<Longrightarrow> (i * BPB + bi) mod BPB = bi"
  by (simp_all add: BBLOCK_def)

text \<open>\<open>first_free v b\<close>: block \<open>b\<close> is the one \<open>balloc\<close> will find.\<close>

definition first_free :: "(nat \<Rightarrow> u8 list) \<Rightarrow> nat \<Rightarrow> bool" where
  "first_free v b \<longleftrightarrow> b < fs_size v \<and> bfree_bit v b \<and> (\<forall>c < b. \<not> bfree_bit v c)"

definition alloc_view :: "(nat \<Rightarrow> u8 list) \<Rightarrow> nat \<Rightarrow> nat \<Rightarrow> u8 list" where
  "alloc_view v b = v(BBLOCK b (fs_ninodes v) := bm_set (v (BBLOCK b (fs_ninodes v))) (b mod BPB), b := replicate BSIZE 0)"

lemma scan_chunk:
  assumes ff: "first_free v b" and d: "d = v (BBLOCK (i * BPB) (fs_ninodes v))"
  shows "i < b div BPB \<Longrightarrow> List.find (\<lambda>bi. i * BPB + bi < fs_size v \<and> \<not> bm_test d bi) [0..<BPB] = None"
    and "i = b div BPB \<Longrightarrow> List.find (\<lambda>bi. i * BPB + bi < fs_size v \<and> \<not> bm_test d bi) [0..<BPB] = Some (b mod BPB)"
proof -
  have pos: "0 < BPB" by (simp add: BPB_def BSIZE_def)
  have used: "bm_test d bi" if "bi < BPB" "i * BPB + bi < b" for bi
    using ff that BBLOCK_chunk [of bi i] by (auto simp: first_free_def bfree_bit_def d)
  show "List.find (\<lambda>bi. i * BPB + bi < fs_size v \<and> \<not> bm_test d bi) [0..<BPB] = None" if "i < b div BPB"
  proof (rule find_nobody)
    fix bi
    assume bi: "bi < BPB"
    have "Suc i * BPB \<le> b div BPB * BPB" using that by (intro mult_le_mono1) simp
    also have "\<dots> \<le> b" by simp
    finally have "i * BPB + bi < b" using bi by simp
    then show "\<not> (i * BPB + bi < fs_size v \<and> \<not> bm_test d bi)" using used bi by simp
  qed
  show "List.find (\<lambda>bi. i * BPB + bi < fs_size v \<and> \<not> bm_test d bi) [0..<BPB] = Some (b mod BPB)" if "i = b div BPB"
  proof (rule find_first)
    have b: "i * BPB + b mod BPB = b" using that by simp
    show lt: "b mod BPB < BPB" using pos by simp
    show "i * BPB + b mod BPB < fs_size v \<and> \<not> bm_test d (b mod BPB)"
      using ff BBLOCK_chunk(1) [OF lt, of i] b by (auto simp: first_free_def bfree_bit_def d)
    show "\<not> (i * BPB + bi < fs_size v \<and> \<not> bm_test d bi)" if "bi < b mod BPB" for bi
      using used [of bi] that lt b by linarith
  qed
qed

lemma balloc_found:
  assumes inv: "log_inv H s" and out: "1 \<le> log_outstanding s"
    and room: "lh_n s + 2 < log_size s" "card H + nat (lh_n s) + 1 < NBUF"
    and ff: "first_free v b" and v: "bview s = v" and geo: "bm_geo H s"
    and b: "2 \<le> b" "b < unat (log_start s)" "b \<notin> H"
    and Q: "\<And>t. txf s t \<Longrightarrow> log_inv H t \<Longrightarrow> bview t = alloc_view v b \<Longrightarrow> lh_n t \<le> lh_n s + 2 \<Longrightarrow>
      (\<And>j x. held s j x \<Longrightarrow> held t j x) \<Longrightarrow> Q b t"
  shows "kwp (balloc_scan 1 (sb_of (v 1)) (b div BPB * BPB # is)) Q s"
proof -
  let ?i = "b div BPB" and ?ni = "fs_ninodes v"
  let ?c = "BBLOCK b ?ni"
  have cb: "BBLOCK (?i * BPB) ?ni = ?c" by (simp add: BBLOCK_def)
  have c: "?c < unat (log_start s)" "?c \<notin> H" "3 \<le> ?c" using geo ff v BBLOCK_ge by (auto simp: bm_geo_def first_free_def)
  have u: "unat (of_nat ?c :: u32) = ?c" using c log_start_32 [OF inv] by (simp add: unat_of_nat32)
  have sz: "unat (sb_size (sb_of (v 1))) = fs_size v" "unat (sb_ninodes (sb_of (v 1))) = ?ni"
    by (simp_all add: sb_of_def fs_size_def fs_ninodes_def)
  note find = scan_chunk(2) [OF ff refl refl, unfolded cb]
  have dev: "?c < disksize s" using c log_invD(2) [OF inv] by (auto simp: log_geo_def)
  have len: "length (v ?c) = BSIZE" using io_view_length [OF log_invD(1) [OF inv] dev] v by simp
  have rest: "kwp (bzero 1 b) (\<lambda>_. Q b) t"
    if t: "txf s t" "log_inv H t" "bview t = v(?c := bm_set (v ?c) (b mod BPB))" "lh_n t \<le> lh_n s + 1"
      "\<And>j x. held s j x \<Longrightarrow> held t j x" for t
  proof (rule tx_bzero [OF t(2) b(1)])
    note f = txf_fields [OF t(1)]
    show "b < unat (log_start t)" "b \<notin> H" "1 \<le> log_outstanding t" "lh_n t + 1 < log_size t"
      "card H + nat (lh_n t) < NBUF"
      using b out room t(4) f by simp_all
    fix u
    assume u: "txf t u" "log_inv H u" "bview u = (bview t)(b := replicate BSIZE 0)" "lh_n u \<le> lh_n t + 1"
      "\<And>j x. held t j x \<Longrightarrow> held u j x"
    have "txf s u" "bview u = alloc_view v b" "lh_n u \<le> lh_n s + 2"
      using txf_trans [OF t(1) u(1)] u(3,4) t(3,4) by (simp_all add: alloc_view_def)
    then show "Q b u" using Q u(2,5) t(5) by blast
  qed
  show ?thesis
    unfolding balloc_scan.simps kwp_bind sz cb
    by (rule tx_modify [where f = "\<lambda>d. bm_set d (b mod BPB)" and Q = "kwp (bzero 1 b) (\<lambda>_. Q b)", OF inv])
      (use c u out room len v rest find in \<open>simp_all add: bdata_def\<close>)
qed

lemma balloc_scan_wp:
  assumes ff: "first_free v b" and m: "b div BPB < m"
    and b: "2 \<le> b" "b < L" "b \<notin> H"
  shows "j \<le> b div BPB \<Longrightarrow> log_inv H s \<Longrightarrow> 1 \<le> log_outstanding s \<Longrightarrow> lh_n s + 2 < log_size s \<Longrightarrow>
    card H + nat (lh_n s) + 1 < NBUF \<Longrightarrow> bview s = v \<Longrightarrow> bm_geo H s \<Longrightarrow> unat (log_start s) = L \<Longrightarrow>
    (\<And>t. txf s t \<Longrightarrow> log_inv H t \<Longrightarrow> bview t = alloc_view v b \<Longrightarrow> lh_n t \<le> lh_n s + 2 \<Longrightarrow>
      (\<And>j x. held s j x \<Longrightarrow> held t j x) \<Longrightarrow> Q b t) \<Longrightarrow>
    kwp (balloc_scan 1 (sb_of (v 1)) (map (\<lambda>i. i * BPB) [j..<m])) Q s"
proof (induction "b div BPB - j" arbitrary: j s)
  case 0
  then have "j = b div BPB" by simp
  then have "map (\<lambda>i. i * BPB) [j..<m] = b div BPB * BPB # map (\<lambda>i. i * BPB) [Suc j..<m]"
    using m by (simp add: upt_conv_Cons)
  then show ?case using balloc_found [OF 0(3,4,5,6) ff 0(7,8) b(1)] b 0(9,10) by metis
next
  case (Suc n)
  then have j: "j < b div BPB" and jm: "j < m" using m by simp_all
  let ?ni = "fs_ninodes v"
  let ?c = "BBLOCK (j * BPB) ?ni"
  have pos: "0 < BPB" by (simp add: BPB_def BSIZE_def)
  have "Suc j * BPB \<le> b div BPB * BPB" using j by (intro mult_le_mono1) simp
  then have "Suc j * BPB \<le> b" using div_times_less_eq_dividend order_trans by blast
  then have "j * BPB < b" using pos by simp
  then have "j * BPB < fs_size v" using ff by (simp add: first_free_def)
  then have c: "?c < unat (log_start s)" "?c \<notin> H" using Suc.prems(6,7) by (auto simp: bm_geo_def)
  have u: "unat (of_nat ?c :: u32) = ?c" using c log_start_32 [OF Suc.prems(2)] by (simp add: unat_of_nat32)
  have dev: "?c < disksize s" using c log_invD(2) [OF Suc.prems(2)] by (auto simp: log_geo_def)
  have sz: "unat (sb_size (sb_of (v 1))) = fs_size v" "unat (sb_ninodes (sb_of (v 1))) = ?ni"
    by (simp_all add: sb_of_def fs_size_def fs_ninodes_def)
  have e: "map (\<lambda>i. i * BPB) [j..<m] = j * BPB # map (\<lambda>i. i * BPB) [Suc j..<m]"
    using jm by (simp add: upt_conv_Cons)
  have rest: "kwp (balloc_scan 1 (sb_of (v 1)) (map (\<lambda>i. i * BPB) [Suc j..<m])) Q (s\<lparr>bufs := B\<rparr>)"
    if 1: "log_inv H (s\<lparr>bufs := B\<rparr>)" "bview (s\<lparr>bufs := B\<rparr>) = bview s"
      "\<And>j x. held s j x \<Longrightarrow> held (s\<lparr>bufs := B\<rparr>) j x" for B
  proof (rule Suc.hyps(1))
    show "n = b div BPB - Suc j" "Suc j \<le> b div BPB" using Suc.hyps(2) j by simp_all
    show "bm_geo H (s\<lparr>bufs := B\<rparr>)" using Suc.prems(7) 1(2) by (simp add: bm_geo_def)
    show "Q b t" if "txf (s\<lparr>bufs := B\<rparr>) t" "log_inv H t" "bview t = alloc_view v b" "lh_n t \<le> lh_n (s\<lparr>bufs := B\<rparr>) + 2"
      "\<And>j x. held (s\<lparr>bufs := B\<rparr>) j x \<Longrightarrow> held t j x" for t
      using Suc.prems(9) [OF txf_trans [OF txf_upd(1) that(1)] that(2,3)] that(4,5) 1(3) by simp
  qed (use Suc.prems 1 in simp_all)
  show ?case
    unfolding e balloc_scan.simps kwp_bind sz
    by (rule tx_peek [where Q = "kwp (balloc_scan 1 (sb_of (v 1)) (map (\<lambda>i. i * BPB) [Suc j..<m])) Q", OF Suc.prems(2)])
      (use c u dev Suc.prems rest scan_chunk(1) [OF ff refl j] in \<open>simp_all add: bdata_def\<close>)
qed

lemma balloc_wp:
  assumes inv: "log_inv H s" and out: "1 \<le> log_outstanding s"
    and room: "lh_n s + 2 < log_size s" "card H + nat (lh_n s) + 1 < NBUF"
    and ff: "first_free (bview s) b" and geo: "bm_geo H s"
    and b: "2 \<le> b" "b < unat (log_start s)" "b \<notin> H"
    and Q: "\<And>t. txf s t \<Longrightarrow> log_inv H t \<Longrightarrow> bview t = alloc_view (bview s) b \<Longrightarrow> lh_n t \<le> lh_n s + 2 \<Longrightarrow>
      (\<And>j x. held s j x \<Longrightarrow> held t j x) \<Longrightarrow> Q b t"
  shows "kwp (balloc 1) Q s"
  unfolding balloc_def kwp_bind
proof (rule tx_readsb [OF inv])
  show "1 \<notin> H" "card H + nat (lh_n s) < NBUF" using geo room by (auto simp: bm_geo_def)
  fix B
  let ?s = "s\<lparr>bufs := B\<rparr>"
  assume 1: "log_inv H ?s" "bview ?s = bview s" "\<And>j x. held s j x \<Longrightarrow> held ?s j x"
  have sz: "unat (sb_size (sb_of (bview s 1))) = fs_size (bview s)" by (simp add: sb_of_def fs_size_def)
  have m: "b div BPB < (fs_size (bview s) + BPB - 1) div BPB"
  proof -
    have "b < fs_size (bview s)" using ff by (simp add: first_free_def)
    then have "b + BPB \<le> fs_size (bview s) + BPB - 1" by simp
    then have "(b + BPB) div BPB \<le> (fs_size (bview s) + BPB - 1) div BPB" by (rule div_le_mono)
    moreover have "(b + BPB) div BPB = Suc (b div BPB)" by (simp add: BPB_def BSIZE_def)
    ultimately show ?thesis by simp
  qed
  show "kwp (balloc_scan 1 (sb_of (bview s 1)) (balloc_starts (unat (sb_size (sb_of (bview s 1)))))) Q ?s"
    unfolding balloc_starts_def sz
  proof (rule balloc_scan_wp [OF ff m b])
    show "bm_geo H ?s" using geo 1(2) by (simp add: bm_geo_def)
    show "Q b t" if "txf ?s t" "log_inv H t" "bview t = alloc_view (bview s) b" "lh_n t \<le> lh_n ?s + 2"
      "\<And>j x. held ?s j x \<Longrightarrow> held t j x" for t
      using Q [OF txf_trans [OF txf_upd(1) that(1)] that(2,3)] that(4,5) 1(3) by simp
  qed (use 1 out room in simp_all)
qed

lemma bfree_wp:
  assumes inv: "log_inv H s" and out: "1 \<le> log_outstanding s"
    and room: "lh_n s + 1 < log_size s" "card H + nat (lh_n s) < NBUF"
    and b: "b < fs_size (bview s)" and geo: "bm_geo H s" and c: "c = BBLOCK b (fs_ninodes (bview s))"
    and used: "\<not> bfree_bit (bview s) b"
    and Q: "\<And>t. txf s t \<Longrightarrow> log_inv H t \<Longrightarrow> bview t = (bview s)(c := bm_clear (bview s c) (b mod BPB)) \<Longrightarrow>
      lh_n t \<le> lh_n s + 1 \<Longrightarrow> (\<And>j x. held s j x \<Longrightarrow> held t j x) \<Longrightarrow> Q () t"
  shows "kwp (bfree 1 b) Q s"
  unfolding bfree_def kwp_bind
proof (rule tx_readsb [OF inv])
  show "1 \<notin> H" "card H + nat (lh_n s) < NBUF" using geo room by (auto simp: bm_geo_def)
  fix B
  let ?s = "s\<lparr>bufs := B\<rparr>"
  assume 1: "log_inv H ?s" "bview ?s = bview s" "\<And>j x. held s j x \<Longrightarrow> held ?s j x"
  have cg: "c < unat (log_start s)" "c \<notin> H" "3 \<le> c" using geo b BBLOCK_ge by (auto simp: bm_geo_def c)
  have u: "unat (of_nat c :: u32) = c" using cg log_start_32 [OF inv] by (simp add: unat_of_nat32)
  have dev: "c < disksize s" using cg log_invD(2) [OF inv] by (auto simp: log_geo_def)
  have len: "length (bview s c) = BSIZE" using io_view_length [OF log_invD(1) [OF inv] dev] by simp
  have sb: "BBLOCK b (unat (sb_ninodes (sb_of (bview s 1)))) = c" by (simp add: sb_of_def c fs_ninodes_def)
  have t: "bm_test (bview s c) (b mod BPB)" using used by (simp add: bfree_bit_def c)
  have q: "Q () t" if "txf ?s t" "log_inv H t" "bview t = (bview ?s)(c := bm_clear (bview ?s c) (b mod BPB))"
      "lh_n t \<le> lh_n ?s + 1" "\<And>j x. held ?s j x \<Longrightarrow> held t j x" for t
    using Q [OF txf_trans [OF txf_upd(1) that(1)] that(2)] that(3-5) 1(2,3) by simp
  show "kwp (bread 1 (of_nat (BBLOCK b (unat (sb_ninodes (sb_of (bview s 1))))))) (\<lambda>x. kwp (bdata x) (\<lambda>d.
      kwp (let bi = b mod BPB in if \<not> bm_test d bi then kpanic ''freeing free block''
        else kthen (set_bdata x (bm_clear d bi)) (kthen (log_write x) (brelse x))) Q)) ?s"
    unfolding sb
    by (rule tx_modify [where f = "\<lambda>d. bm_clear d (b mod BPB)" and Q = "Q ()", OF 1(1)])
      (use cg u out room len 1(2) q t in \<open>simp_all add: bdata_def Let_def\<close>)
qed

lemma bm_clear_set:
  assumes "bi < 8 * length d" "\<not> bm_test d bi"
  shows "bm_clear (bm_set d bi) bi = d"
proof -
  let ?k = "bi div 8"
  have k: "?k < length d" using assms(1) by linarith
  have "(d ! ?k OR push_bit (bi mod 8) 1) AND NOT (push_bit (bi mod 8) 1) = d ! ?k"
    using assms(2) by (intro bit_eqI) (auto simp: bm_test_bit bit_simps)
  then show ?thesis using k by (simp add: bm_clear_def bm_set_def)
qed

lemma bfree_free:
  assumes inv: "log_inv H s" and room: "card H + nat (lh_n s) < NBUF"
    and b: "b < fs_size (bview s)" and geo: "bm_geo H s" and free: "bfree_bit (bview s) b"
  shows "bfree 1 b s = Panic ''freeing free block''"
proof -
  let ?c = "BBLOCK b (fs_ninodes (bview s))"
  have H: "1 \<notin> H" using geo by (auto simp: bm_geo_def)
  have cg: "?c < unat (log_start s)" "?c \<notin> H" using geo b by (auto simp: bm_geo_def)
  have u: "unat (of_nat ?c :: u32) = ?c" using cg log_start_32 [OF inv] by (simp add: unat_of_nat32)
  have dev: "?c < disksize s" using cg log_invD(2) [OF inv] by (auto simp: log_geo_def)
  have "kwp (readsb 1) (\<lambda>sb t. sb = sb_of (bview s 1) \<and> (\<exists>bp u. bread 1 (of_nat ?c) t = Ok (bp, u) \<and> b_data (bufs u bp) = bview s ?c)) s"
  proof (rule tx_readsb [OF inv H room])
    fix B
    let ?t = "s\<lparr>bufs := B\<rparr>"
    assume 1: "log_inv H ?t" "bview ?t = bview s"
    have "kwp (bread 1 (of_nat ?c)) (\<lambda>bp u. b_data (bufs u bp) = bview s ?c) ?t"
      by (rule tx_peek [OF 1(1), where Q = "\<lambda>_. True"]) (use u dev cg room 1 in simp_all)
    then show "sb_of (bview s 1) = sb_of (bview s 1) \<and> (\<exists>bp u. bread 1 (of_nat ?c) ?t = Ok (bp, u) \<and> b_data (bufs u bp) = bview s ?c)"
      by (auto simp: kwp_Ok)
  qed
  then obtain t bp u where "readsb 1 s = Ok (sb_of (bview s 1), t)" "bread 1 (of_nat ?c) t = Ok (bp, u)"
    "b_data (bufs u bp) = bview s ?c" by (auto simp: kwp_Ok)
  moreover have "BBLOCK b (unat (sb_ninodes (sb_of (bview s 1)))) = ?c" by (simp add: sb_of_def fs_ninodes_def)
  ultimately show ?thesis
    using free by (simp add: bfree_def kdefs bdata_def bfree_bit_def)
qed

section \<open>A mounted disk\<close>

text \<open>The state after booting from a disk image and entering a first system call's \<open>begin_op\<close>.\<close>

definition in_tx :: "'z log_st_scheme \<Rightarrow> 'z log_st_scheme" where
  "in_tx r = (case kthen kboot begin_op r of Ok (_, s) \<Rightarrow> s | _ \<Rightarrow> r)"

lemma in_tx:
  assumes on: "powered_on r" and img: "image_ok (memdisk r) (disksize r) L lsz" and h: "head_n (memdisk r L) = 0"
    and out: "log_outstanding r = 0" "\<not> log_committing r"
  shows "log_inv {} (in_tx r) \<and> lh_n (in_tx r) = 0 \<and> unat (log_start (in_tx r)) = L \<and> log_size (in_tx r) = lsz
    \<and> log_outstanding (in_tx r) = 1 \<and> disksize (in_tx r) = disksize r \<and> (\<forall>x < L. bview (in_tx r) x = memdisk r x)"
proof -
  let ?P = "\<lambda>u. log_inv {} u \<and> lh_n u = 0 \<and> unat (log_start u) = L \<and> log_size u = lsz
    \<and> log_outstanding u = 1 \<and> disksize u = disksize r \<and> (\<forall>x < L. bview u x = memdisk r x)"
  have "kwp (kthen kboot begin_op) (\<lambda>_. ?P) r"
    unfolding kwp_then
  proof (rule kboot_done [OF on img])
    fix u W l
    assume W: "W = redo (memdisk r) L @ [(L, head_bytes (memdisk r L) 0 l)]"
      and u: "memdisk u = dapply W (memdisk r)" "log_inv {} u" "lh_n u = 0" "unat (log_start u) = L"
        "log_size u = lsz" "disksize u = disksize r" "log_outstanding u = log_outstanding r"
        "log_committing u = log_committing r"
    have m: "memdisk u x = memdisk r x" if "x < L" for x
      using that by (simp add: u(1) W redo_def h)
    have L: "L < disksize r" using image_okD(3,5) [OF img] by linarith
    have "dirty_secs u = {}" using log_invD(7) [OF u(2)] log_inv_homes(1) [OF u(2)] u(3) by simp
    then have "bview u x = memdisk r x" if "x < L" for x
      using io_view_clean [OF log_invD(1) [OF u(2)], of x] m [OF that] that L u(6) by simp
    then show "kwp begin_op (\<lambda>_. ?P) u"
      using u out
      by (simp add: kwp_def begin_op_eq LOGSIZE_def MAXOPBLOCKS_def)
  qed
  then obtain x t where "kthen kboot begin_op r = Ok (x, t)" "?P t" by (rule kwpE)
  then show ?thesis by (simp add: in_tx_def)
qed

text \<open>
  A small disk: 64 blocks, 16 inodes, a log of 30 blocks, so the inodes are in
  blocks 2 and 3, the bitmap in block 5 and the log begins at block 34. Blocks
  0 to 7 are in use.
\<close>

definition demo_disk :: "nat \<Rightarrow> u8 list" where
  "demo_disk n = (if n = 1 then put32 (put32 (put32 (replicate BSIZE 0) 0 64) 8 16) 12 30
     else if n = 5 then (replicate BSIZE 0)[0 := 255] else replicate BSIZE 0)"

definition demo_fs :: log_st where
  "demo_fs = in_tx (demo_log0\<lparr>memdisk := demo_disk\<rparr>)"

lemma demo_disk_sb: "get32 (demo_disk 1) 0 = 64" "get32 (demo_disk 1) 8 = 16" "get32 (demo_disk 1) 12 = 30"
  by (simp_all add: demo_disk_def BSIZE_def get32_put32 get32_put32_other)

lemma demo_disk_image: "image_ok demo_disk 64 34 30"
proof -
  have "length (demo_disk n) = BSIZE" for n by (simp add: demo_disk_def BSIZE_def)
  then show ?thesis
    using demo_disk_sb by (simp add: image_ok_def LOGSIZE_def MAXOPBLOCKS_def head_n_def demo_disk_def get32_replicate_0 BSIZE_def)
qed

lemma demo_fs_inv:
  "log_inv {} demo_fs" "lh_n demo_fs = 0" "unat (log_start demo_fs) = 34" "log_size demo_fs = 30"
  "log_outstanding demo_fs = 1" "disksize demo_fs = 64" "x < 34 \<Longrightarrow> bview demo_fs x = demo_disk x"
proof -
  have "head_n (demo_disk 34) = 0" by (simp add: head_n_def demo_disk_def get32_replicate_0 BSIZE_def)
  moreover have "powered_on (demo_log0\<lparr>memdisk := demo_disk\<rparr>)" by (simp add: powered_on_def demo_log0_def)
  ultimately have "log_inv {} demo_fs \<and> lh_n demo_fs = 0 \<and> unat (log_start demo_fs) = 34 \<and> log_size demo_fs = 30
    \<and> log_outstanding demo_fs = 1 \<and> disksize demo_fs = 64 \<and> (\<forall>x < 34. bview demo_fs x = demo_disk x)"
    unfolding demo_fs_def
    using in_tx [of "demo_log0\<lparr>memdisk := demo_disk\<rparr>" 34 30] demo_disk_image by (simp add: demo_log0_def)
  then show "log_inv {} demo_fs" "lh_n demo_fs = 0" "unat (log_start demo_fs) = 34" "log_size demo_fs = 30"
    "log_outstanding demo_fs = 1" "disksize demo_fs = 64" "x < 34 \<Longrightarrow> bview demo_fs x = demo_disk x"
    by blast+
qed

lemma demo_fs_geo:
  "fs_size (bview demo_fs) = 64" "fs_ninodes (bview demo_fs) = 16" "bm_geo {} demo_fs" "first_free (bview demo_fs) 8"
proof -
  show sz: "fs_size (bview demo_fs) = 64" "fs_ninodes (bview demo_fs) = 16"
    using demo_disk_sb demo_fs_inv(7) [of 1] by (simp_all add: fs_size_def fs_ninodes_def)
  have bb: "BBLOCK b 16 = 5" if "b < 64" for b using that by (simp add: BBLOCK_def BPB_def BSIZE_def IPB_def)
  show "bm_geo {} demo_fs" using sz bb demo_fs_inv(3) by (simp add: bm_geo_def)
  have v5: "bview demo_fs 5 = (replicate BSIZE 0)[0 := 255]" using demo_fs_inv(7) [of 5] by (simp add: demo_disk_def)
  have "list_all (bit (255 :: u8)) [0..<8]" by code_simp
  then have "bit (255 :: u8) n" if "n < 8" for n using that by (simp add: list_all_iff)
  then have "\<not> bfree_bit (bview demo_fs) b" if "b < 8" for b
    using that sz bb [of b] v5 by (simp add: bfree_bit_def bm_test_bit BPB_def BSIZE_def)
  moreover have "bfree_bit (bview demo_fs) 8"
    using sz bb [of 8] v5 by (simp add: bfree_bit_def bm_test_bit BPB_def BSIZE_def)
  ultimately show "first_free (bview demo_fs) 8" using sz by (simp add: first_free_def)
qed

section \<open>Properties\<close>

text \<open>
  C16: Inside a transaction with room for two more logged blocks, \<open>balloc\<close> always
  returns, hands out the lowest block whose bit is clear, and its whole effect on
  the disk contents as the kernel sees them is that this bit becomes set and
  this block becomes zero: no other block changes, and the log invariant
  (every modified block is pinned and listed in the header) is kept.
\<close>

theorem balloc_first_free:
  assumes "log_inv H s" "1 \<le> log_outstanding s" "lh_n s + 2 < log_size s" "card H + nat (lh_n s) + 1 < NBUF"
    and "first_free (bview s) b" "bm_geo H s" "2 \<le> b" "b < unat (log_start s)" "b \<notin> H"
  shows "\<exists>t. balloc 1 s = Ok (b, t) \<and> log_inv H t \<and> bview t = alloc_view (bview s) b
    \<and> lh_n t \<le> lh_n s + 2 \<and> txf s t"
  using balloc_wp [OF assms, of "\<lambda>c t. c = b \<and> log_inv H t \<and> bview t = alloc_view (bview s) b \<and> lh_n t \<le> lh_n s + 2 \<and> txf s t"]
  by (auto simp: kwp_Ok)

theorem balloc_first_free_witness:
  "\<exists>t. balloc 1 demo_fs = Ok (8, t) \<and> log_inv {} t \<and> bview t 5 ! 1 = 1 \<and> bview t 2 = replicate BSIZE 0"
proof -
  obtain t where t: "balloc 1 demo_fs = Ok (8, t)" "log_inv {} t" "bview t = alloc_view (bview demo_fs) 8"
    using balloc_first_free [OF demo_fs_inv(1) _ _ _ demo_fs_geo(4) demo_fs_geo(3)] demo_fs_inv(2-5)
    by (auto simp: NBUF_def)
  have "BBLOCK 8 16 = 5" by (simp add: BBLOCK_def BPB_def BSIZE_def IPB_def)
  then have "bview t 5 ! 1 = 1" "bview t 2 = replicate BSIZE 0"
    using t(3) demo_fs_geo(2) demo_fs_inv(7) [of 5] demo_fs_inv(7) [of 2]
    by (simp_all add: alloc_view_def demo_disk_def bm_set_def BPB_def BSIZE_def)
  then show ?thesis using t by blast
qed

text \<open>
  C17: \<open>bfree\<close> undoes \<open>balloc\<close>: allocating a block and freeing it again returns and
  leaves every block as it was, except that the block in question has been
  zeroed; and freeing it a second time panics.
\<close>

theorem balloc_bfree:
  assumes "log_inv H s" "1 \<le> log_outstanding s" "lh_n s + 3 < log_size s" "card H + nat (lh_n s) + 3 < NBUF"
    and "first_free (bview s) b" "bm_geo H s" "2 \<le> b" "b < unat (log_start s)" "b \<notin> H"
    and "b \<noteq> BBLOCK b (fs_ninodes (bview s))"
  shows "\<exists>t u. balloc 1 s = Ok (b, t) \<and> bfree 1 b t = Ok ((), u) \<and> log_inv H u
    \<and> bview u = (bview s)(b := replicate BSIZE 0) \<and> bfree 1 b u = Panic ''freeing free block''"
proof -
  let ?v = "bview s"
  let ?c = "BBLOCK b (fs_ninodes ?v)"
  let ?P = "\<lambda>c t. c = b \<and> log_inv H t \<and> bview t = alloc_view ?v b \<and> lh_n t \<le> lh_n s + 2 \<and> txf s t"
  have "kwp (balloc 1) ?P s" by (rule balloc_wp [OF assms(1,2) _ _ assms(5-9)]) (use assms in auto)
  then obtain t where t: "balloc 1 s = Ok (b, t)" "log_inv H t" "bview t = alloc_view ?v b" "lh_n t \<le> lh_n s + 2" "txf s t"
    by (auto simp: kwp_Ok)
  have c: "?c < unat (log_start s)" "3 \<le> ?c" using assms(5,6) BBLOCK_ge by (auto simp: bm_geo_def first_free_def)
  then have "?c < disksize s" using log_invD(2) [OF assms(1)] by (auto simp: log_geo_def)
  then have bi: "b mod BPB < 8 * length (?v ?c)" using io_view_length [OF log_invD(1) [OF assms(1)]] by (simp add: BPB_def BSIZE_def)
  have free: "\<not> bm_test (?v ?c) (b mod BPB)" using assms(5) by (simp add: first_free_def bfree_bit_def)
  have sb: "w 1 = ?v 1 \<Longrightarrow> fs_size w = fs_size ?v \<and> fs_ninodes w = fs_ninodes ?v" for w by (simp add: fs_size_def fs_ninodes_def)
  have "bview t 1 = ?v 1" using c assms(7) by (simp add: t(3) alloc_view_def)
  then have st: "fs_size (bview t) = fs_size ?v" "fs_ninodes (bview t) = fs_ninodes ?v" using sb [of "bview t"] by simp_all
  have ct: "bview t ?c = bm_set (?v ?c) (b mod BPB)" using assms(10) by (simp add: t(3) alloc_view_def)
  have geo: "bm_geo H t" using assms(6) st t(5) by (simp add: bm_geo_def txf_fields)
  have room: "lh_n t + 1 < log_size t" "card H + nat (lh_n t) < NBUF" "1 \<le> log_outstanding t" "b < fs_size (bview t)"
    using assms t(4) txf_fields [OF t(5)] st by (simp_all add: first_free_def)
  have "\<not> bfree_bit (bview t) b" using ct bi st by (simp add: bfree_bit_def bm_test_upd)
  then have "kwp (bfree 1 b) (\<lambda>_ u. log_inv H u \<and> bview u = (bview t)(?c := bm_clear (bview t ?c) (b mod BPB)) \<and> lh_n u \<le> lh_n t + 1 \<and> txf t u) t"
    using st by (intro bfree_wp [OF t(2) room(3,1,2,4) geo]) simp_all
  then obtain u where u: "bfree 1 b t = Ok ((), u)" "log_inv H u" "lh_n u \<le> lh_n t + 1" "txf t u"
    "bview u = (bview t)(?c := bm_clear (bview t ?c) (b mod BPB))" by (auto simp: kwp_Ok)
  have v: "bview u = ?v(b := replicate BSIZE 0)"
    using bm_clear_set [OF bi free] assms(10) by (auto simp: u(5) ct t(3) alloc_view_def fun_eq_iff)
  then have su: "fs_size (bview u) = fs_size ?v" "fs_ninodes (bview u) = fs_ninodes ?v" using sb [of "bview u"] assms(7) by simp_all
  have "bfree 1 b u = Panic ''freeing free block''"
  proof (rule bfree_free [OF u(2)])
    show "bm_geo H u" using geo st su u(4) by (simp add: bm_geo_def txf_fields)
    show "bfree_bit (bview u) b" using free su v assms(10) by (simp add: bfree_bit_def)
  qed (use assms u(3) t(4) su in \<open>simp_all add: first_free_def\<close>)
  then show ?thesis using t(1) u(1,2) v by blast
qed

theorem balloc_bfree_witness:
  "\<exists>t u. balloc 1 demo_fs = Ok (8, t) \<and> bfree 1 8 t = Ok ((), u) \<and> bview u 5 = demo_disk 5
    \<and> bfree 1 8 u = Panic ''freeing free block''"
proof -
  have "8 \<noteq> BBLOCK 8 (fs_ninodes (bview demo_fs))" by (simp add: demo_fs_geo(2) BBLOCK_def BPB_def BSIZE_def IPB_def)
  then obtain t u where "balloc 1 demo_fs = Ok (8, t)" "bfree 1 8 t = Ok ((), u)"
    "bview u = (bview demo_fs)(8 := replicate BSIZE 0)" "bfree 1 8 u = Panic ''freeing free block''"
    using balloc_bfree [OF demo_fs_inv(1) _ _ _ demo_fs_geo(4) demo_fs_geo(3)] demo_fs_inv(2-5)
    by (auto simp: NBUF_def)
  then show ?thesis using demo_fs_inv(7) [of 5] by simp
qed

end
