(* ===== verification/Inode.thy ===== *)
theory Inode
  imports Blocks
begin

text \<open>
  Inodes (\<open>fs.c\<close>): the table of in-memory inodes with its reference counts and
  lock bits, the inodes on disk, the map from file blocks to disk blocks with
  its single and double indirect blocks, and reading and writing of file
  contents.
\<close>

section \<open>State\<close>

definition NINODE :: nat where "NINODE = 50"
definition NDEV :: int where "NDEV = 10"
definition NDIRECT :: nat where "NDIRECT = 11"
definition NINDIRECT :: nat where "NINDIRECT = BSIZE div 4"
definition MAXFILE :: nat where "MAXFILE = NDIRECT + NINDIRECT + NINDIRECT * NINDIRECT"

definition I_BUSY :: u32 where "I_BUSY = 1"
definition I_VALID :: u32 where "I_VALID = 2"

definition T_DIR :: u16 where "T_DIR = 1"
definition T_FILE :: u16 where "T_FILE = 2"
definition T_DEV :: u16 where "T_DEV = 3"

record inode =
  i_dev :: u32
  i_inum :: u32
  i_ref :: int
  i_flags :: u32
  i_type :: u16
  i_major :: u16
  i_minor :: u16
  i_nlink :: u16
  i_size :: u32
  i_addrs :: "u32 list"

text \<open>A pointer to an inode is its index in \<open>icache.inode[]\<close>.\<close>

record fs_st = log_st +
  icache :: "nat \<Rightarrow> inode"

definition upd_inode :: "nat \<Rightarrow> (inode \<Rightarrow> inode) \<Rightarrow> ('z fs_st_scheme, unit) km" where
  "upd_inode ip f = kmod (\<lambda>s. s\<lparr>icache := (icache s)(ip := f (icache s ip))\<rparr>)"

definition get_inode :: "nat \<Rightarrow> ('z fs_st_scheme, inode) km" where
  "get_inode ip = kget (\<lambda>s. icache s ip)"

section \<open>The inode table\<close>

text \<open>
  One pass over the table: a slot in use for this inode, else the first slot
  with no references.
\<close>

definition iget :: "u32 \<Rightarrow> u32 \<Rightarrow> ('z fs_st_scheme, nat) km" where
  "iget dev inum = kbind (kget icache) (\<lambda>ic.
     case List.find (\<lambda>i. 0 < i_ref (ic i) \<and> i_dev (ic i) = dev \<and> i_inum (ic i) = inum) [0..<NINODE] of
       Some ip \<Rightarrow> kthen (upd_inode ip (\<lambda>i. i\<lparr>i_ref := i_ref i + 1\<rparr>)) (kret ip)
     | None \<Rightarrow>
         (case List.find (\<lambda>i. i_ref (ic i) = 0) [0..<NINODE] of
            None \<Rightarrow> kpanic ''iget: no inodes''
          | Some ip \<Rightarrow>
              kthen (upd_inode ip (\<lambda>i. i\<lparr>i_dev := dev, i_inum := inum, i_ref := 1, i_flags := 0\<rparr>)) (kret ip)))"

definition idup :: "nat \<Rightarrow> ('z fs_st_scheme, nat) km" where
  "idup ip = kthen (upd_inode ip (\<lambda>i. i\<lparr>i_ref := i_ref i + 1\<rparr>)) (kret ip)"

section \<open>Inodes on disk\<close>

text \<open>
  \<open>struct dinode\<close> is 64 bytes: \<open>type\<close>, \<open>major\<close>, \<open>minor\<close>, \<open>nlink\<close>, \<open>size\<close> and
  \<open>NDIRECT+2\<close> block addresses. \<open>load_dinode\<close> is what \<open>ilock\<close> copies out of the
  block, \<open>store_dinode\<close> what \<open>iupdate\<close> copies into it; \<open>o\<close> is the offset of the
  inode in the block.
\<close>

definition load_addrs :: "u8 list \<Rightarrow> nat \<Rightarrow> u32 list" where
  "load_addrs d o' = map (\<lambda>k. get32 d (o' + 4 * k)) [0..<NDIRECT + 2]"

definition load_dinode :: "u8 list \<Rightarrow> nat \<Rightarrow> inode \<Rightarrow> inode" where
  "load_dinode d o' i = i\<lparr>i_type := get16 d o', i_major := get16 d (o' + 2), i_minor := get16 d (o' + 4),
     i_nlink := get16 d (o' + 6), i_size := get32 d (o' + 8), i_addrs := load_addrs d (o' + 12)\<rparr>"

definition store_addrs :: "u8 list \<Rightarrow> nat \<Rightarrow> u32 list \<Rightarrow> u8 list" where
  "store_addrs d o' l = fold (\<lambda>k d. put32 d (o' + 4 * k) (l ! k)) [0..<NDIRECT + 2] d"

definition store_dinode :: "u8 list \<Rightarrow> nat \<Rightarrow> inode \<Rightarrow> u8 list" where
  "store_dinode d o' i =
     store_addrs (put32 (put16 (put16 (put16 (put16 d o' (i_type i)) (o' + 2) (i_major i)) (o' + 4) (i_minor i))
       (o' + 6) (i_nlink i)) (o' + 8) (i_size i)) (o' + 12) (i_addrs i)"

definition dinode_off :: "nat \<Rightarrow> nat" where
  "dinode_off inum = 64 * (inum mod IPB)"

primrec ialloc_scan :: "u32 \<Rightarrow> u16 \<Rightarrow> nat list \<Rightarrow> ('z fs_st_scheme, nat) km" where
  "ialloc_scan dev type [] = kpanic ''ialloc: no inodes''"
| "ialloc_scan dev type (inum # rest) =
     kbind (bread dev (of_nat (IBLOCK inum))) (\<lambda>bp.
     kbind (bdata bp) (\<lambda>d.
     if get16 d (dinode_off inum) = 0 then
       kthen (set_bdata bp (put16 (splice d (dinode_off inum) (replicate 64 0)) (dinode_off inum) type))
       (kthen (log_write bp)
       (kthen (brelse bp)
              (iget dev (of_nat inum))))
     else kthen (brelse bp) (ialloc_scan dev type rest)))"

definition ialloc :: "u32 \<Rightarrow> u16 \<Rightarrow> ('z fs_st_scheme, nat) km" where
  "ialloc dev type = kbind (readsb dev) (\<lambda>sb. ialloc_scan dev type [1..<unat (sb_ninodes sb)])"

definition iupdate :: "nat \<Rightarrow> ('z fs_st_scheme, unit) km" where
  "iupdate ip =
     kbind (get_inode ip) (\<lambda>i.
     kbind (bread (i_dev i) (of_nat (IBLOCK (unat (i_inum i))))) (\<lambda>bp.
     kbind (bdata bp) (\<lambda>d.
     kthen (set_bdata bp (store_dinode d (dinode_off (unat (i_inum i))) i))
     (kthen (log_write bp)
            (brelse bp)))))"

section \<open>Locking\<close>

text \<open>
  A process that finds the inode locked sleeps; \<open>wakeup\<close> changes only the
  process table. The pointer arguments are never null: the callers test the
  results of \<open>namei\<close> and \<open>dirlookup\<close>, which are of an option type here.
\<close>

definition ilock :: "nat \<Rightarrow> ('z fs_st_scheme, unit) km" where
  "ilock ip =
     kbind (get_inode ip) (\<lambda>i.
     if i_ref i < 1 then kpanic ''ilock''
     else if i_flags i AND I_BUSY \<noteq> 0 then ksleep ''inode''
     else kthen (upd_inode ip (\<lambda>i. i\<lparr>i_flags := i_flags i OR I_BUSY\<rparr>))
       (if i_flags i AND I_VALID = 0 then
          kbind (bread (i_dev i) (of_nat (IBLOCK (unat (i_inum i))))) (\<lambda>bp.
          kbind (bdata bp) (\<lambda>d.
          kthen (upd_inode ip (load_dinode d (dinode_off (unat (i_inum i)))))
          (kthen (brelse bp)
          (kthen (upd_inode ip (\<lambda>i. i\<lparr>i_flags := i_flags i OR I_VALID\<rparr>))
          (kbind (get_inode ip) (\<lambda>i. if i_type i = 0 then kpanic ''ilock: no type'' else kret ()))))))
        else kret ()))"

definition iunlock :: "nat \<Rightarrow> ('z fs_st_scheme, unit) km" where
  "iunlock ip = kbind (get_inode ip) (\<lambda>i.
     if i_flags i AND I_BUSY = 0 \<or> i_ref i < 1 then kpanic ''iunlock''
     else upd_inode ip (\<lambda>i. i\<lparr>i_flags := i_flags i AND NOT I_BUSY\<rparr>))"

section \<open>File blocks\<close>

text \<open>
  \<open>if((addr = ip->addrs[k]) == 0) ip->addrs[k] = addr = balloc(ip->dev);\<close>
\<close>

definition addr_slot :: "nat \<Rightarrow> nat \<Rightarrow> ('z fs_st_scheme, u32) km" where
  "addr_slot ip k = kbind (get_inode ip) (\<lambda>i.
     if i_addrs i ! k = 0 then
       kbind (balloc (i_dev i)) (\<lambda>b.
       kthen (upd_inode ip (\<lambda>i. i\<lparr>i_addrs := (i_addrs i)[k := of_nat b]\<rparr>)) (kret (of_nat b)))
     else kret (i_addrs i ! k))"

text \<open>
  The block that has the address \<open>addr\<close> read as an array of addresses, of which
  entry \<open>k\<close> is allocated if it is zero. The buffer stays locked during
  \<open>balloc\<close>.
\<close>

definition ind_slot :: "u32 \<Rightarrow> u32 \<Rightarrow> nat \<Rightarrow> ('z fs_st_scheme, u32) km" where
  "ind_slot dev addr k =
     kbind (bread dev addr) (\<lambda>bp.
     kbind (bdata bp) (\<lambda>d.
     let a = get32 d (4 * k) in
     if a = 0 then
       kbind (balloc dev) (\<lambda>b.
       kbind (bdata bp) (\<lambda>d.
       kthen (set_bdata bp (put32 d (4 * k) (of_nat b)))
       (kthen (log_write bp)
       (kthen (brelse bp) (kret (of_nat b))))))
     else kthen (brelse bp) (kret a)))"

definition bmap :: "nat \<Rightarrow> nat \<Rightarrow> ('z fs_st_scheme, u32) km" where
  "bmap ip bn =
     kbind (get_inode ip) (\<lambda>i.
     if bn < NDIRECT then addr_slot ip bn
     else let bn = bn - NDIRECT in
     if bn < NINDIRECT then
       kbind (addr_slot ip NDIRECT) (\<lambda>addr. ind_slot (i_dev i) addr bn)
     else let bn = bn - NINDIRECT in
     if bn < NINDIRECT * NINDIRECT then
       kbind (addr_slot ip (NDIRECT + 1)) (\<lambda>addr.
       kbind (ind_slot (i_dev i) addr (bn div NINDIRECT)) (\<lambda>addr.
       ind_slot (i_dev i) addr (bn mod NINDIRECT)))
     else kpanic ''bmap: out of range'')"

definition itrunc :: "nat \<Rightarrow> ('z fs_st_scheme, unit) km" where
  "itrunc ip =
     kthen (kfor [0..<NDIRECT] (\<lambda>k.
       kbind (get_inode ip) (\<lambda>i.
       if i_addrs i ! k \<noteq> 0 then
         kthen (bfree (i_dev i) (unat (i_addrs i ! k)))
               (upd_inode ip (\<lambda>i. i\<lparr>i_addrs := (i_addrs i)[k := 0]\<rparr>))
       else kret ())))
     (kthen (kbind (get_inode ip) (\<lambda>i.
       if i_addrs i ! NDIRECT \<noteq> 0 then
         kbind (bread (i_dev i) (i_addrs i ! NDIRECT)) (\<lambda>bp.
         kthen (kfor [0..<NINDIRECT] (\<lambda>j.
           kbind (bdata bp) (\<lambda>d.
           if get32 d (4 * j) \<noteq> 0 then bfree (i_dev i) (unat (get32 d (4 * j))) else kret ())))
         (kthen (brelse bp)
         (kthen (bfree (i_dev i) (unat (i_addrs i ! NDIRECT)))
                (upd_inode ip (\<lambda>i. i\<lparr>i_addrs := (i_addrs i)[NDIRECT := 0]\<rparr>)))))
       else kret ()))
     (kthen (upd_inode ip (\<lambda>i. i\<lparr>i_size := 0\<rparr>))
            (iupdate ip)))"

definition iput :: "nat \<Rightarrow> ('z fs_st_scheme, unit) km" where
  "iput ip =
     kthen (kbind (get_inode ip) (\<lambda>i.
       if i_ref i = 1 \<and> i_flags i AND I_VALID \<noteq> 0 \<and> i_nlink i = 0 then
         if i_flags i AND I_BUSY \<noteq> 0 then kpanic ''iput busy''
         else kthen (upd_inode ip (\<lambda>i. i\<lparr>i_flags := i_flags i OR I_BUSY\<rparr>))
             (kthen (itrunc ip)
             (kthen (upd_inode ip (\<lambda>i. i\<lparr>i_type := 0\<rparr>))
             (kthen (iupdate ip)
                    (upd_inode ip (\<lambda>i. i\<lparr>i_flags := 0\<rparr>)))))
       else kret ()))
     (upd_inode ip (\<lambda>i. i\<lparr>i_ref := i_ref i - 1\<rparr>))"

definition iunlockput :: "nat \<Rightarrow> ('z fs_st_scheme, unit) km" where
  "iunlockput ip = kthen (iunlock ip) (iput ip)"

section \<open>Reading and writing\<close>

record stat =
  st_type :: u16
  st_dev :: u32
  st_ino :: u32
  st_nlink :: u16
  st_size :: u32

definition stati :: "nat \<Rightarrow> ('z fs_st_scheme, stat) km" where
  "stati ip = kbind (get_inode ip) (\<lambda>i. kret
     \<lparr>st_type = i_type i, st_dev = i_dev i, st_ino = i_inum i, st_nlink = i_nlink i, st_size = i_size i\<rparr>)"

text \<open>
  The device table \<open>devsw[]\<close>: for a major number the routines of its driver,
  if there are any. A read gives the result and the bytes stored at \<open>dst\<close>.
\<close>

record 's devsw =
  dev_read :: "(nat \<Rightarrow> u32 \<Rightarrow> ('s, int \<times> u8 list) km) option"
  dev_write :: "(nat \<Rightarrow> u8 list \<Rightarrow> u32 \<Rightarrow> ('s, int) km) option"

text \<open>
  The copying loop of \<open>readi\<close> with \<open>n\<close> bytes left at \<open>off\<close>; every turn moves at
  least one byte.
\<close>

function readi_loop :: "nat \<Rightarrow> nat \<Rightarrow> nat \<Rightarrow> ('z fs_st_scheme, u8 list) km" where
  "readi_loop ip off n =
     (if n = 0 then kret [] else
      let m = min n (BSIZE - off mod BSIZE) in
      kbind (get_inode ip) (\<lambda>i.
      kbind (bmap ip (off div BSIZE)) (\<lambda>addr.
      kbind (bread (i_dev i) addr) (\<lambda>bp.
      kbind (bdata bp) (\<lambda>d.
      kthen (brelse bp)
      (kbind (readi_loop ip (off + m) (n - m)) (\<lambda>rest.
       kret (slice d (off mod BSIZE) m @ rest))))))))"
  by pat_completeness auto
termination
  by (relation "measure (\<lambda>(ip, off, n). n)") (auto simp: BSIZE_def min_def)

definition readi :: "(nat \<Rightarrow> 'z fs_st_scheme devsw) \<Rightarrow> nat \<Rightarrow> u32 \<Rightarrow> u32 \<Rightarrow> ('z fs_st_scheme, int \<times> u8 list) km" where
  "readi dv ip off n = kbind (get_inode ip) (\<lambda>i.
     if i_type i = T_DEV then
       if sint (i_major i) < 0 \<or> NDEV \<le> sint (i_major i) then kret (-1, [])
       else (case dev_read (dv (nat (sint (i_major i)))) of
               None \<Rightarrow> kret (-1, []) | Some f \<Rightarrow> f ip n)
     else if i_size i < off \<or> off + n < off then kret (-1, [])
     else let n = (if i_size i < off + n then i_size i - off else n) in
       kbind (readi_loop ip (unat off) (unat n)) (\<lambda>bs. kret (sint n, bs)))"

function writei_loop :: "nat \<Rightarrow> u8 list \<Rightarrow> nat \<Rightarrow> ('z fs_st_scheme, unit) km" where
  "writei_loop ip src off =
     (if src = [] then kret () else
      let m = min (length src) (BSIZE - off mod BSIZE) in
      kbind (get_inode ip) (\<lambda>i.
      kbind (bmap ip (off div BSIZE)) (\<lambda>addr.
      kbind (bread (i_dev i) addr) (\<lambda>bp.
      kbind (bdata bp) (\<lambda>d.
      kthen (set_bdata bp (splice d (off mod BSIZE) (take m src)))
      (kthen (log_write bp)
      (kthen (brelse bp)
             (writei_loop ip (drop m src) (off + m)))))))))"
  by pat_completeness auto
termination
  by (relation "measure (\<lambda>(ip, src, off). length src)") (auto simp: BSIZE_def min_def)

declare writei_loop.simps [simp del]

text \<open>\<open>src\<close> gives the \<open>n\<close> bytes at the source address.\<close>

definition writei :: "(nat \<Rightarrow> 'z fs_st_scheme devsw) \<Rightarrow> nat \<Rightarrow> u8 list \<Rightarrow> u32 \<Rightarrow> u32 \<Rightarrow> ('z fs_st_scheme, int) km" where
  "writei dv ip src off n = kbind (get_inode ip) (\<lambda>i.
     if i_type i = T_DEV then
       if sint (i_major i) < 0 \<or> NDEV \<le> sint (i_major i) then kret (-1)
       else (case dev_write (dv (nat (sint (i_major i)))) of
               None \<Rightarrow> kret (-1) | Some f \<Rightarrow> f ip src n)
     else if i_size i < off \<or> off + n < off then kret (-1)
     else if of_nat (MAXFILE * BSIZE) < off + n then kret (-1)
     else
       kthen (writei_loop ip (take (unat n) src) (unat off))
       (kthen (kbind (get_inode ip) (\<lambda>i.
          if 0 < n \<and> i_size i < off + n then
            kthen (upd_inode ip (\<lambda>i. i\<lparr>i_size := off + n\<rparr>)) (iupdate ip)
          else kret ()))
        (kret (sint n))))"

section \<open>Inodes in memory and on disk\<close>

lemma icache_frame [simp]:
  "bview (icache_update f s) = bview s" "held (icache_update f s) = held s"
  "log_inv H (icache_update f s) = log_inv H s"
proof -
  note c = bio_cong [of "icache_update f s" s]
  show "bview (icache_update f s) = bview s" "held (icache_update f s) = held s" by (rule c; simp)+
  have "io H (icache_update f s) = io H s" "dirty_secs (icache_update f s) = dirty_secs s" by (rule c; simp)+
  then show "log_inv H (icache_update f s) = log_inv H s"
    by (simp add: log_inv_def log_geo_def homes_def)
qed

lemma icache_commute [simp]: "bufs_update f (icache_update g s) = icache_update g (bufs_update f s)"
  by (rule fs_st.equality) simp_all

lemma icache_more: "log_st.more t = log_st.more s \<Longrightarrow> icache t = icache s"
  by (cases s; cases t; simp)

lemma txf_icache: "txf s t \<Longrightarrow> icache t = icache s"
  using txf_fields(9) icache_more by blast

lemma kwp_inode [simp]:
  "kwp (get_inode ip) Q = (\<lambda>s. Q (icache s ip) s)"
  "kwp (upd_inode ip f) R = (\<lambda>s. R () (s\<lparr>icache := (icache s)(ip := f (icache s ip))\<rparr>))"
  by (simp_all add: get_inode_def upd_inode_def)

lemma store_addrs_n:
  fixes l :: "u32 list"
  assumes "o' + 4 * n \<le> length d"
  defines "e \<equiv> fold (\<lambda>k d. put32 d (o' + 4 * k) (l ! k)) [0..<n] d"
  shows "length e = length d" "k < n \<Longrightarrow> get32 e (o' + 4 * k) = l ! k"
    "p + 2 \<le> o' \<Longrightarrow> get16 e p = get16 d p" "p + 4 \<le> o' \<Longrightarrow> get32 e p = get32 d p"
proof -
  have "length e = length d \<and> (\<forall>k < n. get32 e (o' + 4 * k) = l ! k)
    \<and> (p + 2 \<le> o' \<longrightarrow> get16 e p = get16 d p) \<and> (p + 4 \<le> o' \<longrightarrow> get32 e p = get32 d p)"
    using assms(1) unfolding e_def
  proof (induction n)
    case (Suc n)
    then show ?case by (auto simp: byte_simps less_Suc_eq)
  qed simp
  then show "length e = length d" "k < n \<Longrightarrow> get32 e (o' + 4 * k) = l ! k"
    "p + 2 \<le> o' \<Longrightarrow> get16 e p = get16 d p" "p + 4 \<le> o' \<Longrightarrow> get32 e p = get32 d p" by auto
qed

text \<open>The fields that live on disk.\<close>

definition same_dinode :: "inode \<Rightarrow> inode \<Rightarrow> bool" where
  "same_dinode i j \<longleftrightarrow> i_type i = i_type j \<and> i_major i = i_major j \<and> i_minor i = i_minor j
     \<and> i_nlink i = i_nlink j \<and> i_size i = i_size j \<and> i_addrs i = i_addrs j"

lemma store_dinode_length [simp]: "o' + 64 \<le> length d \<Longrightarrow> length (store_dinode d o' i) = length d"
  by (simp add: store_dinode_def store_addrs_def store_addrs_n NDIRECT_def)

lemma load_store_dinode:
  assumes "o' + 64 \<le> length d" "length (i_addrs i) = NDIRECT + 2"
  shows "same_dinode (load_dinode (store_dinode d o' i) o' j) i"
proof -
  let ?d = "put32 (put16 (put16 (put16 (put16 d o' (i_type i)) (o' + 2) (i_major i)) (o' + 4) (i_minor i))
       (o' + 6) (i_nlink i)) (o' + 8) (i_size i)"
  have l: "o' + 12 + 4 * (NDIRECT + 2) \<le> length ?d" using assms(1) by (simp add: NDIRECT_def)
  note f = store_addrs_n [where l = "i_addrs i", OF l, folded store_addrs_def, folded store_dinode_def]
  have "load_addrs (store_dinode d o' i) (o' + 12) = i_addrs i"
    unfolding load_addrs_def by (rule nth_equalityI) (use assms f(2) in \<open>simp_all del: upt_Suc\<close>)
  then show ?thesis
    using assms(1) by (simp add: same_dinode_def load_dinode_def f(3,4) byte_simps)
qed

lemma dinode_off: "dinode_off inum + 64 \<le> BSIZE"
proof -
  have "inum mod IPB < 8" by (simp add: IPB_def)
  then show ?thesis by (simp add: dinode_off_def BSIZE_def)
qed

lemma load_dinode_frame [simp]:
  "i_dev (load_dinode d o' i) = i_dev i" "i_inum (load_dinode d o' i) = i_inum i"
  "i_ref (load_dinode d o' i) = i_ref i" "i_flags (load_dinode d o' i) = i_flags i"
  "load_dinode d o' (i_flags_update f i) = i_flags_update f (load_dinode d o' i)"
  by (simp_all add: load_dinode_def)

text \<open>
  \<open>iupdate\<close> writes the inode, and nothing else, into its block of the
  transaction; \<open>ilock\<close> of an inode that is not valid reads it from there.
\<close>

definition iblock_ok :: "nat set \<Rightarrow> 'z fs_st_scheme \<Rightarrow> nat \<Rightarrow> bool" where
  "iblock_ok H s ip \<longleftrightarrow> i_dev (icache s ip) = 1 \<and> IBLOCK (unat (i_inum (icache s ip))) < unat (log_start s)
     \<and> IBLOCK (unat (i_inum (icache s ip))) \<notin> H"

definition iblk :: "inode \<Rightarrow> nat" where
  "iblk i = IBLOCK (unat (i_inum i))"

lemma iupdate_wp:
  assumes inv: "log_inv H s" and out: "1 \<le> log_outstanding s" and room: "lh_n s + 1 < log_size s" "card H + nat (lh_n s) < NBUF"
    and ok: "iblock_ok H s ip" and i: "i = icache s ip"
    and Q: "\<And>t. txf s t \<Longrightarrow> log_inv H t \<Longrightarrow>
      bview t = (bview s)(iblk i := store_dinode (bview s (iblk i)) (dinode_off (unat (i_inum i))) i) \<Longrightarrow>
      lh_n t \<le> lh_n s + 1 \<Longrightarrow> (\<And>j x. held s j x \<Longrightarrow> held t j x) \<Longrightarrow> Q () t"
  shows "kwp (iupdate ip) Q s"
proof -
  have b: "iblk i < unat (log_start s)" "iblk i \<notin> H" "i_dev i = 1" using ok i by (auto simp: iblock_ok_def iblk_def)
  have u: "unat (of_nat (iblk i) :: u32) = iblk i" using b log_start_32 [OF inv] by (simp add: unat_of_nat32)
  have dev: "iblk i < disksize s" using b log_invD(2) [OF inv] by (auto simp: log_geo_def)
  have len: "length (bview s (iblk i)) = BSIZE" using io_view_length [OF log_invD(1) [OF inv] dev] by simp
  have "2 \<le> iblk i" by (simp add: iblk_def IBLOCK_def)
  then show ?thesis
    unfolding iupdate_def kwp_bind kwp_inode i [symmetric] iblk_def [symmetric] b(3)
    by (intro tx_modify [where f = "\<lambda>d. store_dinode d (dinode_off (unat (i_inum i))) i" and Q = "Q ()", OF inv])
      (use b u out room len Q dinode_off in \<open>simp_all add: bdata_def\<close>)
qed

lemma I_flags [simp]: "(f OR I_BUSY) AND I_VALID = f AND I_VALID" "(f OR I_BUSY) AND I_BUSY = I_BUSY"
  "((f OR I_BUSY) OR I_VALID) AND I_VALID = I_VALID" "I_BUSY \<noteq> 0" "I_VALID \<noteq> 0"
proof -
  have b: "bit I_BUSY n \<longleftrightarrow> n = 0" "bit I_VALID n \<longleftrightarrow> n = Suc 0" for n
    using bit_exp_iff [where 'a = u32, of 1 n] by (auto simp: I_BUSY_def I_VALID_def bit_1_iff)
  show "(f OR I_BUSY) AND I_VALID = f AND I_VALID" "(f OR I_BUSY) AND I_BUSY = I_BUSY"
    "((f OR I_BUSY) OR I_VALID) AND I_VALID = I_VALID"
    by (rule bit_word_eqI; auto simp: bit_simps b)+
qed (simp_all add: I_BUSY_def I_VALID_def)

text \<open>The inode \<open>ilock\<close> leaves in slot \<open>ip\<close>.\<close>

definition locked_inode :: "(nat \<Rightarrow> u8 list) \<Rightarrow> inode \<Rightarrow> inode" where
  "locked_inode v i = (if i_flags i AND I_VALID = 0
     then (load_dinode (v (iblk i)) (dinode_off (unat (i_inum i))) i)\<lparr>i_flags := (i_flags i OR I_BUSY) OR I_VALID\<rparr>
     else i\<lparr>i_flags := i_flags i OR I_BUSY\<rparr>)"

lemma ilock_wp:
  assumes inv: "log_inv H s" and room: "card H + nat (lh_n s) < NBUF" and ok: "iblock_ok H s ip" and i: "i = icache s ip"
    and ref: "1 \<le> i_ref i" "i_flags i AND I_BUSY = 0"
    and type: "i_flags i AND I_VALID = 0 \<Longrightarrow> i_type (locked_inode (bview s) i) \<noteq> 0"
    and Q: "\<And>B. log_inv H (s\<lparr>bufs := B\<rparr>) \<Longrightarrow> bview (s\<lparr>bufs := B\<rparr>) = bview s \<Longrightarrow> (\<And>j x. held s j x \<Longrightarrow> held (s\<lparr>bufs := B\<rparr>) j x) \<Longrightarrow>
      Q () (s\<lparr>bufs := B, icache := (icache s)(ip := locked_inode (bview s) i)\<rparr>)"
  shows "kwp (ilock ip) Q s"
proof (cases "i_flags i AND I_VALID = 0")
  case False
  have "s\<lparr>bufs := bufs s\<rparr> = s" by simp
  then show ?thesis using False ref inv Q [of "bufs s"] by (simp add: ilock_def i [symmetric] locked_inode_def)
next
  case True
  have b: "iblk i < unat (log_start s)" "iblk i \<notin> H" "i_dev i = 1" using ok i by (auto simp: iblock_ok_def iblk_def)
  have u: "unat (of_nat (iblk i) :: u32) = iblk i" using b log_start_32 [OF inv] by (simp add: unat_of_nat32)
  have dev: "iblk i < disksize s" using b log_invD(2) [OF inv] by (auto simp: log_geo_def)
  let ?n = "of_nat (iblk i) :: u32"
  let ?b = "i\<lparr>i_flags := i_flags i OR I_BUSY\<rparr>"
  let ?s = "s\<lparr>icache := (icache s)(ip := ?b)\<rparr>"
  let ?ld = "load_dinode (bview s (iblk i)) (dinode_off (unat (i_inum i)))"
  let ?R = "\<lambda>u. let u = u\<lparr>icache := (icache u)(ip := (icache u ip)\<lparr>i_flags := i_flags (icache u ip) OR I_VALID\<rparr>)\<rparr> in
      kwp (if i_type (icache u ip) = 0 then kpanic ''ilock: no type'' else kret ()) Q u"
  have "kwp (bread 1 (of_nat (iblk i))) (\<lambda>bp. kwp (bdata bp) (\<lambda>d t. kwp (brelse bp) (\<lambda>_. ?R)
      (t\<lparr>icache := (icache t)(ip := load_dinode d (dinode_off (unat (i_inum i))) (icache t ip))\<rparr>))) ?s"
  proof (rule tx_bread)
    fix bp B
    let ?t = "?s\<lparr>bufs := B\<rparr>"
    assume 1: "log_inv (insert (unat ?n) H) ?t" "held ?t bp ?n" "bview ?t = bview ?s"
      "\<And>j x. held ?s j x \<Longrightarrow> held ?t j x"
    let ?v = "?t\<lparr>icache := (icache ?t)(ip := ?ld ?b)\<rparr>"
    have "kwp (brelse bp) (\<lambda>_. ?R) ?v"
    proof (rule tx_brelse)
      show "log_inv (insert (unat ?n) H) ?v" "held ?v bp ?n" using 1(1,2) by simp_all
      fix B2
      assume 2: "log_inv (insert (unat ?n) H - {unat ?n}) (?v\<lparr>bufs := B2\<rparr>)"
        "bview (?v\<lparr>bufs := B2\<rparr>) = bview ?v" "\<And>j x. held ?v j x \<Longrightarrow> x \<noteq> ?n \<Longrightarrow> held (?v\<lparr>bufs := B2\<rparr>) j x"
      have h: "held (s\<lparr>bufs := B2\<rparr>) j x" if "held s j x" for j x
      proof -
        have "unat x \<noteq> iblk i" using held_in [OF log_invD(1) [OF inv] that] b(2) by auto
        then have "x \<noteq> ?n" using u by auto
        then show ?thesis using that 2(3) [of j x] 1(4) [of j x] by simp
      qed
      have "insert (iblk i) H - {iblk i} = H" using b(2) by simp
      then have "Q () (s\<lparr>bufs := B2, icache := (icache s)(ip := locked_inode (bview s) i)\<rparr>)"
        using Q [of B2] 1(3) 2 u h by simp
      then show "?R (?v\<lparr>bufs := B2\<rparr>)"
        using type True by (simp add: locked_inode_def)
    qed
    then show "kwp (bdata bp) (\<lambda>d t. kwp (brelse bp) (\<lambda>_. ?R)
      (t\<lparr>icache := (icache t)(ip := load_dinode d (dinode_off (unat (i_inum i))) (icache t ip))\<rparr>)) ?t"
      unfolding wp_bdata [OF 1(1,2)] using 1(3) u by simp
  qed (use inv b u dev room in simp_all)
  then show ?thesis using True ref b(3) by (simp add: ilock_def i [symmetric] iblk_def [symmetric] Let_def)
qed

section \<open>Reading a file\<close>

text \<open>
  \<open>quiet H s t\<close>: from \<open>s\<close> to \<open>t\<close> blocks were only read; the cache may hold other
  blocks, but the contents seen through it and everything else are as before.
\<close>

definition quiet :: "nat set \<Rightarrow> 'z log_st_scheme \<Rightarrow> 'z log_st_scheme \<Rightarrow> bool" where
  "quiet H s t \<longleftrightarrow> t = s\<lparr>bufs := bufs t\<rparr> \<and> log_inv H t \<and> bview t = bview s \<and> (\<forall>j x. held s j x \<longrightarrow> held t j x)"

lemma quietD:
  assumes "quiet H s t"
  shows "log_inv H t" "bview t = bview s" "held s j x \<Longrightarrow> held t j x" "disksize t = disksize s" "lh_n t = lh_n s"
    "log_start t = log_start s" "log_size t = log_size s" "log_outstanding t = log_outstanding s" "txf s t"
    "log_st.more t = log_st.more s"
proof -
  have e: "t = s\<lparr>bufs := bufs t\<rparr>" using assms by (simp add: quiet_def)
  show "log_inv H t" "bview t = bview s" "held s j x \<Longrightarrow> held t j x" using assms by (auto simp: quiet_def)
  show "disksize t = disksize s" "lh_n t = lh_n s" "log_start t = log_start s" "log_size t = log_size s"
    "log_outstanding t = log_outstanding s" "log_st.more t = log_st.more s" by (subst e, simp)+
  show "txf s t" by (subst e) simp
qed

lemma quiet_icache: "quiet H s t \<Longrightarrow> icache t = icache s"
  using quietD(10) icache_more by blast

lemma quiet_refl: "log_inv H s \<Longrightarrow> quiet H s s"
  by (simp add: quiet_def)

lemma quiet_trans: "quiet H s t \<Longrightarrow> quiet H t u \<Longrightarrow> quiet H s u"
proof -
  assume a: "quiet H s t" "quiet H t u"
  then have e: "t = s\<lparr>bufs := bufs t\<rparr>" "u = t\<lparr>bufs := bufs u\<rparr>" by (simp_all add: quiet_def)
  have "u = s\<lparr>bufs := bufs u\<rparr>" by (subst e(2), subst e(1)) simp
  then show ?thesis using a by (simp add: quiet_def)
qed

lemma peek_wp:
  assumes "log_inv H s" "unat sec < disksize s" "unat sec \<notin> H" "card H + nat (lh_n s) < NBUF"
    and Q: "\<And>t. quiet H s t \<Longrightarrow> Q (bview s (unat sec)) t"
  shows "kwp (bread 1 sec) (\<lambda>bp. kwp (bdata bp) (\<lambda>d. kwp (brelse bp) (\<lambda>_. Q d))) s"
proof (rule tx_peek [OF assms(1-4)])
  show "Q (bview s (unat sec)) (s\<lparr>bufs := B\<rparr>)" if "log_inv H (s\<lparr>bufs := B\<rparr>)" "bview (s\<lparr>bufs := B\<rparr>) = bview s"
    "\<And>j x. held s j x \<Longrightarrow> held (s\<lparr>bufs := B\<rparr>) j x" for B
    using that by (intro Q) (simp add: quiet_def)
qed (simp add: bdata_def)

text \<open>
  The disk blocks on the way from the inode to file block \<open>bn\<close>, the block
  itself last: no indirect block, one, or two.
\<close>

definition fpath :: "(nat \<Rightarrow> u8 list) \<Rightarrow> u32 list \<Rightarrow> nat \<Rightarrow> u32 list" where
  "fpath v a bn =
     (if bn < NDIRECT then [a ! bn]
      else if bn - NDIRECT < NINDIRECT then
        [a ! NDIRECT, get32 (v (unat (a ! NDIRECT))) (4 * (bn - NDIRECT))]
      else let k = bn - NDIRECT - NINDIRECT; b = get32 (v (unat (a ! (NDIRECT + 1)))) (4 * (k div NINDIRECT)) in
        [a ! (NDIRECT + 1), b, get32 (v (unat b)) (4 * (k mod NINDIRECT))])"

definition fblock :: "(nat \<Rightarrow> u8 list) \<Rightarrow> u32 list \<Rightarrow> nat \<Rightarrow> u32" where
  "fblock v a bn = last (fpath v a bn)"

definition fmapped :: "nat set \<Rightarrow> 'z fs_st_scheme \<Rightarrow> u32 list \<Rightarrow> nat \<Rightarrow> bool" where
  "fmapped H s a bn \<longleftrightarrow> bn < MAXFILE \<and> (\<forall>x \<in> set (fpath (bview s) a bn). x \<noteq> 0 \<and> unat x < disksize s \<and> unat x \<notin> H)"

lemma ind_slot_lookup:
  assumes "log_inv H s" "unat addr < disksize s" "unat addr \<notin> H" "card H + nat (lh_n s) < NBUF"
    and "get32 (bview s (unat addr)) (4 * k) \<noteq> 0"
    and Q: "\<And>t. quiet H s t \<Longrightarrow> Q (get32 (bview s (unat addr)) (4 * k)) t"
  shows "kwp (ind_slot 1 addr k) Q s"
  unfolding ind_slot_def kwp_bind
  by (rule tx_peek [OF assms(1-4), where Q = "Q (get32 (bview s (unat addr)) (4 * k))"])
    (use assms(5) Q in \<open>simp_all add: bdata_def Let_def quiet_def\<close>)

lemma bmap_lookup:
  assumes inv: "log_inv H s" and room: "card H + nat (lh_n s) < NBUF" and i: "i = icache s ip" "i_dev i = 1"
    and m: "fmapped H s (i_addrs i) bn"
    and Q: "\<And>t. quiet H s t \<Longrightarrow> Q (fblock (bview s) (i_addrs i) bn) t"
  shows "kwp (bmap ip bn) Q s"
proof -
  let ?v = "bview s"
  have slot: "kwp (addr_slot ip k) R s = R (i_addrs i ! k) s" if "i_addrs i ! k \<noteq> 0" for k R
    using that by (simp add: addr_slot_def i(1))
  consider (d) "bn < NDIRECT" | (i1) "\<not> bn < NDIRECT" "bn - NDIRECT < NINDIRECT"
    | (i2) "\<not> bn < NDIRECT" "\<not> bn - NDIRECT < NINDIRECT" by blast
  then show ?thesis
  proof cases
    case d
    then show ?thesis
      using m Q [OF quiet_refl [OF inv]] slot [of bn] by (simp add: bmap_def fmapped_def fblock_def fpath_def)
  next
    case i1
    then have "fblock ?v (i_addrs i) bn = get32 (?v (unat (i_addrs i ! NDIRECT))) (4 * (bn - NDIRECT))"
      by (simp add: fblock_def fpath_def)
    then have "kwp (ind_slot 1 (i_addrs i ! NDIRECT) (bn - NDIRECT)) Q s"
      using m i1 Q by (intro ind_slot_lookup [OF inv]) (auto simp: fmapped_def fpath_def room)
    then show ?thesis using i1 m slot [of NDIRECT] i by (simp add: bmap_def fmapped_def fpath_def Let_def)
  next
    case i2
    define k where "k = bn - NDIRECT - NINDIRECT"
    define b where "b = get32 (?v (unat (i_addrs i ! (NDIRECT + 1)))) (4 * (k div NINDIRECT))"
    have p: "fpath ?v (i_addrs i) bn = [i_addrs i ! (NDIRECT + 1), b, get32 (?v (unat b)) (4 * (k mod NINDIRECT))]"
      using i2 by (simp add: fpath_def k_def b_def Let_def)
    have k: "k < NINDIRECT * NINDIRECT" using m i2 unfolding fmapped_def MAXFILE_def k_def by linarith
    have "kwp (ind_slot 1 (i_addrs i ! (NDIRECT + 1)) (k div NINDIRECT)) (\<lambda>addr. kwp (ind_slot 1 addr (k mod NINDIRECT)) Q) s"
    proof (rule ind_slot_lookup [OF inv], unfold b_def [symmetric])
      fix t
      assume t: "quiet H s t"
      note f = quietD [OF t]
      show "kwp (ind_slot 1 b (k mod NINDIRECT)) Q t"
        by (rule ind_slot_lookup [OF f(1)])
          (use m p f(2,4,5) room Q quiet_trans [OF t] in \<open>auto simp: fmapped_def fblock_def\<close>)
    qed (use m p room in \<open>auto simp: fmapped_def\<close>)
    then show ?thesis using i2 k m p slot [of "NDIRECT + 1"] i by (simp add: bmap_def fmapped_def Let_def k_def)
  qed
qed

text \<open>Byte \<open>k\<close> of a file; \<open>readi\<close> gives the bytes from \<open>off\<close> on.\<close>

definition fbyte :: "(nat \<Rightarrow> u8 list) \<Rightarrow> u32 list \<Rightarrow> nat \<Rightarrow> u8" where
  "fbyte v a k = v (unat (fblock v a (k div BSIZE))) ! (k mod BSIZE)"

definition fbytes :: "(nat \<Rightarrow> u8 list) \<Rightarrow> u32 list \<Rightarrow> nat \<Rightarrow> nat \<Rightarrow> u8 list" where
  "fbytes v a off n = map (fbyte v a) [off..<off + n]"

lemma same_block:
  assumes "off mod BSIZE + j < BSIZE"
  shows "(off + j) div BSIZE = off div BSIZE" "(off + j) mod BSIZE = off mod BSIZE + j"
proof -
  have e: "off + j = (off mod BSIZE + j) + off div BSIZE * BSIZE" by (metis add.assoc add.commute div_mult_mod_eq)
  have "(x + q * BSIZE) div BSIZE = q \<and> (x + q * BSIZE) mod BSIZE = x" if "x < BSIZE" for x q using that by simp
  from this [OF assms, of "off div BSIZE"]
  show "(off + j) div BSIZE = off div BSIZE" "(off + j) mod BSIZE = off mod BSIZE + j"
    unfolding e [symmetric] by blast+
qed

lemma fbytes_chunk:
  assumes "m \<le> n" "off mod BSIZE + m \<le> BSIZE" "length (v (unat (fblock v a (off div BSIZE)))) = BSIZE"
  shows "fbytes v a off n = slice (v (unat (fblock v a (off div BSIZE)))) (off mod BSIZE) m @ fbytes v a (off + m) (n - m)"
proof -
  have "[off..<off + n] = [off..<off + m] @ [off + m..<off + n]"
    using upt_add_eq_append [of off "off + m" "n - m"] assms(1) by simp
  moreover have "map (fbyte v a) [off..<off + m] = slice (v (unat (fblock v a (off div BSIZE)))) (off mod BSIZE) m"
  proof (rule nth_equalityI)
    fix j
    assume "j < length (map (fbyte v a) [off..<off + m])"
    then have j: "j < m" by simp
    then have "off mod BSIZE + j < BSIZE" using assms(2) by simp
    then have "(off + j) div BSIZE = off div BSIZE" "(off + j) mod BSIZE = off mod BSIZE + j"
      by (rule same_block)+
    then show "map (fbyte v a) [off..<off + m] ! j = slice (v (unat (fblock v a (off div BSIZE)))) (off mod BSIZE) m ! j"
      using j assms(2,3) by (simp add: fbyte_def nth_slice)
  qed (use assms(2,3) in simp)
  ultimately show ?thesis using assms(1) by (simp add: fbytes_def)
qed

lemma chunk_bounds:
  assumes "0 < n" "m = min n (BSIZE - off mod BSIZE)"
  shows "0 < m" "m \<le> n" "off mod BSIZE + m \<le> BSIZE" "n - m < n"
    "\<And>bn. bn * BSIZE < off + n \<Longrightarrow> off div BSIZE \<le> bn \<Longrightarrow> bn = off div BSIZE \<or> (off + m) div BSIZE \<le> bn"
proof -
  show "0 < m" "m \<le> n" "off mod BSIZE + m \<le> BSIZE" "n - m < n" using assms by (auto simp: BSIZE_def min_def)
  fix bn
  assume "bn * BSIZE < off + n" "off div BSIZE \<le> bn"
  show "bn = off div BSIZE \<or> (off + m) div BSIZE \<le> bn"
  proof (rule disjCI)
    assume "\<not> (off + m) div BSIZE \<le> bn"
    moreover have "(off + m) div BSIZE \<le> off div BSIZE + 1"
      using assms(2) by (simp add: BSIZE_def)
    ultimately show "bn = off div BSIZE" using \<open>off div BSIZE \<le> bn\<close> by simp
  qed
qed

lemma readi_loop_wp:
  "log_inv H s \<Longrightarrow> card H + nat (lh_n s) < NBUF \<Longrightarrow> icache s ip = i \<Longrightarrow> i_dev i = 1 \<Longrightarrow>
    (\<And>bn. off div BSIZE \<le> bn \<Longrightarrow> bn * BSIZE < off + n \<Longrightarrow> fmapped H s (i_addrs i) bn) \<Longrightarrow>
    (\<And>t. quiet H s t \<Longrightarrow> Q (fbytes (bview s) (i_addrs i) off n) t) \<Longrightarrow>
    kwp (readi_loop ip off n) Q s"
proof (induction n arbitrary: off s Q rule: less_induct)
  case (less n)
  note inv = less.prems(1) and room = less.prems(2) and i = less.prems(3,4) and map = less.prems(5) and Q = less.prems(6)
  show ?case
  proof (cases "n = 0")
    case True
    then show ?thesis using Q [OF quiet_refl [OF inv]] by (subst readi_loop.simps) (simp add: fbytes_def)
  next
    case False
    define m where "m = min n (BSIZE - off mod BSIZE)"
    note b = chunk_bounds [OF _ m_def] 
    have n: "0 < n" using False by simp
    let ?a = "fblock (bview s) (i_addrs i) (off div BSIZE)"
    let ?d = "bview s (unat ?a)"
    have "off div BSIZE * BSIZE \<le> off" by (rule div_times_less_eq_dividend)
    then have m0: "fmapped H s (i_addrs i) (off div BSIZE)" using n by (intro map) linarith+
    then have a: "unat ?a < disksize s" "unat ?a \<notin> H"
      by (auto simp: fmapped_def fblock_def fpath_def Let_def split: if_splits)
    have len: "length ?d = BSIZE" using io_view_length [OF log_invD(1) [OF inv] a(1)] by simp
    have "kwp (bmap ip (off div BSIZE)) (\<lambda>addr. kwp (bread 1 addr) (\<lambda>bp. kwp (bdata bp) (\<lambda>d. kwp (brelse bp) (\<lambda>_.
        kwp (readi_loop ip (off + m) (n - m)) (\<lambda>rest. Q (slice d (off mod BSIZE) m @ rest)))))) s"
    proof (rule bmap_lookup [OF inv room i(1) [symmetric] i(2) m0])
      fix t
      assume t: "quiet H s t"
      note ft = quietD [OF t]
      show "kwp (bread 1 ?a) (\<lambda>bp. kwp (bdata bp) (\<lambda>d. kwp (brelse bp) (\<lambda>_.
        kwp (readi_loop ip (off + m) (n - m)) (\<lambda>rest. Q (slice d (off mod BSIZE) m @ rest))))) t"
      proof (rule peek_wp [OF ft(1)])
        fix u
        assume "quiet H t u"
        then have u: "quiet H s u" using t quiet_trans by blast
        note fu = quietD [OF u]
        show "kwp (readi_loop ip (off + m) (n - m)) (\<lambda>rest. Q (slice (bview t (unat ?a)) (off mod BSIZE) m @ rest)) u"
        proof (rule less.IH [OF b(4) [OF n] fu(1)])
          show "fmapped H u (i_addrs i) bn" if "(off + m) div BSIZE \<le> bn" "bn * BSIZE < off + m + (n - m)" for bn
          proof -
            have "off div BSIZE \<le> bn" using that(1) div_le_mono [of off "off + m" BSIZE] by simp
            then show ?thesis using map [of bn] that(2) b(2) [OF n] fu by (simp add: fmapped_def)
          qed
          show "Q (slice (bview t (unat ?a)) (off mod BSIZE) m @ fbytes (bview u) (i_addrs i) (off + m) (n - m)) w" if "quiet H u w" for w
            using Q [OF quiet_trans [OF u that]] ft(2) fu(2) fbytes_chunk [OF b(2,3) [OF n], of "bview s" "i_addrs i"] len by simp
        qed (use room fu(5) i quiet_icache [OF u] in simp_all)
      qed (use a ft room in simp_all)
    qed
    then show ?thesis using False i by (subst readi_loop.simps) (simp add: m_def Let_def)
  qed
qed

section \<open>Writing a file in place\<close>

text \<open>
  A file of \<open>nb\<close> blocks whose data blocks are all different and none of which
  is also an indirect block of the file.
\<close>

definition file_wf :: "(nat \<Rightarrow> u8 list) \<Rightarrow> u32 list \<Rightarrow> nat \<Rightarrow> bool" where
  "file_wf v a nb \<longleftrightarrow> (\<forall>bn < nb. \<forall>bm < nb. (fblock v a bn = fblock v a bm \<longrightarrow> bn = bm)
     \<and> fblock v a bn \<notin> set (butlast (fpath v a bm)))"

lemma fpath_upd:
  assumes "\<And>x. x \<in> set (butlast (fpath v a bn)) \<Longrightarrow> w (unat x) = v (unat x)"
  shows "fpath w a bn = fpath v a bn"
  using assms unfolding fpath_def by (auto simp: Let_def split: if_splits)

text \<open>
  \<open>w\<close> is \<open>v\<close> with \<open>src\<close> stored in the file from byte \<open>off\<close> on: the blocks of the
  file stay where they are, no block but the data blocks of the range changes.
\<close>

definition file_upd :: "(nat \<Rightarrow> u8 list) \<Rightarrow> (nat \<Rightarrow> u8 list) \<Rightarrow> u32 list \<Rightarrow> nat \<Rightarrow> nat \<Rightarrow> u8 list \<Rightarrow> bool" where
  "file_upd v w a nb off src \<longleftrightarrow> (\<forall>bn < nb. fpath w a bn = fpath v a bn)
     \<and> (\<forall>k < nb * BSIZE. fbyte w a k = (if off \<le> k \<and> k < off + length src then src ! (k - off) else fbyte v a k))
     \<and> (\<forall>x. (\<forall>bn < nb. x \<noteq> unat (fblock v a bn)) \<longrightarrow> w x = v x)"

lemma file_upd_refl: "file_upd v v a nb off []"
  by (auto simp: file_upd_def)

lemma div_lt_blocks: "k < nb * BSIZE \<Longrightarrow> k div BSIZE < nb"
  by (simp add: less_mult_imp_div_less)

lemma file_upd_block:
  assumes wf: "file_wf v a nb" and bn: "off div BSIZE < nb" and m: "off mod BSIZE + length src \<le> BSIZE"
    and b: "b = fblock v a (off div BSIZE)" and len: "length (v (unat b)) = BSIZE"
  shows "file_upd v (v(unat b := splice (v (unat b)) (off mod BSIZE) src)) a nb off src"
proof -
  let ?w = "v(unat b := splice (v (unat b)) (off mod BSIZE) src)"
  have p: "fpath ?w a bm = fpath v a bm" if "bm < nb" for bm
    using wf bn that b by (intro fpath_upd) (auto simp: file_wf_def)
  have "fbyte ?w a k = (if off \<le> k \<and> k < off + length src then src ! (k - off) else fbyte v a k)" if k: "k < nb * BSIZE" for k
  proof -
    have kn: "k div BSIZE < nb" using k by (rule div_lt_blocks)
    have e: "fblock ?w a (k div BSIZE) = fblock v a (k div BSIZE)" using p [OF kn] by (simp add: fblock_def)
    show ?thesis
    proof (cases "k div BSIZE = off div BSIZE")
      case True
      have eq: "k = off div BSIZE * BSIZE + k mod BSIZE" "off = off div BSIZE * BSIZE + off mod BSIZE"
        using True div_mult_mod_eq [of k BSIZE] div_mult_mod_eq [of off BSIZE] by simp_all
      have r: "off \<le> k \<and> k < off + length src \<longleftrightarrow> off mod BSIZE \<le> k mod BSIZE \<and> k mod BSIZE < off mod BSIZE + length src"
        using eq by linarith
      have d: "off \<le> k \<Longrightarrow> k - off = k mod BSIZE - off mod BSIZE" using eq by linarith
      have "k mod BSIZE < BSIZE" by (simp add: BSIZE_def)
      then have "splice (v (unat b)) (off mod BSIZE) src ! (k mod BSIZE) =
          (if off \<le> k \<and> k < off + length src then src ! (k - off) else v (unat b) ! (k mod BSIZE))"
        using nth_splice [of "off mod BSIZE" src "v (unat b)" "k mod BSIZE"] m len d unfolding r [symmetric]
        by (cases "off \<le> k \<and> k < off + length src") auto
      moreover have "fbyte ?w a k = splice (v (unat b)) (off mod BSIZE) src ! (k mod BSIZE)"
        "fbyte v a k = v (unat b) ! (k mod BSIZE)" using e b True by (simp_all add: fbyte_def)
      ultimately show ?thesis by simp
    next
      case False
      then have ne: "fblock v a (k div BSIZE) \<noteq> b" using wf kn bn b by (auto simp: file_wf_def)
      have "\<not> (off \<le> k \<and> k < off + length src)"
      proof
        assume r: "off \<le> k \<and> k < off + length src"
        then have "off mod BSIZE + (k - off) < BSIZE" using m by linarith
        from same_block(1) [OF this] r False show False by simp
      qed
      then show ?thesis using e ne by (auto simp: fbyte_def)
    qed
  qed
  moreover have "?w x = v x" if "\<forall>bn < nb. x \<noteq> unat (fblock v a bn)" for x using that bn b by auto
  ultimately show ?thesis using p by (simp add: file_upd_def)
qed

lemma file_upd_wf: "file_upd v w a nb off src \<Longrightarrow> file_wf v a nb \<Longrightarrow> file_wf w a nb"
  by (simp add: file_upd_def file_wf_def fblock_def)

lemma file_upd_trans:
  assumes "file_upd v w a nb off xs" "file_upd w u a nb (off + length xs) ys"
  shows "file_upd v u a nb off (xs @ ys)"
proof -
  have "fbyte u a k = (if off \<le> k \<and> k < off + length (xs @ ys) then (xs @ ys) ! (k - off) else fbyte v a k)"
    if "k < nb * BSIZE" for k
    using assms that by (auto simp: file_upd_def nth_append)
  then show ?thesis using assms by (simp add: file_upd_def fblock_def)
qed

definition nblk :: "nat \<Rightarrow> nat \<Rightarrow> nat" where
  "nblk off n = (if n = 0 then 0 else (off + n + BSIZE - 1) div BSIZE - off div BSIZE)"

lemma nblk_step:
  assumes "0 < n" "m = min n (BSIZE - off mod BSIZE)"
  shows "nblk (off + m) (n - m) + 1 \<le> nblk off n"
proof (cases "n - m = 0")
  case True
  have "off div BSIZE + 1 \<le> (off + n + BSIZE - 1) div BSIZE"
    using div_le_mono [of "off + BSIZE" "off + n + BSIZE - 1" BSIZE] assms(1) by (simp add: BSIZE_def)
  then show ?thesis using True assms(1) by (simp add: nblk_def)
next
  case False
  then have m: "m = BSIZE - off mod BSIZE" using assms(2) by (auto simp: min_def)
  have "off mod BSIZE < BSIZE" by (simp add: BSIZE_def)
  moreover have "(off div BSIZE + 1) * BSIZE = off div BSIZE * BSIZE + BSIZE" by simp
  ultimately have "off + m = (off div BSIZE + 1) * BSIZE"
    using div_mult_mod_eq [of off BSIZE] unfolding m by linarith
  then have e: "(off + m) div BSIZE = off div BSIZE + 1" by (simp add: BSIZE_def)
  have "off + m + (n - m) = off + n" using False by simp
  moreover have "off div BSIZE + 1 < (off + n + BSIZE - 1) div BSIZE"
  proof -
    have "off + m + BSIZE \<le> off + n + BSIZE - 1" using False by simp
    from div_le_mono [OF this, of BSIZE] e show ?thesis by (simp add: BSIZE_def)
  qed
  ultimately show ?thesis using False assms(1) e by (simp add: nblk_def)
qed

definition in_data :: "nat set \<Rightarrow> 'z log_st_scheme \<Rightarrow> u32 \<Rightarrow> bool" where
  "in_data H s x \<longleftrightarrow> 2 \<le> unat x \<and> unat x < unat (log_start s) \<and> unat x \<notin> H"

lemma writei_loop_wp:
  "log_inv H s \<Longrightarrow> 1 \<le> log_outstanding s \<Longrightarrow> lh_n s + int (nblk off (length src)) < log_size s \<Longrightarrow>
    card H + nat (lh_n s) + nblk off (length src) \<le> NBUF \<Longrightarrow> card H < NBUF \<Longrightarrow> icache s ip = i \<Longrightarrow> i_dev i = 1 \<Longrightarrow>
    file_wf (bview s) (i_addrs i) nb \<Longrightarrow> off + length src \<le> nb * BSIZE \<Longrightarrow> nb \<le> MAXFILE \<Longrightarrow>
    (\<And>bn x. bn < nb \<Longrightarrow> x \<in> set (fpath (bview s) (i_addrs i) bn) \<Longrightarrow> in_data H s x) \<Longrightarrow>
    (\<And>t. txf s t \<Longrightarrow> log_inv H t \<Longrightarrow> file_upd (bview s) (bview t) (i_addrs i) nb off src \<Longrightarrow>
      lh_n t \<le> lh_n s + int (nblk off (length src)) \<Longrightarrow> (\<And>j x. held s j x \<Longrightarrow> held t j x) \<Longrightarrow> Q () t) \<Longrightarrow>
    kwp (writei_loop ip src off) Q s"
proof (induction src arbitrary: off s Q rule: length_induct)
  case (1 src)
  note inv = 1(2) and out = 1(3) and room = 1(4-6) and i = 1(7,8) and wf = 1(9) and nb = 1(10,11) and dat = 1(12) and Q = 1(13)
  show ?case
  proof (cases "src = []")
    case True
    then show ?thesis using Q [OF txf_refl inv] by (subst writei_loop.simps) (simp add: file_upd_refl nblk_def)
  next
    case False
    define m where "m = min (length src) (BSIZE - off mod BSIZE)"
    have n: "0 < length src" using False by simp
    note b = chunk_bounds [OF n m_def] and step = nblk_step [OF n m_def]
    let ?v = "bview s"
    let ?a = "fblock ?v (i_addrs i) (off div BSIZE)"
    have on: "off div BSIZE < nb" using nb(1) n by (intro div_lt_blocks) linarith
    have p: "?a \<in> set (fpath ?v (i_addrs i) (off div BSIZE))" by (simp add: fblock_def fpath_def Let_def)
    have data: "in_data H s ?a" using dat [OF on p] .
    have lt: "unat x < disksize s" "x \<noteq> 0" if "in_data H s x" for x
      using that log_invD(2) [OF inv] by (auto simp: in_data_def log_geo_def unat_eq_0)
    have mp: "fmapped H s (i_addrs i) (off div BSIZE)"
      using on nb(2) dat [OF on] lt by (auto simp: fmapped_def in_data_def)
    have len: "length (?v (unat ?a)) = BSIZE" using io_view_length [OF log_invD(1) [OF inv]] lt data by simp
    have tl: "length (take m src) = m" "m \<le> length src" using b(2) by simp_all
    have cr: "card H + nat (lh_n s) < NBUF" using room step by linarith
    let ?K = "kwp (writei_loop ip (drop m src) (off + m)) Q"
    have main: "?K u" if tq: "quiet H s t" and u: "txf t u" "log_inv H u"
        "bview u = (bview t)(unat ?a := splice (bview t (unat ?a)) (off mod BSIZE) (take m src))" "lh_n u \<le> lh_n t + 1"
        "\<And>j x. held t j x \<Longrightarrow> held u j x" for t u
    proof -
      note ft = quietD [OF tq]
      have su: "txf s u" using ft(9) u(1) by (rule txf_trans)
      note f = txf_fields [OF su]
      have w: "bview u = ?v(unat ?a := splice (?v (unat ?a)) (off mod BSIZE) (take m src))" using u(3) ft(2) by simp
      have up: "file_upd ?v (bview u) (i_addrs i) nb off (take m src)"
        unfolding w by (rule file_upd_block [OF wf on]) (use b(3) tl len in simp_all)
      have fp: "fpath (bview u) (i_addrs i) bn = fpath ?v (i_addrs i) bn" if "bn < nb" for bn
        using up that by (simp add: file_upd_def)
      have l2: "length (drop m src) = length src - m" by simp
      show ?thesis
      proof (rule 1(1) [rule_format])
        show "length (drop m src) < length src" using b(1) n by simp
        show "log_inv H u" by (rule u(2))
        show "1 \<le> log_outstanding u" "card H < NBUF" using out f(6) room by simp_all
        show "lh_n u + int (nblk (off + m) (length (drop m src))) < log_size u"
          using room(1) step u(4) f(5) ft(5) unfolding l2 by linarith
        show "card H + nat (lh_n u) + nblk (off + m) (length (drop m src)) \<le> NBUF"
          using room(2) step u(4) ft(5) unfolding l2 by linarith
        show "icache u ip = i" "i_dev i = 1" "nb \<le> MAXFILE" using i txf_icache [OF su] nb by simp_all
        show "file_wf (bview u) (i_addrs i) nb" using up wf by (rule file_upd_wf)
        show "off + m + length (drop m src) \<le> nb * BSIZE" using nb(1) tl(2) by simp
        show "in_data H u x" if "bn < nb" "x \<in> set (fpath (bview u) (i_addrs i) bn)" for bn x
          using dat [OF that(1)] that fp f(4) by (simp add: in_data_def)
        show "Q () z" if z: "txf u z" "log_inv H z" "file_upd (bview u) (bview z) (i_addrs i) nb (off + m) (drop m src)"
          "lh_n z \<le> lh_n u + int (nblk (off + m) (length (drop m src)))" "\<And>j x. held u j x \<Longrightarrow> held z j x" for z
        proof (rule Q)
          show "txf s z" using su z(1) by (rule txf_trans)
          show "log_inv H z" by (rule z(2))
          show "file_upd ?v (bview z) (i_addrs i) nb off src"
            using file_upd_trans [of ?v "bview u" "i_addrs i" nb off "take m src" "bview z" "drop m src"] up z(3) tl by simp
          show "lh_n z \<le> lh_n s + int (nblk off (length src))"
            using z(4) u(4) ft(5) step unfolding l2 by linarith
          show "held z j x" if "held s j x" for j x using that ft(3) u(5) z(5) by blast
        qed
      qed
    qed
    have "kwp (bmap ip (off div BSIZE)) (\<lambda>addr. kwp (bread 1 addr) (\<lambda>bp. kwp (bdata bp) (\<lambda>d.
        kwp (set_bdata bp (splice d (off mod BSIZE) (take m src))) (\<lambda>_. kwp (log_write bp) (\<lambda>_. kwp (brelse bp) (\<lambda>_. ?K)))))) s"
    proof (rule bmap_lookup [OF inv cr i(1) [symmetric] i(2) mp])
      fix t
      assume t: "quiet H s t"
      note ft = quietD [OF t]
      show "kwp (bread 1 ?a) (\<lambda>bp. kwp (bdata bp) (\<lambda>d.
        kwp (set_bdata bp (splice d (off mod BSIZE) (take m src))) (\<lambda>_. kwp (log_write bp) (\<lambda>_. kwp (brelse bp) (\<lambda>_. ?K))))) t"
      proof (rule tx_modify [where f = "\<lambda>d. splice d (off mod BSIZE) (take m src)" and Q = ?K, OF ft(1)])
        show "lh_n t + 1 < log_size t" using room(1) step ft(5,7) by linarith
      qed (use data out ft cr len b(3) tl main [OF t] in \<open>auto simp: in_data_def bdata_def\<close>)
    qed
    then show ?thesis using False i by (subst writei_loop.simps) (simp add: m_def Let_def)
  qed
qed

text \<open>\<open>readi\<close> and \<open>writei\<close> of a range that lies within the file.\<close>

lemma u32_range:
  fixes off n z :: u32
  assumes "unat off + unat n \<le> unat z"
  shows "\<not> z < off" "\<not> off + n < off" "\<not> z < off + n" "unat (off + n) = unat off + unat n"
proof -
  have "unat z < 4294967296" using unsigned_less [of z] by simp
  then have u: "unat (off + of_nat (unat n)) = unat off + unat n" using assms by (intro unat_plus32) linarith
  then show "unat (off + n) = unat off + unat n" by simp
  then show "\<not> z < off" "\<not> off + n < off" "\<not> z < off + n" using assms by (simp_all add: word_less_nat_alt)
qed

definition blocks_of :: "u32 \<Rightarrow> nat" where
  "blocks_of sz = (unat sz + BSIZE - 1) div BSIZE"

lemma blocks_of_ge: "unat sz \<le> blocks_of sz * BSIZE"
  by (simp add: blocks_of_def BSIZE_def)

lemma readi_wp:
  assumes inv: "log_inv H s" and room: "card H + nat (lh_n s) < NBUF" and i: "icache s ip = i" "i_dev i = 1" "i_type i \<noteq> T_DEV"
    and r: "unat off + unat n \<le> unat (i_size i)"
    and m: "\<And>bn. bn < blocks_of (i_size i) \<Longrightarrow> fmapped H s (i_addrs i) bn"
    and Q: "\<And>t. quiet H s t \<Longrightarrow> Q (sint n, fbytes (bview s) (i_addrs i) (unat off) (unat n)) t"
  shows "kwp (readi dv ip off n) Q s"
proof -
  have "kwp (readi_loop ip (unat off) (unat n)) (\<lambda>bs. Q (sint n, bs)) s"
  proof (rule readi_loop_wp [OF inv room i(1,2)])
    fix bn
    assume "bn * BSIZE < unat off + unat n"
    then have "bn * BSIZE < blocks_of (i_size i) * BSIZE" using r blocks_of_ge [of "i_size i"] by linarith
    then show "fmapped H s (i_addrs i) bn" by (intro m) simp
  qed (rule Q)
  then show ?thesis using i u32_range [OF r] by (simp add: readi_def Let_def)
qed

lemma writei_wp:
  assumes inv: "log_inv H s" "1 \<le> log_outstanding s"
    and room: "lh_n s + int (nblk (unat off) (unat n)) < log_size s" "card H + nat (lh_n s) + nblk (unat off) (unat n) \<le> NBUF" "card H < NBUF"
    and i: "icache s ip = i" "i_dev i = 1" "i_type i \<noteq> T_DEV"
    and r: "unat off + unat n \<le> unat (i_size i)" "blocks_of (i_size i) \<le> MAXFILE" "length src = unat n"
    and wf: "file_wf (bview s) (i_addrs i) (blocks_of (i_size i))"
    and dat: "\<And>bn x. bn < blocks_of (i_size i) \<Longrightarrow> x \<in> set (fpath (bview s) (i_addrs i) bn) \<Longrightarrow> in_data H s x"
    and Q: "\<And>t. txf s t \<Longrightarrow> log_inv H t \<Longrightarrow> file_upd (bview s) (bview t) (i_addrs i) (blocks_of (i_size i)) (unat off) src \<Longrightarrow>
      lh_n t \<le> lh_n s + int (nblk (unat off) (unat n)) \<Longrightarrow> Q (sint n) t"
  shows "kwp (writei dv ip src off n) Q s"
proof -
  let ?nb = "blocks_of (i_size i)"
  note u = u32_range [OF r(1)]
  have le: "unat off + unat n \<le> ?nb * BSIZE" using r blocks_of_ge [of "i_size i"] by linarith
  have "?nb * BSIZE \<le> MAXFILE * BSIZE" using r(2) by (rule mult_le_mono1)
  then have max: "\<not> of_nat (MAXFILE * BSIZE) < off + n"
    using u(4) le by (simp add: word_less_nat_alt unat_of_nat32 MAXFILE_def NDIRECT_def NINDIRECT_def BSIZE_def)
  let ?R = "\<lambda>_ t. kwp (kbind (get_inode ip) (\<lambda>i. if 0 < n \<and> i_size i < off + n
       then kthen (upd_inode ip (\<lambda>i. i\<lparr>i_size := off + n\<rparr>)) (iupdate ip) else kret ())) (\<lambda>_. Q (sint n)) t"
  have "kwp (writei_loop ip src (unat off)) ?R s"
  proof (rule writei_loop_wp [OF inv, where nb = ?nb])
    show "?R () t" if "txf s t" "log_inv H t" "file_upd (bview s) (bview t) (i_addrs i) ?nb (unat off) src"
      "lh_n t \<le> lh_n s + int (nblk (unat off) (length src))" for t
      using Q [OF that(1-3)] that(4) i(1) u(3) r(3) txf_icache [OF that(1)] by simp
  qed (use room i wf le r dat in simp_all)
  then show ?thesis using i u max r(3) by (simp add: writei_def)
qed

lemma in_tx_more: "log_st.more (in_tx r) = log_st.more r"
proof -
  have "kpres log_st.more (kthen kboot begin_op)"
    unfolding kboot_def binit_def initlog_def readsb_def recover_from_log_def read_head_def install_trans_def write_head_def
      log_block_def home_block_def get_sector_def set_sector_def begin_op_def
    by (intro kpres_intros; simp)
  then show ?thesis by (auto simp: in_tx_def kpres_def split: res.splits)
qed

definition no_devsw :: "nat \<Rightarrow> 's devsw" where
  "no_devsw = (\<lambda>_. \<lparr>dev_read = None, dev_write = None\<rparr>)"

text \<open>The disk of \<open>demo_disk\<close> mounted, with a file of 1000 bytes in blocks 8 and 9.\<close>

definition demo_inode :: inode where
  "demo_inode = \<lparr>i_dev = 1, i_inum = 2, i_ref = 1, i_flags = I_BUSY OR I_VALID, i_type = T_FILE, i_major = 0, i_minor = 0,
     i_nlink = 1, i_size = 1000, i_addrs = 8 # 9 # replicate 11 0\<rparr>"

definition demo_ist0 :: fs_st where
  "demo_ist0 = log_st.extend (demo_log0\<lparr>memdisk := demo_disk\<rparr>) (fs_st.fields (\<lambda>_. demo_inode))"

definition demo_ist :: fs_st where
  "demo_ist = in_tx demo_ist0"

lemma demo_ist_inv:
  "log_inv {} demo_ist" "lh_n demo_ist = 0" "unat (log_start demo_ist) = 34" "log_size demo_ist = 30"
  "log_outstanding demo_ist = 1" "disksize demo_ist = 64" "x < 34 \<Longrightarrow> bview demo_ist x = demo_disk x"
  "icache demo_ist = (\<lambda>_. demo_inode)"
proof -
  note d = demo_ist0_def log_st.defs fs_st.defs demo_log0_def
  have "head_n (demo_disk 34) = 0" by (simp add: head_n_def demo_disk_def get32_replicate_0 BSIZE_def)
  moreover have "powered_on demo_ist0" by (simp add: powered_on_def d)
  ultimately have "log_inv {} demo_ist \<and> lh_n demo_ist = 0 \<and> unat (log_start demo_ist) = 34 \<and> log_size demo_ist = 30
    \<and> log_outstanding demo_ist = 1 \<and> disksize demo_ist = 64 \<and> (\<forall>x < 34. bview demo_ist x = demo_disk x)"
    unfolding demo_ist_def using in_tx [of demo_ist0 34 30] demo_disk_image by (simp add: d)
  then show "log_inv {} demo_ist" "lh_n demo_ist = 0" "unat (log_start demo_ist) = 34" "log_size demo_ist = 30"
    "log_outstanding demo_ist = 1" "disksize demo_ist = 64" "x < 34 \<Longrightarrow> bview demo_ist x = demo_disk x" by blast+
  show "icache demo_ist = (\<lambda>_. demo_inode)"
    using icache_more [of demo_ist demo_ist0] in_tx_more [of demo_ist0] by (simp add: demo_ist_def d)
qed

section \<open>The inode table\<close>

text \<open>At most one slot in use for an inode.\<close>

definition icache_wf :: "(nat \<Rightarrow> inode) \<Rightarrow> bool" where
  "icache_wf ic \<longleftrightarrow> (\<forall>i < NINODE. 0 \<le> i_ref (ic i)) \<and> (\<forall>i < NINODE. \<forall>j < NINODE.
     0 < i_ref (ic i) \<and> 0 < i_ref (ic j) \<and> i_dev (ic i) = i_dev (ic j) \<and> i_inum (ic i) = i_inum (ic j) \<longrightarrow> i = j)"

definition cached :: "(nat \<Rightarrow> inode) \<Rightarrow> u32 \<Rightarrow> u32 \<Rightarrow> nat \<Rightarrow> bool" where
  "cached ic dev inum ip \<longleftrightarrow> 0 < i_ref (ic ip) \<and> i_dev (ic ip) = dev \<and> i_inum (ic ip) = inum"

lemma icache_wf_cached:
  "icache_wf ic \<longleftrightarrow> (\<forall>i < NINODE. 0 \<le> i_ref (ic i)) \<and>
    (\<forall>i < NINODE. \<forall>j < NINODE. 0 < i_ref (ic j) \<longrightarrow> cached ic (i_dev (ic j)) (i_inum (ic j)) i \<longrightarrow> i = j)"
  unfolding icache_wf_def cached_def by blast

lemma icache_wf_upd:
  assumes wf: "icache_wf ic" and i: "0 \<le> i_ref i"
    and new: "\<And>j. j < NINODE \<Longrightarrow> cached ic (i_dev i) (i_inum i) j \<Longrightarrow> j = ip"
  shows "icache_wf (ic(ip := i))"
  unfolding icache_wf_cached
proof (intro conjI allI impI)
  fix j k
  assume j: "j < NINODE" "k < NINODE" "0 < i_ref ((ic(ip := i)) k)"
    "cached (ic(ip := i)) (i_dev ((ic(ip := i)) k)) (i_inum ((ic(ip := i)) k)) j"
  consider "j = ip" "k = ip" | "j = ip" "k \<noteq> ip" | "j \<noteq> ip" "k = ip" | "j \<noteq> ip" "k \<noteq> ip" by blast
  then show "j = k"
  proof cases
    case 2
    then have "cached ic (i_dev i) (i_inum i) k" using j by (simp add: cached_def)
    then show ?thesis using new [OF j(2)] 2 by simp
  next
    case 3
    then have "cached ic (i_dev i) (i_inum i) j" using j by (simp add: cached_def)
    then show ?thesis using new [OF j(1)] 3 by simp
  next
    case 4
    then have "cached ic (i_dev (ic k)) (i_inum (ic k)) j" "0 < i_ref (ic k)" using j by (simp_all add: cached_def)
    then show ?thesis using wf j(1,2) unfolding icache_wf_cached by blast
  qed simp
next
  fix j
  assume "j < NINODE"
  then show "0 \<le> i_ref ((ic(ip := i)) j)" using wf i by (simp add: icache_wf_def)
qed

lemma iget_hit:
  assumes wf: "icache_wf (icache s)" and ip: "ip < NINODE" "cached (icache s) dev inum ip"
  shows "iget dev inum s = Ok (ip, s\<lparr>icache := (icache s)(ip := (icache s ip)\<lparr>i_ref := i_ref (icache s ip) + 1\<rparr>)\<rparr>)"
proof -
  have "List.find (\<lambda>i. 0 < i_ref (icache s i) \<and> i_dev (icache s i) = dev \<and> i_inum (icache s i) = inum) [0..<NINODE] = Some ip"
    using ip wf by (intro find_unique) (auto simp: cached_def icache_wf_def)
  then show ?thesis by (simp add: iget_def kdefs upd_inode_def)
qed

lemma iget_miss:
  assumes "\<And>ip. ip < NINODE \<Longrightarrow> \<not> cached (icache s) dev inum ip"
  shows "iget dev inum s = (case List.find (\<lambda>i. i_ref (icache s i) = 0) [0..<NINODE] of
      None \<Rightarrow> Panic ''iget: no inodes''
    | Some ip \<Rightarrow> Ok (ip, s\<lparr>icache := (icache s)(ip := (icache s ip)\<lparr>i_dev := dev, i_inum := inum, i_ref := 1, i_flags := 0\<rparr>)\<rparr>))"
proof -
  have "List.find (\<lambda>i. 0 < i_ref (icache s i) \<and> i_dev (icache s i) = dev \<and> i_inum (icache s i) = inum) [0..<NINODE] = None"
    using assms by (intro find_nobody) (auto simp: cached_def)
  then show ?thesis by (simp add: iget_def kdefs upd_inode_def split: option.splits)
qed

section \<open>What the lower layers leave alone\<close>

lemma kpres_more [kpres_intros]:
  "kpres log_st.more (readsb dev)" "kpres log_st.more (log_write b)" "kpres log_st.more (bread dev sec)"
  "kpres log_st.more (brelse b)" "kpres log_st.more (bdata b)" "kpres log_st.more (set_bdata b d)"
  "kpres log_st.more (bfree dev n)"
proof -
  show b: "kpres log_st.more (bread dev sec)" "kpres log_st.more (brelse b)" "kpres log_st.more (bdata b)"
    "kpres log_st.more (set_bdata b d)" for sec and b :: nat and d and dev
    by (intro kpres_intros; simp)+
  show r: "kpres log_st.more (readsb dev)" for dev unfolding readsb_def by (intro kpres_intros; simp)
  show l: "kpres log_st.more (log_write b)" for b
    unfolding log_write_def set_sector_def mark_dirty_def Let_def by (intro kpres_intros; simp)
  show "kpres log_st.more (bfree dev n)"
    unfolding bfree_def Let_def by (intro kpres_bind kpres_then kpres_if kpres_basic b r l)
qed

lemma kpres_icache: "kpres log_st.more m \<Longrightarrow> kpres (\<lambda>s. f (icache s)) m"
  unfolding kpres_def using icache_more by metis

lemma kpres_get_inode [kpres_intros]: "kpres f (get_inode ip)"
  by (simp add: get_inode_def kpres_intros)

lemma kpres_iupdate: "kpres (\<lambda>s. f (icache s)) (iupdate ip)"
  unfolding iupdate_def by (intro kpres_bind kpres_then kpres_get_inode kpres_icache kpres_more)

lemma kpres_upd_inode: "(\<And>i. f (g i) = f i) \<Longrightarrow> kpres (\<lambda>s. f (icache s ip)) (upd_inode ip g)"
  by (simp add: kpres_def upd_inode_def kdefs)

section \<open>Properties\<close>

text \<open>
  C2: Writing in place and reading back: for a range inside a file of at most
  \<open>MAXFILE\<close> blocks whose blocks, through direct, indirect and double
  indirect addresses, are distinct data blocks, and with room in the log,
  \<open>writei\<close> returns the number of bytes; after it \<open>readi\<close> of the same range
  returns exactly the bytes written, every other byte of the file is as
  before, and so is every block that is not a data block of the file.
\<close>

theorem writei_readi:
  assumes inv: "log_inv H s" "1 \<le> log_outstanding s"
    and room: "lh_n s + int (nblk (unat off) (unat n)) < log_size s" "card H + nat (lh_n s) + nblk (unat off) (unat n) < NBUF"
    and i: "icache s ip = i" "i_dev i = 1" "i_type i \<noteq> T_DEV"
    and r: "unat off + unat n \<le> unat (i_size i)" "blocks_of (i_size i) \<le> MAXFILE" "length src = unat n"
    and wf: "file_wf (bview s) (i_addrs i) (blocks_of (i_size i))"
    and dat: "\<And>bn x. bn < blocks_of (i_size i) \<Longrightarrow> x \<in> set (fpath (bview s) (i_addrs i) bn) \<Longrightarrow> in_data H s x"
  shows "\<exists>t. writei dv ip src off n s = Ok (sint n, t) \<and> log_inv H t \<and> icache t = icache s
    \<and> (\<exists>u. readi dv ip off n t = Ok ((sint n, src), u) \<and> bview u = bview t)
    \<and> (\<forall>k < unat (i_size i). k < unat off \<or> unat off + unat n \<le> k \<longrightarrow> fbyte (bview t) (i_addrs i) k = fbyte (bview s) (i_addrs i) k)
    \<and> (\<forall>x. (\<forall>bn < blocks_of (i_size i). x \<noteq> unat (fblock (bview s) (i_addrs i) bn)) \<longrightarrow> bview t x = bview s x)"
proof -
  let ?nb = "blocks_of (i_size i)" and ?a = "i_addrs i"
  have room': "card H + nat (lh_n s) + nblk (unat off) (unat n) \<le> NBUF" "card H < NBUF" using room by simp_all
  have "kwp (writei dv ip src off n) (\<lambda>x t. x = sint n \<and> txf s t \<and> log_inv H t
      \<and> file_upd (bview s) (bview t) ?a ?nb (unat off) src \<and> lh_n t \<le> lh_n s + int (nblk (unat off) (unat n))) s"
    by (rule writei_wp [OF inv room(1) room' i r wf dat]) simp_all
  then obtain t where t: "writei dv ip src off n s = Ok (sint n, t)" "txf s t" "log_inv H t"
    "file_upd (bview s) (bview t) ?a ?nb (unat off) src" "lh_n t \<le> lh_n s + int (nblk (unat off) (unat n))"
    by (auto simp: kwp_Ok)
  note f = txf_fields [OF t(2)] and ic = txf_icache [OF t(2)]
  have lt: "unat x < disksize t" "x \<noteq> 0" "unat x \<notin> H" if "in_data H s x" for x
    using that log_invD(2) [OF t(3)] f(4) by (auto simp: in_data_def log_geo_def unat_eq_0)
  have fp: "fpath (bview t) ?a bn = fpath (bview s) ?a bn" if "bn < ?nb" for bn using t(4) that by (simp add: file_upd_def)
  have fm: "fmapped H t ?a bn" if "bn < ?nb" for bn
    using dat [OF that] lt fp [OF that] that r(2) by (auto simp: fmapped_def)
  have nb: "unat (i_size i) \<le> ?nb * BSIZE" by (rule blocks_of_ge)
  have byte: "fbyte (bview t) ?a k = (if unat off \<le> k \<and> k < unat off + unat n then src ! (k - unat off) else fbyte (bview s) ?a k)"
    if "k < unat (i_size i)" for k
    using t(4) that nb r(3) by (simp add: file_upd_def)
  have "fbytes (bview t) ?a (unat off) (unat n) = src"
    by (rule nth_equalityI) (use byte r in \<open>simp_all add: fbytes_def\<close>)
  moreover have cr: "card H + nat (lh_n t) < NBUF" using room(2) t(5) by linarith
  moreover have "icache t ip = i" using i(1) ic by simp
  ultimately have "kwp (readi dv ip off n) (\<lambda>x u. x = (sint n, src) \<and> bview u = bview t) t"
    by (intro readi_wp [OF t(3) cr _ i(2,3) r(1) fm]) (simp_all add: quietD)
  then show ?thesis using t ic byte r(3) by (auto simp: kwp_Ok file_upd_def)
qed

theorem writei_readi_witness:
  "\<exists>t u. writei no_devsw 0 (replicate 24 7) 500 24 demo_ist = Ok (24, t) \<and> readi no_devsw 0 500 24 t = Ok ((24, replicate 24 7), u)"
proof -
  have s: "i_dev demo_inode = 1" "i_type demo_inode \<noteq> T_DEV" "i_size demo_inode = 1000"
    by (simp_all add: demo_inode_def T_FILE_def T_DEV_def)
  have nb: "blocks_of (i_size demo_inode) = 2" by (simp add: s blocks_of_def BSIZE_def)
  have p: "fpath v (i_addrs demo_inode) bn = [if bn = 0 then 8 else 9]" if "bn < 2" for v bn
    using that by (auto simp: fpath_def NDIRECT_def demo_inode_def less_2_cases_iff)
  have "\<exists>t. writei no_devsw 0 (replicate 24 7) 500 24 demo_ist = Ok (sint (24 :: u32), t) \<and> log_inv {} t \<and> icache t = icache demo_ist
    \<and> (\<exists>u. readi no_devsw 0 500 24 t = Ok ((sint (24 :: u32), replicate 24 7), u) \<and> bview u = bview t)
    \<and> (\<forall>k < unat (i_size demo_inode). k < unat (500 :: u32) \<or> unat (500 :: u32) + unat (24 :: u32) \<le> k \<longrightarrow>
        fbyte (bview t) (i_addrs demo_inode) k = fbyte (bview demo_ist) (i_addrs demo_inode) k)
    \<and> (\<forall>x. (\<forall>bn < blocks_of (i_size demo_inode). x \<noteq> unat (fblock (bview demo_ist) (i_addrs demo_inode) bn)) \<longrightarrow>
        bview t x = bview demo_ist x)"
  proof (rule writei_readi [OF demo_ist_inv(1)])
    show "file_wf (bview demo_ist) (i_addrs demo_inode) (blocks_of (i_size demo_inode))"
      unfolding nb by (auto simp: file_wf_def fblock_def p less_2_cases_iff)
    show "in_data {} demo_ist x" if "bn < blocks_of (i_size demo_inode)" "x \<in> set (fpath (bview demo_ist) (i_addrs demo_inode) bn)" for bn x
      using that p [of bn] demo_ist_inv(3) unfolding nb by (auto simp: in_data_def split: if_splits)
  qed (use s nb demo_ist_inv in \<open>simp_all add: nblk_def BSIZE_def NBUF_def MAXFILE_def NINDIRECT_def\<close>)
  then show ?thesis by auto
qed

text \<open>
  C19: What \<open>iupdate\<close> stores is what a later \<open>ilock\<close> loads: after an inode has been
  written back and its slot has been given up and taken again by \<open>iget\<close> (so it
  is neither valid nor busy), \<open>ilock\<close> returns and restores type, device
  numbers, link count, size and all block addresses.
\<close>

theorem iupdate_ilock:
  assumes inv: "log_inv H s" "1 \<le> log_outstanding s" "lh_n s + 1 < log_size s" "card H + nat (lh_n s) + 1 < NBUF"
    and ok: "iblock_ok H s ip" and i: "i = icache s ip" "length (i_addrs i) = NDIRECT + 2" "i_type i \<noteq> 0"
    and j: "i_dev j = i_dev i" "i_inum j = i_inum i" "1 \<le> i_ref j" "i_flags j = 0"
  shows "\<exists>t u. iupdate ip s = Ok ((), t) \<and> icache t = icache s
    \<and> ilock ip (t\<lparr>icache := (icache t)(ip := j)\<rparr>) = Ok ((), u)
    \<and> same_dinode (icache u ip) i \<and> i_flags (icache u ip) = I_BUSY OR I_VALID"
proof -
  let ?P = "\<lambda>t. txf s t \<and> log_inv H t \<and> lh_n t \<le> lh_n s + 1
    \<and> bview t = (bview s)(iblk i := store_dinode (bview s (iblk i)) (dinode_off (unat (i_inum i))) i)"
  have room: "card H + nat (lh_n s) < NBUF" using inv(4) by simp
  have "kwp (iupdate ip) (\<lambda>_. ?P) s" by (rule iupdate_wp [OF inv(1-3) room ok i(1)]) simp
  then obtain t where t: "iupdate ip s = Ok ((), t)" "?P t" by (auto simp: kwp_Ok)
  then have ft: "txf s t" by simp
  let ?t = "t\<lparr>icache := (icache t)(ip := j)\<rparr>"
  have b: "iblk j = iblk i" "iblk i < disksize s" using j ok i log_invD(2) [OF inv(1)]
    by (auto simp: iblk_def iblock_ok_def log_geo_def)
  have d: "dinode_off (unat (i_inum i)) + 64 \<le> length (bview s (iblk i))"
    using dinode_off io_view_length [OF log_invD(1) [OF inv(1)] b(2)] by simp
  have l: "locked_inode (bview ?t) j = (load_dinode (store_dinode (bview s (iblk i)) (dinode_off (unat (i_inum i))) i)
      (dinode_off (unat (i_inum i))) j)\<lparr>i_flags := (0 OR I_BUSY) OR I_VALID\<rparr>"
    using t(2) b j by (simp add: locked_inode_def)
  have sd: "same_dinode (locked_inode (bview ?t) j) i"
    using load_store_dinode [OF d i(2), of j] unfolding l by (simp add: same_dinode_def)
  have "kwp (ilock ip) (\<lambda>_ u. icache u ip = locked_inode (bview ?t) j) ?t"
  proof (rule ilock_wp [where i = j])
    show "log_inv H ?t" using t(2) by simp
    show "iblock_ok H ?t ip" using ok i(1) j txf_fields [OF ft] by (simp add: iblock_ok_def)
    show "i_type (locked_inode (bview ?t) j) \<noteq> 0" using sd i(3) by (simp add: same_dinode_def)
    show "card H + nat (lh_n ?t) < NBUF" using t(2) inv(4) by simp linarith
  qed (use j in simp_all)
  then obtain u where "ilock ip ?t = Ok ((), u)" "icache u ip = locked_inode (bview ?t) j" by (auto simp: kwp_Ok)
  then show ?thesis using t(1) sd txf_icache [OF ft] l by auto
qed

theorem iupdate_ilock_witness:
  "\<exists>t u. iupdate 0 demo_ist = Ok ((), t) \<and> ilock 0 (t\<lparr>icache := (icache t)(0 := demo_inode\<lparr>i_flags := 0, i_size := 77\<rparr>)\<rparr>) = Ok ((), u)
    \<and> i_size (icache u 0) = 1000"
proof -
  have ok: "iblock_ok {} demo_ist 0"
    by (simp add: iblock_ok_def demo_ist_inv demo_inode_def IBLOCK_def IPB_def)
  have "\<exists>t u. iupdate 0 demo_ist = Ok ((), t) \<and> icache t = icache demo_ist
    \<and> ilock 0 (t\<lparr>icache := (icache t)(0 := demo_inode\<lparr>i_flags := 0, i_size := 77\<rparr>)\<rparr>) = Ok ((), u)
    \<and> same_dinode (icache u 0) demo_inode \<and> i_flags (icache u 0) = I_BUSY OR I_VALID"
    by (rule iupdate_ilock [OF demo_ist_inv(1) _ _ _ ok])
      (simp_all add: demo_ist_inv demo_inode_def NBUF_def NDIRECT_def T_FILE_def)
  then show ?thesis by (auto simp: same_dinode_def demo_inode_def)
qed

text \<open>
  C20: The inode table never holds two live copies of one inode. From a table in
  which every inode has at most one slot in use, and unless all slots are in
  use for other inodes (when \<open>iget\<close> panics), \<open>iget\<close> returns a slot for the
  inode with one more reference than before, leaves every other slot alone,
  keeps the table free of duplicates, and a second \<open>iget\<close> returns the same
  slot.
\<close>

theorem iget_unique:
  assumes wf: "icache_wf (icache s)"
  shows "if \<exists>ip < NINODE. cached (icache s) dev inum ip \<or> i_ref (icache s ip) = 0 then
     \<exists>ip t u. iget dev inum s = Ok (ip, t) \<and> ip < NINODE \<and> icache_wf (icache t) \<and> cached (icache t) dev inum ip
       \<and> i_ref (icache t ip) = i_ref (icache s ip) + 1 \<and> (\<forall>j. j \<noteq> ip \<longrightarrow> icache t j = icache s j) \<and> iget dev inum t = Ok (ip, u)
     else iget dev inum s = Panic ''iget: no inodes''"
proof (cases "\<exists>ip < NINODE. cached (icache s) dev inum ip")
  case True
  then obtain ip where ip: "ip < NINODE" "cached (icache s) dev inum ip" by blast
  let ?t = "s\<lparr>icache := (icache s)(ip := (icache s ip)\<lparr>i_ref := i_ref (icache s ip) + 1\<rparr>)\<rparr>"
  have "j = ip" if "j < NINODE" "cached (icache s) dev inum j" for j
    using that ip wf unfolding icache_wf_cached by (metis cached_def)
  then have "icache_wf ((icache s)(ip := (icache s ip)\<lparr>i_ref := i_ref (icache s ip) + 1\<rparr>))"
    using ip(2) by (intro icache_wf_upd [OF wf]) (simp_all add: cached_def)
  moreover have "cached (icache ?t) dev inum ip" using ip(2) by (simp add: cached_def)
  ultimately have w: "icache_wf (icache ?t)" "cached (icache ?t) dev inum ip" by simp_all
  then show ?thesis using True iget_hit [OF wf ip] iget_hit [OF w(1) ip(1) w(2)] ip w by auto
next
  case False
  show ?thesis
  proof (cases "List.find (\<lambda>i. i_ref (icache s i) = 0) [0..<NINODE]")
    case None
    then have "\<not> (\<exists>ip < NINODE. i_ref (icache s ip) = 0)" by (auto simp: find_None_iff)
    then show ?thesis using False None iget_miss [of s dev inum] by auto
  next
    case (Some ip)
    then have ip: "ip < NINODE" "i_ref (icache s ip) = 0" by (auto dest: find_SomeD)
    let ?t = "s\<lparr>icache := (icache s)(ip := (icache s ip)\<lparr>i_dev := dev, i_inum := inum, i_ref := 1, i_flags := 0\<rparr>)\<rparr>"
    have "icache_wf ((icache s)(ip := (icache s ip)\<lparr>i_dev := dev, i_inum := inum, i_ref := 1, i_flags := 0\<rparr>))"
      using False by (intro icache_wf_upd [OF wf]) auto
    moreover have "cached (icache ?t) dev inum ip" by (simp add: cached_def)
    ultimately have w: "icache_wf (icache ?t)" "cached (icache ?t) dev inum ip" by simp_all
    have g: "iget dev inum s = Ok (ip, ?t)" using iget_miss [of s dev inum] False Some by auto
    show ?thesis using g ip w iget_hit [OF w(1) ip(1) w(2)] by auto
  qed
qed

theorem iget_unique_witness:
  "\<exists>ip t. iget 1 9 (demo_ist\<lparr>icache := (\<lambda>_. demo_inode\<lparr>i_ref := 0\<rparr>)\<rparr>) = Ok (ip, t) \<and> i_ref (icache t ip) = 1 \<and> icache_wf (icache t)"
proof -
  let ?s = "demo_ist\<lparr>icache := (\<lambda>_. demo_inode\<lparr>i_ref := 0\<rparr>)\<rparr>"
  have wf: "icache_wf (icache ?s)" by (simp add: icache_wf_def)
  have "\<exists>ip < NINODE. cached (icache ?s) 1 9 ip \<or> i_ref (icache ?s ip) = 0" by (rule exI [of _ 0]) (simp add: NINODE_def)
  then show ?thesis using iget_unique [OF wf, of 1 9] by auto
qed

text \<open>
  C35: \<open>itrunc\<close> does not discard the whole contents of a large file: whenever it
  returns, the file has size 0 but its double indirect address
  \<open>addrs[NDIRECT+1]\<close> is what it was. The blocks behind it, which \<open>bmap\<close> hands
  out, are never given to \<open>bfree\<close>.
\<close>

theorem itrunc_keeps_double_indirect:
  assumes "itrunc ip s = Ok ((), t)"
  shows "i_size (icache t ip) = 0 \<and> i_addrs (icache t ip) ! (NDIRECT + 1) = i_addrs (icache s ip) ! (NDIRECT + 1)"
proof
  have up: "kpres (\<lambda>s. i_addrs (icache s ip) ! (NDIRECT + 1)) (upd_inode ip (\<lambda>i. i\<lparr>i_addrs := (i_addrs i)[k := 0]\<rparr>))"
    if "k < NDIRECT + 1" for k
    using that by (intro kpres_upd_inode [where f = "\<lambda>i. i_addrs i ! (NDIRECT + 1)"]) simp
  have sz: "kpres (\<lambda>s. i_addrs (icache s ip) ! (NDIRECT + 1)) (upd_inode ip (\<lambda>i. i\<lparr>i_size := 0\<rparr>))"
    by (intro kpres_upd_inode [where f = "\<lambda>i. i_addrs i ! (NDIRECT + 1)"]) simp
  let ?f = "\<lambda>s. i_addrs (icache s ip) ! (NDIRECT + 1)"
  note ic = kpres_icache [where f = "\<lambda>c. i_addrs (c ip) ! (NDIRECT + 1)"]
  have lp: "kpres ?f (kfor [0..<NDIRECT] (\<lambda>k. kbind (get_inode ip) (\<lambda>i. if i_addrs i ! k \<noteq> 0 then
      kthen (bfree (i_dev i) (unat (i_addrs i ! k))) (upd_inode ip (\<lambda>i. i\<lparr>i_addrs := (i_addrs i)[k := 0]\<rparr>)) else kret ())))"
    by (rule kpres_for_mem) (intro kpres_bind kpres_then kpres_if kpres_basic kpres_get_inode ic kpres_more up; simp)
  have "kpres ?f (itrunc ip)"
    unfolding itrunc_def
    by (intro kpres_bind kpres_then kpres_if kpres_basic kpres_for kpres_get_inode lp up sz kpres_iupdate [where f = "\<lambda>c. i_addrs (c ip) ! (NDIRECT + 1)"]
      ic kpres_more; simp)
  then show "i_addrs (icache t ip) ! (NDIRECT + 1) = i_addrs (icache s ip) ! (NDIRECT + 1)" using assms by (auto simp: kpres_def)
  obtain u where u: "iupdate ip (u\<lparr>icache := (icache u)(ip := (icache u ip)\<lparr>i_size := 0\<rparr>)\<rparr>) = Ok ((), t)"
    using assms unfolding itrunc_def by (auto simp: kthen_def kbind_def upd_inode_def kmod_def split: res.splits)
  show "i_size (icache t ip) = 0"
    using kpresD [OF kpres_iupdate [where f = "\<lambda>c. i_size (c ip)"] u] by simp
qed

theorem itrunc_keeps_double_indirect_witness:
  "\<exists>t. itrunc 0 (demo_ist\<lparr>icache := (\<lambda>_. demo_inode\<lparr>i_addrs := replicate 12 0 @ [20]\<rparr>)\<rparr>) = Ok ((), t)
    \<and> i_addrs (icache t 0) ! 12 = 20 \<and> i_size (icache t 0) = 0"
proof -
  let ?i = "demo_inode\<lparr>i_addrs := replicate 12 0 @ [20]\<rparr>"
  let ?s = "demo_ist\<lparr>icache := (\<lambda>_. ?i)\<rparr>"
  have z: "i_addrs ?i ! k = 0" if "k < 12" for k using that by (simp add: nth_append)
  have lp: "kwp (kfor [0..<n] (\<lambda>k. kbind (get_inode 0) (\<lambda>i. if i_addrs i ! k \<noteq> 0 then
      kthen (bfree (i_dev i) (unat (i_addrs i ! k))) (upd_inode 0 (\<lambda>i. i\<lparr>i_addrs := (i_addrs i)[k := 0]\<rparr>)) else kret ())))
      (\<lambda>_ t. t = ?s) ?s" if "n \<le> 11" for n
    by (rule kwp_for_upt [where I = "\<lambda>_ t. t = ?s"]) (use z that in simp_all)
  have up: "kwp (iupdate 0) (\<lambda>_ _. True) (?s\<lparr>icache := (\<lambda>_. ?i)(0 := ?i\<lparr>i_size := 0\<rparr>)\<rparr>)"
    by (rule iupdate_wp [where H = "{}"])
      (simp_all add: demo_ist_inv iblock_ok_def demo_inode_def IBLOCK_def IPB_def NBUF_def)
  have "kwp (itrunc 0) (\<lambda>_ _. True) ?s"
    unfolding itrunc_def kwp_then
    by (rule kwp_mono [OF lp [of NDIRECT]]) (use z [of NDIRECT] up in \<open>simp_all add: NDIRECT_def\<close>)
  then obtain t where t: "itrunc 0 ?s = Ok ((), t)" by (auto simp: kwp_Ok)
  from itrunc_keeps_double_indirect [OF t] show ?thesis using t by (auto simp: NDIRECT_def nth_append)
qed

end
