(* ===== verification/Dir.thy ===== *)
theory Dir
  imports Inode Strings
begin

text \<open>
  Directories and path names (\<open>fs.c\<close>). A directory is a file of 32-byte entries,
  an inode number and a name of at most \<open>DIRSIZ\<close> bytes, zero-padded; an
  entry with number 0 is free.
\<close>

section \<open>Entries\<close>

definition DIRSIZ :: nat where "DIRSIZ = 30"
definition ROOTINO :: u32 where "ROOTINO = 1"

text \<open>\<open>struct dirent\<close> as its 32 bytes.\<close>

definition de_size :: nat where "de_size = 2 + DIRSIZ"

definition de_inum :: "u8 list \<Rightarrow> u16" where "de_inum de = get16 de 0"
definition de_name :: "u8 list \<Rightarrow> u8 list" where "de_name de = slice de 2 DIRSIZ"

definition mk_dirent :: "u16 \<Rightarrow> u8 list \<Rightarrow> u8 list" where
  "mk_dirent inum nm = bytes16 inum @ nm"

definition namecmp :: "(nat \<Rightarrow> u8) \<Rightarrow> (nat \<Rightarrow> u8) \<Rightarrow> int" where
  "namecmp s t = strncmp s t DIRSIZ"

section \<open>Lookup and linking\<close>

text \<open>The offsets \<open>0, sizeof(de), 2*sizeof(de), ...\<close> below the directory's size.\<close>

definition de_offs :: "u32 \<Rightarrow> nat list" where
  "de_offs sz = map (\<lambda>k. de_size * k) [0..<(unat sz + de_size - 1) div de_size]"

primrec dirlookup_scan :: "(nat \<Rightarrow> 'z fs_st_scheme devsw) \<Rightarrow> nat \<Rightarrow> u8 list \<Rightarrow> nat list \<Rightarrow> ('z fs_st_scheme, (nat \<times> nat) option) km" where
  "dirlookup_scan dv dp name [] = kret None"
| "dirlookup_scan dv dp name (off # offs) =
     kbind (readi dv dp (of_nat off) (of_nat de_size)) (\<lambda>(n, de).
     if n \<noteq> int de_size then kpanic ''dirlink read''
     else if de_inum de = 0 then dirlookup_scan dv dp name offs
     else if namecmp (cs name) (cs (de_name de)) = 0 then
       kbind (get_inode dp) (\<lambda>d.
       kbind (iget (i_dev d) (ucast (de_inum de))) (\<lambda>ip. kret (Some (ip, off))))
     else dirlookup_scan dv dp name offs)"

text \<open>The result is the inode and the offset of the entry, for \<open>*poff\<close>.\<close>

definition dirlookup :: "(nat \<Rightarrow> 'z fs_st_scheme devsw) \<Rightarrow> nat \<Rightarrow> u8 list \<Rightarrow> ('z fs_st_scheme, (nat \<times> nat) option) km" where
  "dirlookup dv dp name = kbind (get_inode dp) (\<lambda>d.
     if i_type d \<noteq> T_DIR then kpanic ''dirlookup not DIR''
     else dirlookup_scan dv dp name (de_offs (i_size d)))"

text \<open>The offset of the first free entry, or the end of the directory.\<close>

primrec dirlink_scan :: "(nat \<Rightarrow> 'z fs_st_scheme devsw) \<Rightarrow> nat \<Rightarrow> nat \<Rightarrow> nat list \<Rightarrow> ('z fs_st_scheme, nat) km" where
  "dirlink_scan dv dp pos [] = kret pos"
| "dirlink_scan dv dp pos (off # offs) =
     kbind (readi dv dp (of_nat off) (of_nat de_size)) (\<lambda>(n, de).
     if n \<noteq> int de_size then kpanic ''dirlink read''
     else if de_inum de = 0 then kret off
     else dirlink_scan dv dp (off + de_size) offs)"

definition dirlink :: "(nat \<Rightarrow> 'z fs_st_scheme devsw) \<Rightarrow> nat \<Rightarrow> u8 list \<Rightarrow> u32 \<Rightarrow> ('z fs_st_scheme, int) km" where
  "dirlink dv dp name inum =
     kbind (dirlookup dv dp name) (\<lambda>r. case r of
       Some (ip, off) \<Rightarrow> kthen (iput ip) (kret (-1))
     | None \<Rightarrow>
         kbind (get_inode dp) (\<lambda>d.
         kbind (dirlink_scan dv dp 0 (de_offs (i_size d))) (\<lambda>off.
         let de = mk_dirent (ucast inum) (strncpy (cs name) DIRSIZ) in
         kbind (writei dv dp de (of_nat off) (of_nat de_size)) (\<lambda>n.
         if n \<noteq> int de_size then kpanic ''dirlink'' else kret 0))))"

section \<open>Paths\<close>

definition slash :: u8 where "slash = 47"

text \<open>
  A path is the list of its characters up to the terminating zero; \<open>name\<close> is
  the buffer of \<open>DIRSIZ\<close> bytes the element is copied into. The result is the
  rest of the path, or \<open>None\<close> for the null pointer.
\<close>

definition skipelem :: "u8 list \<Rightarrow> u8 list \<Rightarrow> (u8 list \<times> u8 list) option" where
  "skipelem path name =
     (let p = dropWhile (\<lambda>c. c = slash) path in
      if p = [] then None
      else let s = takeWhile (\<lambda>c. c \<noteq> slash) p; len = length s;
               name' = (if DIRSIZ \<le> len then splice name 0 (take DIRSIZ s) else splice name 0 (s @ [0]))
           in Some (dropWhile (\<lambda>c. c = slash) (drop len p), name'))"

lemma skipelem_shorter: "skipelem path name = Some (rest, name') \<Longrightarrow> length rest < length path"
proof -
  assume a: "skipelem path name = Some (rest, name')"
  let ?p = "dropWhile (\<lambda>c. c = slash) path"
  have p: "?p \<noteq> []" "rest = dropWhile (\<lambda>c. c = slash) (drop (length (takeWhile (\<lambda>c. c \<noteq> slash) ?p)) ?p)"
    using a by (auto simp: skipelem_def Let_def split: if_splits)
  define k where "k = length (takeWhile (\<lambda>c. c \<noteq> slash) ?p)"
  have "hd ?p \<noteq> slash" using hd_dropWhile [OF p(1)] by simp
  then have "0 < k" using p(1) unfolding k_def by (cases ?p) auto
  moreover have "length rest \<le> length (drop k ?p)" unfolding p(2) k_def by (rule length_dropWhile_le)
  ultimately have "length rest < length ?p" using p(1) by (cases ?p) simp_all
  then show ?thesis using length_dropWhile_le [of "\<lambda>c. c = slash" path] by simp
qed

text \<open>
  The loop of \<open>namex\<close>: one path element per turn. \<open>None\<close> is the null pointer;
  otherwise the inode and the last element copied to \<open>name\<close>.
\<close>

function namex_loop :: "(nat \<Rightarrow> 'z fs_st_scheme devsw) \<Rightarrow> bool \<Rightarrow> nat \<Rightarrow> u8 list \<Rightarrow> u8 list \<Rightarrow> ('z fs_st_scheme, (nat \<times> u8 list) option) km" where
  "namex_loop dv parent ip path name =
     (case skipelem path name of
        None \<Rightarrow> if parent then kthen (iput ip) (kret None) else kret (Some (ip, name))
      | Some (rest, name') \<Rightarrow>
          kthen (ilock ip)
          (kbind (get_inode ip) (\<lambda>i.
           if i_type i \<noteq> T_DIR then kthen (iunlockput ip) (kret None)
           else if parent \<and> rest = [] then kthen (iunlock ip) (kret (Some (ip, name')))
           else kbind (dirlookup dv ip name') (\<lambda>r. case r of
                  None \<Rightarrow> kthen (iunlockput ip) (kret None)
                | Some (nxt, _) \<Rightarrow> kthen (iunlockput ip) (namex_loop dv parent nxt rest name')))))"
  by pat_completeness auto
termination
  by (relation "measure (\<lambda>(dv, parent, ip, path, name). length path)") (auto dest: skipelem_shorter)

text \<open>\<open>cwd\<close> is \<open>proc->cwd\<close>; \<open>name\<close> the contents of the caller's buffer.\<close>

definition namex :: "(nat \<Rightarrow> 'z fs_st_scheme devsw) \<Rightarrow> nat \<Rightarrow> u8 list \<Rightarrow> bool \<Rightarrow> u8 list \<Rightarrow> ('z fs_st_scheme, (nat \<times> u8 list) option) km" where
  "namex dv cwd path parent name =
     kbind (if path \<noteq> [] \<and> hd path = slash then iget ROOTDEV ROOTINO else idup cwd) (\<lambda>ip.
     namex_loop dv parent ip path name)"

definition namei :: "(nat \<Rightarrow> 'z fs_st_scheme devsw) \<Rightarrow> nat \<Rightarrow> u8 list \<Rightarrow> ('z fs_st_scheme, nat option) km" where
  "namei dv cwd path =
     kbind (namex dv cwd path False (replicate DIRSIZ 0)) (\<lambda>r. kret (map_option fst r))"

definition nameiparent :: "(nat \<Rightarrow> 'z fs_st_scheme devsw) \<Rightarrow> nat \<Rightarrow> u8 list \<Rightarrow> u8 list \<Rightarrow> ('z fs_st_scheme, (nat \<times> u8 list) option) km" where
  "nameiparent dv cwd path name = namex dv cwd path True name"

section \<open>Searching a directory\<close>

text \<open>
  A directory whose blocks are all present and whose size is a whole number of
  entries; its entries as the kernel sees them.
\<close>

definition dir_ok :: "nat set \<Rightarrow> 'z fs_st_scheme \<Rightarrow> inode \<Rightarrow> bool" where
  "dir_ok H s d \<longleftrightarrow> i_type d = T_DIR \<and> i_dev d = 1 \<and> unat (i_size d) mod de_size = 0
     \<and> blocks_of (i_size d) \<le> MAXFILE \<and> (\<forall>bn < blocks_of (i_size d). fmapped H s (i_addrs d) bn)"

definition nents :: "inode \<Rightarrow> nat" where
  "nents d = unat (i_size d) div de_size"

definition dent :: "(nat \<Rightarrow> u8 list) \<Rightarrow> inode \<Rightarrow> nat \<Rightarrow> u8 list" where
  "dent v d k = fbytes v (i_addrs d) (de_size * k) de_size"

definition de_match :: "u8 list \<Rightarrow> u8 list \<Rightarrow> bool" where
  "de_match name de \<longleftrightarrow> de_inum de \<noteq> 0 \<and> namecmp (cs name) (cs (de_name de)) = 0"

lemma de_offs_eq: "unat sz mod de_size = 0 \<Longrightarrow> de_offs sz = map (\<lambda>k. de_size * k) [0..<unat sz div de_size]"
proof -
  assume "unat sz mod de_size = 0"
  then have "unat sz = unat sz div de_size * de_size" by (metis div_mult_mod_eq add_0_right)
  moreover have "(q * de_size + de_size - 1) div de_size = q" for q by (simp add: de_size_def DIRSIZ_def)
  ultimately have "(unat sz + de_size - 1) div de_size = unat sz div de_size" by metis
  then show ?thesis by (simp add: de_offs_def)
qed

lemma de_size_32 [simp]: "unat (of_nat de_size :: u32) = de_size" "sint (of_nat de_size :: u32) = int de_size"
  by (simp_all add: de_size_def DIRSIZ_def)

lemma dent_off:
  assumes "k < nents d"
  shows "unat (of_nat (de_size * k) :: u32) = de_size * k" "de_size * k + de_size \<le> unat (i_size d)"
proof -
  have "de_size * Suc k \<le> de_size * nents d" using assms by (intro mult_le_mono2) simp
  also have "\<dots> \<le> unat (i_size d)" by (simp add: nents_def)
  finally show le: "de_size * k + de_size \<le> unat (i_size d)" by simp
  have "unat (i_size d) < 4294967296" using unsigned_less [of "i_size d"] by simp
  then show "unat (of_nat (de_size * k) :: u32) = de_size * k" using le by (intro unat_of_nat32) linarith
qed

lemma read_dent:
  assumes "log_inv H s" "card H + nat (lh_n s) < NBUF" "icache s dp = d" "dir_ok H s d" "k < nents d"
    and "\<And>t. quiet H s t \<Longrightarrow> Q (int de_size, dent (bview s) d k) t"
  shows "kwp (readi dv dp (of_nat (de_size * k)) (of_nat de_size)) Q s"
proof -
  note o' = dent_off [OF assms(5)]
  show ?thesis
  proof (rule readi_wp [OF assms(1,2,3)])
    show "i_type d \<noteq> T_DEV" using assms(4) by (simp add: dir_ok_def T_DIR_def T_DEV_def)
  qed (use assms(4,6) o' in \<open>simp_all add: dir_ok_def dent_def\<close>)
qed

lemma dir_ok_quiet: "quiet H s t \<Longrightarrow> dir_ok H t d = dir_ok H s d"
  using quietD(2,4) [of H s t] by (simp add: dir_ok_def fmapped_def)

text \<open>The searches of \<open>dirlookup\<close> and \<open>dirlink\<close> from entry \<open>j\<close> on.\<close>

lemma dirlookup_scan_wp:
  "j \<le> nents d \<Longrightarrow> log_inv H s \<Longrightarrow> card H + nat (lh_n s) < NBUF \<Longrightarrow> icache s dp = d \<Longrightarrow> dir_ok H s d \<Longrightarrow> bview s = v \<Longrightarrow>
    (\<And>t. quiet H s t \<Longrightarrow> (\<And>k. j \<le> k \<Longrightarrow> k < nents d \<Longrightarrow> \<not> de_match name (dent v d k)) \<Longrightarrow> Q None t) \<Longrightarrow>
    (\<And>t k. quiet H s t \<Longrightarrow> j \<le> k \<Longrightarrow> k < nents d \<Longrightarrow> de_match name (dent v d k) \<Longrightarrow> (\<And>l. j \<le> l \<Longrightarrow> l < k \<Longrightarrow> \<not> de_match name (dent v d l)) \<Longrightarrow>
      kwp (iget 1 (ucast (de_inum (dent v d k)))) (\<lambda>ip. Q (Some (ip, de_size * k))) t) \<Longrightarrow>
    kwp (dirlookup_scan dv dp name (map (\<lambda>k. de_size * k) [j..<nents d])) Q s"
proof (induction "nents d - j" arbitrary: j s)
  case 0
  then have "j = nents d" by simp
  then show ?case using 0 quiet_refl [OF 0(3)] by simp
next
  case (Suc n)
  then have j: "j < nents d" by simp
  then have e: "map (\<lambda>k. de_size * k) [j..<nents d] = de_size * j # map (\<lambda>k. de_size * k) [Suc j..<nents d]"
    by (simp add: upt_conv_Cons)
  have "kwp (readi dv dp (of_nat (de_size * j)) (of_nat de_size)) (\<lambda>x. kwp (case x of (n, de) \<Rightarrow>
     if n \<noteq> int de_size then kpanic ''dirlink read''
     else if de_inum de = 0 then dirlookup_scan dv dp name (map (\<lambda>k. de_size * k) [Suc j..<nents d])
     else if namecmp (cs name) (cs (de_name de)) = 0 then
       kbind (get_inode dp) (\<lambda>d.
       kbind (iget (i_dev d) (ucast (de_inum de))) (\<lambda>ip. kret (Some (ip, de_size * j))))
     else dirlookup_scan dv dp name (map (\<lambda>k. de_size * k) [Suc j..<nents d])) Q) s"
  proof (rule read_dent [OF Suc.prems(2-5) j])
    fix t
    assume t: "quiet H s t"
    note ft = quietD [OF t] and ic = quiet_icache [OF t]
    let ?de = "dent (bview s) d j"
    have next': "kwp (dirlookup_scan dv dp name (map (\<lambda>k. de_size * k) [Suc j..<nents d])) Q t" if nm: "\<not> de_match name ?de"
    proof (rule Suc.hyps(1))
      show "n = nents d - Suc j" "Suc j \<le> nents d" using Suc.hyps(2) j by simp_all
      show "log_inv H t" "card H + nat (lh_n t) < NBUF" "icache t dp = d" "dir_ok H t d" "bview t = v"
        using Suc.prems ft ic dir_ok_quiet [OF t] by simp_all
      show "Q None u" if "quiet H t u" "\<And>k. Suc j \<le> k \<Longrightarrow> k < nents d \<Longrightarrow> \<not> de_match name (dent v d k)" for u
        using Suc.prems(7) [OF quiet_trans [OF t that(1)]] that(2) nm Suc.prems(6) by (metis Suc_leI le_neq_implies_less)
      show "kwp (iget 1 (ucast (de_inum (dent v d k)))) (\<lambda>ip. Q (Some (ip, de_size * k))) u"
        if "quiet H t u" "Suc j \<le> k" "k < nents d" "de_match name (dent v d k)" "\<And>l. Suc j \<le> l \<Longrightarrow> l < k \<Longrightarrow> \<not> de_match name (dent v d l)" for u k
        using Suc.prems(8) [OF quiet_trans [OF t that(1)], of k] that(2-5) nm Suc.prems(6)
        by (metis Suc_leD Suc_leI le_neq_implies_less)
    qed
    show "kwp (case (int de_size, ?de) of (n, de) \<Rightarrow>
     if n \<noteq> int de_size then kpanic ''dirlink read''
     else if de_inum de = 0 then dirlookup_scan dv dp name (map (\<lambda>k. de_size * k) [Suc j..<nents d])
     else if namecmp (cs name) (cs (de_name de)) = 0 then
       kbind (get_inode dp) (\<lambda>d.
       kbind (iget (i_dev d) (ucast (de_inum de))) (\<lambda>ip. kret (Some (ip, de_size * j))))
     else dirlookup_scan dv dp name (map (\<lambda>k. de_size * k) [Suc j..<nents d])) Q t"
    proof (cases "de_match name ?de")
      case False
      then show ?thesis using next' by (auto simp: de_match_def)
    next
      case True
      have "i_dev d = 1" using Suc.prems(5) by (simp add: dir_ok_def)
      then show ?thesis using True Suc.prems(8) [OF t, of j] Suc.prems(4,6) j ic by (auto simp: de_match_def)
    qed
  qed
  then show ?case unfolding e by simp
qed

lemma dirlink_scan_wp:
  "j \<le> f \<Longrightarrow> f < nents d \<Longrightarrow> de_inum (dent v d f) = 0 \<Longrightarrow> (\<And>k. j \<le> k \<Longrightarrow> k < f \<Longrightarrow> de_inum (dent v d k) \<noteq> 0) \<Longrightarrow>
    log_inv H s \<Longrightarrow> card H + nat (lh_n s) < NBUF \<Longrightarrow> icache s dp = d \<Longrightarrow> dir_ok H s d \<Longrightarrow> bview s = v \<Longrightarrow>
    (\<And>t. quiet H s t \<Longrightarrow> Q (de_size * f) t) \<Longrightarrow>
    kwp (dirlink_scan dv dp (de_size * j) (map (\<lambda>k. de_size * k) [j..<nents d])) Q s"
proof (induction "f - j" arbitrary: j s)
  case 0
  then have j: "j = f" "j < nents d" by simp_all
  then have e: "map (\<lambda>k. de_size * k) [j..<nents d] = de_size * j # map (\<lambda>k. de_size * k) [Suc j..<nents d]"
    by (simp add: upt_conv_Cons)
  show ?case
    unfolding e dirlink_scan.simps kwp_bind
    by (rule read_dent [OF 0(6-9) j(2)]) (use 0 j in simp)
next
  case (Suc n)
  then have j: "j < f" "j < nents d" by simp_all
  then have e: "map (\<lambda>k. de_size * k) [j..<nents d] = de_size * j # map (\<lambda>k. de_size * k) [Suc j..<nents d]"
    by (simp add: upt_conv_Cons)
  show ?case
    unfolding e dirlink_scan.simps kwp_bind
  proof (rule read_dent [OF Suc.prems(5-8) j(2)])
    fix t
    assume t: "quiet H s t"
    note ft = quietD [OF t] and ic = quiet_icache [OF t]
    have "kwp (dirlink_scan dv dp (de_size * Suc j) (map (\<lambda>k. de_size * k) [Suc j..<nents d])) Q t"
    proof (rule Suc.hyps(1))
      show "n = f - Suc j" "Suc j \<le> f" using Suc.hyps(2) j by simp_all
      show "log_inv H t" "card H + nat (lh_n t) < NBUF" "icache t dp = d" "dir_ok H t d" "bview t = v"
        using Suc.prems ft ic dir_ok_quiet [OF t] by simp_all
      show "Q (de_size * f) u" if "quiet H t u" for u using Suc.prems(10) [OF quiet_trans [OF t that]] .
    qed (use Suc.prems(2,3,4) in simp_all)
    then show "kwp (case (int de_size, dent (bview s) d j) of (n, de) \<Rightarrow>
       if n \<noteq> int de_size then kpanic ''dirlink read''
       else if de_inum de = 0 then kret (de_size * j)
       else dirlink_scan dv dp (de_size * j + de_size) (map (\<lambda>k. de_size * k) [Suc j..<nents d])) Q t"
      using Suc.prems(4) [of j] Suc.prems(9) j by (simp add: add.commute)
  qed
qed

lemma dirlookup_wp:
  assumes "log_inv H s" "card H + nat (lh_n s) < NBUF" "icache s dp = d" "dir_ok H s d"
    and "\<And>t. quiet H s t \<Longrightarrow> (\<And>k. k < nents d \<Longrightarrow> \<not> de_match name (dent (bview s) d k)) \<Longrightarrow> Q None t"
    and "\<And>t k. quiet H s t \<Longrightarrow> k < nents d \<Longrightarrow> de_match name (dent (bview s) d k) \<Longrightarrow>
      (\<And>l. l < k \<Longrightarrow> \<not> de_match name (dent (bview s) d l)) \<Longrightarrow>
      kwp (iget 1 (ucast (de_inum (dent (bview s) d k)))) (\<lambda>ip. Q (Some (ip, de_size * k))) t"
  shows "kwp (dirlookup dv dp name) Q s"
proof -
  have t: "i_type d = T_DIR" "unat (i_size d) mod de_size = 0" using assms(4) by (simp_all add: dir_ok_def)
  have "kwp (dirlookup_scan dv dp name (map (\<lambda>k. de_size * k) [0..<nents d])) Q s"
    by (rule dirlookup_scan_wp [OF _ assms(1-4) refl]) (use assms(5,6) in simp_all)
  then show ?thesis using t assms(3) by (simp add: dirlookup_def de_offs_eq nents_def)
qed

lemma length_dent: "length (dent v d k) = de_size"
  by (simp add: dent_def fbytes_def)

lemma de_fields: "length nm = DIRSIZ \<Longrightarrow> de_inum (mk_dirent i nm) = i \<and> de_name (mk_dirent i nm) = nm \<and> length (mk_dirent i nm) = de_size"
proof -
  assume l: "length nm = DIRSIZ"
  have "mk_dirent i nm = put16 ([0, 0] @ nm) 0 i" by (simp add: mk_dirent_def put16_def splice_def)
  then have "de_inum (mk_dirent i nm) = i" by (simp add: de_inum_def get16_put16)
  then show ?thesis using l by (simp add: de_name_def mk_dirent_def slice_def de_size_def)
qed

lemma nblk_dent: "nblk (de_size * k) de_size = 1"
proof -
  have "(32 * (k + 16) + 31) div (32 * 16) = (32 * (k + 16) + 31) div 32 div 16" by (rule div_mult2_eq)
  then have "(32 * k + 543) div 512 = Suc (k div 16)" by simp
  moreover have "32 * k div (32 * 16) = k div 16" by (rule div_mult_mult1) simp
  ultimately show ?thesis by (simp add: nblk_def de_size_def DIRSIZ_def BSIZE_def)
qed

text \<open>Storing an entry in place changes this entry and no other.\<close>

lemma dent_upd:
  assumes u: "file_upd v w (i_addrs d) (blocks_of (i_size d)) (de_size * f) de" and de: "length de = de_size"
    and k: "k < nents d" "f < nents d"
  shows "dent w d k = (if k = f then de else dent v d k)"
proof (rule nth_equalityI)
  fix j
  assume "j < length (dent w d k)"
  then have j: "j < de_size" by (simp add: length_dent)
  have lt: "de_size * k + j < blocks_of (i_size d) * BSIZE"
    using dent_off(2) [OF k(1)] j blocks_of_ge [of "i_size d"] by linarith
  have "de_size * f \<le> de_size * k + j \<and> de_size * k + j < de_size * f + de_size \<longleftrightarrow> k = f"
  proof
    assume a: "de_size * f \<le> de_size * k + j \<and> de_size * k + j < de_size * f + de_size"
    show "k = f"
    proof (rule ccontr)
      assume "k \<noteq> f"
      then consider "Suc k \<le> f" | "Suc f \<le> k" by linarith
      then show False
      proof cases
        case 1
        then have "de_size * Suc k \<le> de_size * f" by (rule mult_le_mono2)
        then show False using a j by simp
      next
        case 2
        then have "de_size * Suc f \<le> de_size * k" by (rule mult_le_mono2)
        then show False using a by simp
      qed
    qed
  qed (use j in simp)
  then have "fbyte w (i_addrs d) (de_size * k + j) = (if k = f then de ! j else fbyte v (i_addrs d) (de_size * k + j))"
    using u lt de by (auto simp: file_upd_def)
  then show "dent w d k ! j = (if k = f then de else dent v d k) ! j"
    using j by (simp add: dent_def fbytes_def)
qed (simp add: length_dent de)

text \<open>\<open>dirlink\<close> into the first free entry of a directory that does not have the name.\<close>

lemma dirlink_free:
  assumes inv: "log_inv H s" "1 \<le> log_outstanding s" "lh_n s + 1 < log_size s" "card H + nat (lh_n s) + 1 < NBUF"
    and d: "icache s dp = d" "dir_ok H s d" "file_wf (bview s) (i_addrs d) (blocks_of (i_size d))"
    and dat: "\<And>bn x. bn < blocks_of (i_size d) \<Longrightarrow> x \<in> set (fpath (bview s) (i_addrs d) bn) \<Longrightarrow> in_data H s x"
    and f: "f < nents d" "de_inum (dent (bview s) d f) = 0" "\<And>k. k < f \<Longrightarrow> de_inum (dent (bview s) d k) \<noteq> 0"
    and new: "\<And>k. k < nents d \<Longrightarrow> \<not> de_match name (dent (bview s) d k)"
    and Q: "\<And>t. txf s t \<Longrightarrow> log_inv H t \<Longrightarrow> lh_n t \<le> lh_n s + 1 \<Longrightarrow>
      file_upd (bview s) (bview t) (i_addrs d) (blocks_of (i_size d)) (de_size * f) (mk_dirent (ucast inum) (strncpy (cs name) DIRSIZ)) \<Longrightarrow> Q 0 t"
  shows "kwp (dirlink dv dp name inum) Q s"
proof -
  let ?de = "mk_dirent (ucast inum) (strncpy (cs name) DIRSIZ)" and ?nb = "blocks_of (i_size d)"
  note df = de_fields [of "strncpy (cs name) DIRSIZ" "ucast inum", simplified]
  have nd: "i_type d \<noteq> T_DEV" "i_dev d = 1" "?nb \<le> MAXFILE" "unat (i_size d) mod de_size = 0"
    using d(2) by (simp_all add: dir_ok_def T_DIR_def T_DEV_def)
  note o' = dent_off [OF f(1)]
  have room: "card H + nat (lh_n s) < NBUF" using inv(4) by simp
  let ?W = "\<lambda>off. kwp (writei dv dp ?de (of_nat off) (of_nat de_size)) (\<lambda>n. kwp (if n \<noteq> int de_size then kpanic ''dirlink'' else kret 0) Q)"
  have wr: "?W (de_size * f) t" if t: "quiet H s t" for t
  proof -
    note ft = quietD [OF t] and ict = quiet_icache [OF t]
    show ?thesis
    proof (rule writei_wp [OF ft(1), where i = d])
      show "file_wf (bview t) (i_addrs d) ?nb" "icache t dp = d" "1 \<le> log_outstanding t" using d ft ict inv(2) by simp_all
      show "in_data H t x" if "bn < ?nb" "x \<in> set (fpath (bview t) (i_addrs d) bn)" for bn x
        using dat [of bn x] that ft by (simp add: in_data_def)
      show "kwp (if sint (of_nat de_size :: u32) \<noteq> int de_size then kpanic ''dirlink'' else kret 0) Q u"
        if "txf t u" "log_inv H u" "file_upd (bview t) (bview u) (i_addrs d) ?nb (unat (of_nat (de_size * f) :: u32)) ?de"
          "lh_n u \<le> lh_n t + int (nblk (unat (of_nat (de_size * f) :: u32)) (unat (of_nat de_size :: u32)))" for u
        using Q [OF txf_trans [OF ft(9) that(1)] that(2)] that(3,4) ft o' nblk_dent by simp
    qed (use inv ft nd o' df nblk_dent [of f] in simp_all)
  qed
  have "kwp (dirlink_scan dv dp (de_size * 0) (map (\<lambda>k. de_size * k) [0..<nents d])) ?W t" if t: "quiet H s t" for t
    by (rule dirlink_scan_wp [where f = f])
      (use f wr quiet_trans [OF t] quietD [OF t] quiet_icache [OF t] dir_ok_quiet [OF t] d room in auto)
  then show ?thesis
    unfolding dirlink_def kwp_bind
    by (intro dirlookup_wp [OF inv(1) room d(1,2)])
      (use new quiet_icache [of H s] d(1) nd(4) in \<open>auto simp: de_offs_eq nents_def Let_def\<close>)
qed

lemma u16_of_u32: "unat (x :: u32) < 65536 \<Longrightarrow> ucast (ucast x :: u16) = x \<and> ((ucast x :: u16) = 0 \<longleftrightarrow> x = 0)"
proof -
  assume a: "unat x < 65536"
  then have e: "unat (ucast x :: u16) = unat x"
    by (simp add: unsigned_ucast_eq unsigned_take_bit_eq take_bit_nat_eq_self del: unat_inject)
  have "unat (ucast (ucast x :: u16) :: u32) = unat (ucast x :: u16)"
    by (simp add: unsigned_ucast_eq unsigned_take_bit_eq take_bit_nat_eq_self a e del: unat_inject)
  then have "ucast (ucast x :: u16) = x" using e by simp
  then show ?thesis using e by (metis unat_eq_0 ucast_0)
qed

lemma iget_ok:
  assumes "icache_wf (icache s)" "free < NINODE" "i_ref (icache s free) = 0"
  shows "\<exists>ip t. iget dev inum s = Ok (ip, t) \<and> cached (icache t) dev inum ip"
proof (cases "\<exists>ip < NINODE. cached (icache s) dev inum ip")
  case True
  then show ?thesis using iget_hit [OF assms(1)] by (fastforce simp: cached_def)
next
  case False
  then have "List.find (\<lambda>i. i_ref (icache s i) = 0) [0..<NINODE] \<noteq> None" using assms by (auto simp: find_None_iff)
  then show ?thesis using False iget_miss [of s dev inum] by (auto simp: cached_def)
qed

section \<open>Path elements\<close>

text \<open>
  The elements of a path, defined by splitting at slashes and dropping empty
  pieces; and the sequence of names the loop of \<open>namex\<close> gets from \<open>skipelem\<close>.
\<close>

fun split_slash :: "u8 list \<Rightarrow> u8 list \<Rightarrow> u8 list list" where
  "split_slash acc [] = [acc]"
| "split_slash acc (c # p) = (if c = slash then acc # split_slash [] p else split_slash (acc @ [c]) p)"

definition path_elems :: "u8 list \<Rightarrow> u8 list list" where
  "path_elems path = filter (\<lambda>e. e \<noteq> []) (split_slash [] path)"

function skip_names :: "u8 list \<Rightarrow> u8 list \<Rightarrow> u8 list list" where
  "skip_names path name = (case skipelem path name of None \<Rightarrow> [] | Some (rest, name') \<Rightarrow> name' # skip_names rest name')"
  by pat_completeness auto
termination
  by (relation "measure (\<lambda>(path, name). length path)") (auto dest: skipelem_shorter)

declare skip_names.simps [simp del]

text \<open>The string in a name buffer: up to the first zero byte, at most \<open>DIRSIZ\<close> bytes.\<close>

definition name_str :: "u8 list \<Rightarrow> u8 list" where
  "name_str name = takeWhile (\<lambda>c. c \<noteq> 0) name"

lemma split_slash_word: "slash \<notin> set w \<Longrightarrow> split_slash acc (w @ p) = split_slash (acc @ w) p"
  by (induction w arbitrary: acc) auto

lemma path_elems_slash: "path_elems (slash # p) = path_elems p"
  by (simp add: path_elems_def)

lemma path_elems_drop: "path_elems (dropWhile (\<lambda>c. c = slash) p) = path_elems p"
  by (induction p) (auto simp: path_elems_slash)

lemma path_elems_word:
  assumes "w \<noteq> []" "slash \<notin> set w" "p = [] \<or> hd p = slash"
  shows "path_elems (w @ p) = w # path_elems p"
proof (cases p)
  case Nil
  then show ?thesis using assms split_slash_word [of w "[]" "[]"] by (simp add: path_elems_def)
next
  case (Cons c q)
  then show ?thesis using assms split_slash_word [of w "[]" p] by (simp add: path_elems_def)
qed

lemma skipelem_Some:
  assumes "skipelem path name = Some (rest, name')" "length name = DIRSIZ" "0 \<notin> set path"
  shows "path_elems path = hd (path_elems path) # path_elems rest"
    "name_str name' = take DIRSIZ (hd (path_elems path))" "length name' = DIRSIZ" "0 \<notin> set rest"
proof -
  define p where "p = dropWhile (\<lambda>c. c = slash) path"
  define w where "w = takeWhile (\<lambda>c. c \<noteq> slash) p"
  define q where "q = dropWhile (\<lambda>c. c \<noteq> slash) p"
  have p: "p \<noteq> []" and r: "rest = dropWhile (\<lambda>c. c = slash) (drop (length w) p)"
    and n: "name' = (if DIRSIZ \<le> length w then splice name 0 (take DIRSIZ w) else splice name 0 (w @ [0]))"
    using assms(1) by (auto simp: skipelem_def Let_def p_def w_def split: if_splits)
  have pq: "p = w @ q" "drop (length w) p = q"
    using takeWhile_dropWhile_id [of "\<lambda>c. c \<noteq> slash" p] by (simp_all add: w_def q_def dropWhile_eq_drop)
  have "hd p \<noteq> slash" using p hd_dropWhile [of "\<lambda>c. c = slash" path] unfolding p_def by blast
  then have w: "w \<noteq> []" using p unfolding w_def by (cases p) auto
  have ns: "slash \<notin> set w" unfolding w_def by (auto dest: set_takeWhileD)
  have "q = [] \<or> hd q = slash" using hd_dropWhile [of "\<lambda>c. c \<noteq> slash" p] unfolding q_def by blast
  then have "path_elems p = w # path_elems q" using path_elems_word [OF w ns] pq(1) by simp
  then have e: "path_elems path = w # path_elems rest" using path_elems_drop [of path] path_elems_drop [of q] r pq by (simp add: p_def)
  then show "path_elems path = hd (path_elems path) # path_elems rest" by simp
  have set: "set w \<subseteq> set path" "set q \<subseteq> set path"
    using set_dropWhileD [of _ "\<lambda>c. c = slash" path] pq(1) unfolding p_def by auto
  then have nz: "\<And>c. c \<in> set w \<Longrightarrow> c \<noteq> 0" using assms(3) by auto
  show "0 \<notin> set rest" using set assms(3) r pq(2) set_dropWhileD [of 0 "\<lambda>c. c = slash" q] by auto
  show "length name' = DIRSIZ" using n assms(2) by (simp split: if_splits)
  show "name_str name' = take DIRSIZ (hd (path_elems path))"
  proof (cases "DIRSIZ \<le> length w")
    case True
    then have "name' = take DIRSIZ w" using n assms(2) by (simp add: splice_def)
    moreover have "takeWhile (\<lambda>c. c \<noteq> 0) (take DIRSIZ w) = take DIRSIZ w" using nz in_set_takeD by (fastforce intro: takeWhile_eq_all_conv [THEN iffD2])
    ultimately show ?thesis using e by (simp add: name_str_def)
  next
    case False
    then have "name' = w @ 0 # drop (Suc (length w)) name" using n by (simp add: splice_def)
    then show ?thesis using e nz False by (simp add: name_str_def takeWhile_append2)
  qed
qed

lemma skipelem_None: "skipelem path name = None \<Longrightarrow> path_elems path = []"
proof -
  assume "skipelem path name = None"
  then have "dropWhile (\<lambda>c. c = slash) path = []" unfolding skipelem_def Let_def by (metis option.distinct(1))
  then have "path_elems path = path_elems []" using path_elems_drop [of path] by (simp only:)
  then show ?thesis by (simp add: path_elems_def)
qed

section \<open>Properties\<close>

text \<open>
  C18: Path parsing equals its reference: the names \<open>skipelem\<close> delivers, turn by
  turn, are exactly the non-empty pieces of the path between slashes, in
  order, each cut to \<open>DIRSIZ\<close> bytes, whatever was in the name buffer before.
\<close>

theorem skipelem_elems:
  assumes "length name = DIRSIZ" "0 \<notin> set path"
  shows "map name_str (skip_names path name) = map (take DIRSIZ) (path_elems path)"
  using assms
proof (induction path name rule: skip_names.induct)
  case (1 path name)
  show ?case
  proof (cases "skipelem path name")
    case None
    then show ?thesis using skipelem_None by (subst skip_names.simps) simp
  next
    case (Some r)
    obtain rest name' where r: "r = (rest, name')" by (cases r)
    note f = skipelem_Some [OF Some [unfolded r] 1(2,3)]
    have IH: "map name_str (skip_names rest name') = map (take DIRSIZ) (path_elems rest)"
      using 1(1) [OF Some r [symmetric]] f(3,4) r by simp
    show ?thesis using Some r f(2) IH by (subst skip_names.simps, subst f(1)) simp
  qed
qed

theorem skipelem_elems_witness:
  "map name_str (skip_names [47, 47, 97, 47, 98, 98, 47] (replicate DIRSIZ 1)) = [[97], [98, 98]]"
  using skipelem_elems [of "replicate DIRSIZ 1" "[47, 47, 97, 47, 98, 98, 47]"]
  by (simp add: path_elems_def slash_def DIRSIZ_def)


text \<open>
  C4: Linking a name and looking it up: in a well-formed directory that has a free
  entry and does not have the name yet, \<open>dirlink\<close> returns 0, and from then on
  \<open>dirlookup\<close> of the name finds the inode that was linked, at the first entry
  that was free, and every other entry is as before.
\<close>

theorem dirlink_dirlookup:
  assumes inv: "log_inv H s" "1 \<le> log_outstanding s" "lh_n s + 1 < log_size s" "card H + nat (lh_n s) + 1 < NBUF"
    and d: "icache s dp = d" "dir_ok H s d" "file_wf (bview s) (i_addrs d) (blocks_of (i_size d))"
    and dat: "\<And>bn x. bn < blocks_of (i_size d) \<Longrightarrow> x \<in> set (fpath (bview s) (i_addrs d) bn) \<Longrightarrow> in_data H s x"
    and f: "f < nents d" "de_inum (dent (bview s) d f) = 0" "\<And>k. k < f \<Longrightarrow> de_inum (dent (bview s) d k) \<noteq> 0"
    and new: "\<And>k. k < nents d \<Longrightarrow> \<not> de_match name (dent (bview s) d k)"
    and inum: "0 < unat inum" "unat inum < 2 ^ 16"
    and ic: "icache_wf (icache s)" "free < NINODE" "i_ref (icache s free) = 0"
  shows "\<exists>t. dirlink dv dp name inum s = Ok (0, t) \<and> log_inv H t
    \<and> (\<exists>ip u. dirlookup dv dp name t = Ok (Some (ip, de_size * f), u) \<and> cached (icache u) 1 inum ip)
    \<and> (\<forall>k < nents d. k \<noteq> f \<longrightarrow> dent (bview t) d k = dent (bview s) d k)"
proof -
  let ?de = "mk_dirent (ucast inum) (strncpy (cs name) DIRSIZ)" and ?nb = "blocks_of (i_size d)"
  note df = de_fields [of "strncpy (cs name) DIRSIZ" "ucast inum", simplified]
  have nd: "i_type d \<noteq> T_DEV" "i_dev d = 1" "?nb \<le> MAXFILE" using d(2) by (simp_all add: dir_ok_def T_DIR_def T_DEV_def)
  note o' = dent_off [OF f(1)]
  let ?P = "\<lambda>t. txf s t \<and> log_inv H t \<and> file_upd (bview s) (bview t) (i_addrs d) ?nb (de_size * f) ?de \<and> lh_n t \<le> lh_n s + 1"
  have link: "kwp (dirlink dv dp name inum) (\<lambda>r t. r = 0 \<and> ?P t) s"
    by (rule dirlink_free [OF inv d dat f new]) auto
  then obtain t where t: "dirlink dv dp name inum s = Ok (0, t)" "?P t" by (auto simp: kwp_Ok)
  then have ft: "txf s t" and up: "file_upd (bview s) (bview t) (i_addrs d) ?nb (de_size * f) ?de" by simp_all
  have ict: "icache t = icache s" by (rule txf_icache [OF ft])
  have dt: "dent (bview t) d k = (if k = f then ?de else dent (bview s) d k)" if "k < nents d" for k
    by (rule dent_upd [OF up _ that f(1)]) (use df in simp)
  have ok: "dir_ok H t d" using d(2) up txf_fields(2) [OF ft] by (simp add: dir_ok_def fmapped_def file_upd_def)
  have u: "ucast (ucast inum :: u16) = inum" "(ucast inum :: u16) \<noteq> 0"
    using inum by (auto simp: u16_of_u32)
  have m: "de_match name ?de" using df u(2) strncmp_strncpy [of "cs name" DIRSIZ] by (simp add: de_match_def namecmp_def)
  have look: "kwp (dirlookup dv dp name) (\<lambda>r u. \<exists>ip. r = Some (ip, de_size * f) \<and> cached (icache u) 1 inum ip) t"
  proof (rule dirlookup_wp [OF _ _ _ ok])
    show "kwp (iget 1 (ucast (de_inum (dent (bview t) d k)))) (\<lambda>ip u. \<exists>jp. Some (ip, de_size * k) = Some (jp, de_size * f) \<and> cached (icache u) 1 inum jp) w"
      if "quiet H t w" "k < nents d" "de_match name (dent (bview t) d k)" for w k
    proof -
      have "k = f" using that(3) dt [OF that(2)] new [OF that(2)] by (cases "k = f") auto
      moreover have "icache w = icache s" using quiet_icache [OF that(1)] ict by simp
      ultimately show ?thesis using dt [OF f(1)] df u(1) iget_ok [of w free 1 inum] ic by (auto simp: kwp_Ok)
    qed
    show "\<exists>ip. None = Some (ip, de_size * f) \<and> cached (icache w) 1 inum ip"
      if "\<And>k. k < nents d \<Longrightarrow> \<not> de_match name (dent (bview t) d k)" for w
      using that [OF f(1)] dt [OF f(1)] m by simp
  qed (use t(2) inv(4) d(1) ict in auto)
  then obtain ip u where "dirlookup dv dp name t = Ok (Some (ip, de_size * f), u)" "cached (icache u) 1 inum ip"
    by (auto simp: kwp_Ok)
  then show ?thesis using t dt by auto
qed

definition demo_dir :: inode where
  "demo_dir = demo_inode\<lparr>i_type := T_DIR, i_size := 64, i_addrs := 9 # replicate 12 0\<rparr>"

definition demo_dst :: fs_st where
  "demo_dst = demo_ist\<lparr>icache := (\<lambda>i. if i = 0 then demo_dir else demo_dir\<lparr>i_ref := 0\<rparr>)\<rparr>"

theorem dirlink_dirlookup_witness:
  "\<exists>t ip u. dirlink no_devsw 0 [97, 98] 7 demo_dst = Ok (0, t) \<and> dirlookup no_devsw 0 [97, 98] t = Ok (Some (ip, 0), u)
    \<and> cached (icache u) 1 7 ip"
proof -
  have nb: "blocks_of (i_size demo_dir) = 1" "nents demo_dir = 2"
    by (simp_all add: demo_dir_def blocks_of_def nents_def BSIZE_def de_size_def DIRSIZ_def)
  have p: "fpath v (i_addrs demo_dir) 0 = [9]" for v by (simp add: fpath_def NDIRECT_def demo_dir_def)
  have z: "bview demo_dst 9 = replicate BSIZE 0" using demo_ist_inv(7) [of 9] by (simp add: demo_dst_def demo_disk_def)
  have b: "fbyte (bview demo_dst) (i_addrs demo_dir) k = 0" if "k < 64" for k
    using that p z by (simp add: fbyte_def fblock_def BSIZE_def)
  have de: "dent (bview demo_dst) demo_dir k = replicate de_size 0" if "k < 2" for k
  proof (rule nth_equalityI)
    fix j
    assume "j < length (dent (bview demo_dst) demo_dir k)"
    then have j: "j < de_size" by (simp add: length_dent)
    then have "de_size * k + j < 64" using that by (simp add: de_size_def DIRSIZ_def)
    then show "dent (bview demo_dst) demo_dir k ! j = replicate de_size 0 ! j" using j b by (simp add: dent_def fbytes_def)
  qed (simp add: length_dent)
  have di: "de_inum (replicate de_size 0) = 0" by (simp add: de_inum_def de_size_def get16_def)
  have "\<exists>t. dirlink no_devsw 0 [97, 98] 7 demo_dst = Ok (0, t) \<and> log_inv {} t
    \<and> (\<exists>ip u. dirlookup no_devsw 0 [97, 98] t = Ok (Some (ip, de_size * 0), u) \<and> cached (icache u) 1 7 ip)
    \<and> (\<forall>k < nents demo_dir. k \<noteq> 0 \<longrightarrow> dent (bview t) demo_dir k = dent (bview demo_dst) demo_dir k)"
  proof (rule dirlink_dirlookup)
    show "log_inv {} demo_dst" "1 \<le> log_outstanding demo_dst" "lh_n demo_dst + 1 < log_size demo_dst"
      "card {} + nat (lh_n demo_dst) + 1 < NBUF" "icache demo_dst 0 = demo_dir"
      by (simp_all add: demo_dst_def demo_ist_inv NBUF_def)
    show "dir_ok {} demo_dst demo_dir"
      unfolding dir_ok_def nb using p [of "bview demo_dst"]
      by (auto simp: demo_dst_def fmapped_def demo_ist_inv MAXFILE_def NDIRECT_def)
        (simp_all add: demo_dir_def demo_inode_def de_size_def DIRSIZ_def)
    show "file_wf (bview demo_dst) (i_addrs demo_dir) (blocks_of (i_size demo_dir))"
      unfolding nb using p by (simp add: file_wf_def)
    show "in_data {} demo_dst x" if "bn < blocks_of (i_size demo_dir)" "x \<in> set (fpath (bview demo_dst) (i_addrs demo_dir) bn)" for bn x
      using that p unfolding nb by (simp add: in_data_def demo_dst_def demo_ist_inv)
    show "icache_wf (icache demo_dst)" "i_ref (icache demo_dst 1) = 0" "1 < NINODE"
      by (simp_all add: demo_dst_def icache_wf_def demo_dir_def demo_inode_def NINODE_def)
  qed (use de di nb in \<open>simp_all add: de_match_def\<close>)
  then show ?thesis by auto
qed

end
