(* ===== verification/Font.thy ===== *)
theory Font
  imports Main "HOL-Library.Word"
begin

text \<open>
  The font table of \<open>character.h\<close>: for each of the 95 printable characters from
  the space on, 18 rows of 9 dots. A row is written as a binary numeral, its
  leftmost dot first; a row missing at the end of a glyph is blank, as in C. \<open>character\<close> reads the dot in row \<open>i\<close> and column \<open>j\<close>.
\<close>

definition CHARACTER_WIDTH :: nat where "CHARACTER_WIDTH = 9"
definition CHARACTER_HEIGHT :: nat where "CHARACTER_HEIGHT = 18"

definition glyphs0 :: "nat list list" where
  "glyphs0 = [
    [0b000000000, 0b000000000, 0b000000000, 0b000000000, 0b000000000, 0b000000000, 0b000000000, 0b000000000, 0b000000000,
     0b000000000, 0b000000000, 0b000000000, 0b000000000, 0b000000000, 0b000000000, 0b000000000, 0b000000000, 0b000000000],
    [0b000000000, 0b000000000, 0b000000000, 0b000000000, 0b011000000, 0b011000000, 0b011000000, 0b011000000, 0b011000000,
     0b011000000, 0b011000000, 0b000000000, 0b011000000, 0b011000000, 0b000000000, 0b000000000, 0b000000000, 0b000000000],
    [0b000000000, 0b000000000, 0b000000000, 0b000000000, 0b011011000, 0b011011000, 0b011011000, 0b000000000, 0b000000000,
     0b000000000, 0b000000000, 0b000000000, 0b000000000, 0b000000000, 0b000000000, 0b000000000, 0b000000000, 0b000000000],
    [0b000000000, 0b000000000, 0b000000000, 0b000000000, 0b001101100, 0b001101110, 0b011111110, 0b001101100, 0b001101100,
     0b011111110, 0b011111110, 0b001101100, 0b001101100, 0b000000000, 0b000000000, 0b000000000, 0b000000000, 0b000000000],
    [0b000000000, 0b000000000, 0b000000000, 0b000110000, 0b001111000, 0b011111100, 0b011110000, 0b011110000, 0b001111000,
     0b000111100, 0b000111100, 0b011111100, 0b001111000, 0b000110000, 0b000000000, 0b000000000, 0b000000000, 0b000000000],
    [0b000000000, 0b000000000, 0b000000000, 0b000000000, 0b011100110, 0b110101110, 0b110111100, 0b010111100, 0b011111100,
     0b000111010, 0b000111011, 0b001111011, 0b011001110, 0b000000000, 0b000000000, 0b000000000, 0b000000000, 0b000000000],
    [0b000000000, 0b000000000, 0b000000000, 0b000000000, 0b001110000, 0b011011000, 0b110110110, 0b011100110, 0b111110110,
     0b110011110, 0b110001110, 0b110001110, 0b011111011, 0b000000000, 0b000000000, 0b000000000, 0b000000000, 0b000000000]]"

definition glyphs1 :: "nat list list" where
  "glyphs1 = [
    [0b000000000, 0b000000000, 0b000000000, 0b000000000, 0b011000000, 0b011000000, 0b011000000, 0b000000000, 0b000000000,
     0b000000000, 0b000000000, 0b000000000, 0b000000000, 0b000000000, 0b000000000, 0b000000000, 0b000000000, 0b000000000],
    [0b000000000, 0b000000000, 0b000000000, 0b000000000, 0b000110000, 0b001100000, 0b001100000, 0b011000000, 0b011000000,
     0b011000000, 0b011000000, 0b011000000, 0b011100000, 0b001100000, 0b000110000, 0b000000000, 0b000000000, 0b000000000],
    [0b000000000, 0b000000000, 0b000000000, 0b000000000, 0b110000000, 0b011000000, 0b011000000, 0b001100000, 0b001100000,
     0b001100000, 0b001100000, 0b001100000, 0b011100000, 0b011000000, 0b110000000, 0b000000000, 0b000000000, 0b000000000],
    [0b000000000, 0b000000000, 0b000000000, 0b001100000, 0b001100000, 0b111111000, 0b001100000, 0b011110000, 0b010010000,
     0b000000000, 0b000000000, 0b000000000, 0b000000000, 0b000000000, 0b000000000, 0b000000000, 0b000000000, 0b000000000],
    [0b000000000, 0b000000000, 0b000000000, 0b000000000, 0b000000000, 0b000000000, 0b000011000, 0b000011000, 0b000011000,
     0b011111111, 0b000011000, 0b000011000, 0b000011000, 0b000000000, 0b000000000, 0b000000000, 0b000000000, 0b000000000],
    [0b000000000, 0b000000000, 0b000000000, 0b000000000, 0b000000000, 0b000000000, 0b000000000, 0b000000000, 0b000000000,
     0b000000000, 0b000000000, 0b000000000, 0b001100000, 0b011100000, 0b011000000, 0b000000000, 0b000000000, 0b000000000],
    [0b000000000, 0b000000000, 0b000000000, 0b000000000, 0b000000000, 0b000000000, 0b000000000, 0b000000000, 0b011110000,
     0b011110000, 0b000000000, 0b000000000, 0b000000000, 0b000000000, 0b000000000, 0b000000000, 0b000000000, 0b000000000]]"

definition glyphs2 :: "nat list list" where
  "glyphs2 = [
    [0b000000000, 0b000000000, 0b000000000, 0b000000000, 0b000000000, 0b000000000, 0b000000000, 0b000000000, 0b000000000,
     0b000000000, 0b000000000, 0b011000000, 0b011000000, 0b000000000, 0b000000000, 0b000000000, 0b000000000, 0b000000000],
    [0b000000000, 0b000000000, 0b000000000, 0b000000000, 0b000001100, 0b000011000, 0b000011000, 0b000011000, 0b000110000,
     0b000110000, 0b000110000, 0b001100000, 0b001100000, 0b001100000, 0b011000000, 0b000000000, 0b000000000, 0b000000000],
    [0b000000000, 0b000000000, 0b000000000, 0b000000000, 0b001111000, 0b011111100, 0b011001100, 0b011001100, 0b011001100,
     0b011001100, 0b011001100, 0b011111100, 0b001111000, 0b000000000, 0b000000000, 0b000000000, 0b000000000, 0b000000000],
    [0b000000000, 0b000000000, 0b000000000, 0b000000000, 0b001110000, 0b011110000, 0b000110000, 0b000110000, 0b000110000,
     0b000110000, 0b000110000, 0b000110000, 0b011111100, 0b000000000, 0b000000000, 0b000000000, 0b000000000, 0b000000000],
    [0b000000000, 0b000000000, 0b000000000, 0b000000000, 0b001111000, 0b011001100, 0b000001100, 0b000001100, 0b000011000,
     0b000111000, 0b001110000, 0b001100000, 0b011111100, 0b000000000, 0b000000000, 0b000000000, 0b000000000, 0b000000000],
    [0b000000000, 0b000000000, 0b000000000, 0b000000000, 0b001111000, 0b011001100, 0b000001100, 0b000001100, 0b001111000,
     0b000001100, 0b000001100, 0b011001100, 0b001111000, 0b000000000, 0b000000000, 0b000000000, 0b000000000, 0b000000000],
    [0b000000000, 0b000000000, 0b000000000, 0b000000000, 0b000011000, 0b000111000, 0b001111000, 0b001111000, 0b011011000,
     0b110011000, 0b111111100, 0b000011000, 0b000011000, 0b000011000, 0b000000000, 0b000000000, 0b000000000, 0b000000000]]"

definition glyphs3 :: "nat list list" where
  "glyphs3 = [
    [0b000000000, 0b000000000, 0b000000000, 0b000000000, 0b011111100, 0b011000000, 0b011000000, 0b011111000, 0b000011100,
     0b000001100, 0b000001100, 0b011011100, 0b001111000, 0b000000000, 0b000000000, 0b000000000, 0b000000000, 0b000000000],
    [0b000000000, 0b000000000, 0b000000000, 0b000111100, 0b001111000, 0b011100000, 0b011000000, 0b011111000, 0b011001100,
     0b011001100, 0b011001100, 0b011101100, 0b001111000, 0b000000000, 0b000000000, 0b000000000, 0b000000000, 0b000000000],
    [0b000000000, 0b000000000, 0b000000000, 0b000000000, 0b011111100, 0b010001100, 0b000011100, 0b000011000, 0b000011000,
     0b000110000, 0b000110000, 0b000110000, 0b001100000, 0b000000000, 0b000000000, 0b000000000, 0b000000000, 0b000000000],
    [0b000000000, 0b000000000, 0b000000000, 0b001111000, 0b011001100, 0b011001100, 0b011001100, 0b011111000, 0b001111000,
     0b011001100, 0b011001100, 0b011001100, 0b001111000, 0b000000000, 0b000000000, 0b000000000, 0b000000000, 0b000000000],
    [0b000000000, 0b000000000, 0b000000000, 0b000000000, 0b001111000, 0b011011100, 0b011001100, 0b011001100, 0b011001100,
     0b001111100, 0b000001100, 0b000001100, 0b000111000, 0b011110000, 0b000000000, 0b000000000, 0b000000000, 0b000000000],
    [0b000000000, 0b000000000, 0b000000000, 0b000000000, 0b000000000, 0b000000000, 0b000000000, 0b011000000, 0b011000000,
     0b000000000, 0b000000000, 0b011000000, 0b011000000, 0b000000000, 0b000000000, 0b000000000, 0b000000000, 0b000000000],
    [0b000000000, 0b000000000, 0b000000000, 0b000000000, 0b000000000, 0b000000000, 0b000000000, 0b011000000, 0b011000000,
     0b000000000, 0b000000000, 0b000000000, 0b001000000, 0b011000000, 0b011000000, 0b100000000, 0b000000000, 0b000000000]]"

definition glyphs4 :: "nat list list" where
  "glyphs4 = [
    [0b000000000, 0b000000000, 0b000000000, 0b000000000, 0b000000000, 0b000000100, 0b000001100, 0b000011000, 0b000110000,
     0b001100000, 0b000110000, 0b000011000, 0b000001100, 0b000000100, 0b000000000, 0b000000000, 0b000000000, 0b000000000],
    [0b000000000, 0b000000000, 0b000000000, 0b000000000, 0b000000000, 0b000000000, 0b000000000, 0b011111110, 0b000000000,
     0b000000000, 0b011111110, 0b000000000, 0b000000000, 0b000000000, 0b000000000, 0b000000000, 0b000000000, 0b000000000],
    [0b000000000, 0b000000000, 0b000000000, 0b000000000, 0b000000000, 0b001000000, 0b000110000, 0b000011000, 0b000001100,
     0b000000110, 0b000001100, 0b000011000, 0b000110000, 0b001000000, 0b000000000, 0b000000000, 0b000000000, 0b000000000],
    [0b000000000, 0b000000000, 0b000000000, 0b001111000, 0b011111100, 0b011001100, 0b000001100, 0b000001100, 0b000011000,
     0b000110000, 0b000110000, 0b000000000, 0b000110000, 0b000110000, 0b000000000, 0b000000000, 0b000000000, 0b000000000],
    [0b000000000, 0b000000000, 0b000000000, 0b000000000, 0b001111110, 0b111000111, 0b111111111, 0b111101101, 0b111001101,
     0b111001101, 0b111011101, 0b111111111, 0b111000000, 0b001111110, 0b000000000, 0b000000000, 0b000000000, 0b000000000],
    [0b000000000, 0b000000000, 0b000000000, 0b000000000, 0b000011000, 0b000111100, 0b000111100, 0b000111100, 0b001100110,
     0b001100110, 0b011111111, 0b011000111, 0b010000011, 0b000000000, 0b000000000, 0b000000000, 0b000000000, 0b000000000],
    [0b000000000, 0b000000000, 0b000000000, 0b000000000, 0b011111000, 0b011001100, 0b011001100, 0b011001100, 0b011111000,
     0b011001100, 0b011001100, 0b011001100, 0b011111000, 0b000000000, 0b000000000, 0b000000000, 0b000000000, 0b000000000]]"

definition glyphs5 :: "nat list list" where
  "glyphs5 = [
    [0b000000000, 0b000000000, 0b000000000, 0b000000000, 0b000111100, 0b001100110, 0b011000000, 0b011000000, 0b011000000,
     0b011000000, 0b011000000, 0b001100110, 0b000111100, 0b000000000, 0b000000000, 0b000000000, 0b000000000],
    [0b000000000, 0b000000000, 0b000000000, 0b000000000, 0b011111100, 0b011001110, 0b011000011, 0b011000011, 0b011000011,
     0b011000011, 0b011000011, 0b011000110, 0b011111100, 0b000000000, 0b000000000, 0b000000000, 0b000000000, 0b000000000],
    [0b000000000, 0b000000000, 0b000000000, 0b000000000, 0b011111100, 0b011000000, 0b011000000, 0b011000000, 0b011111100,
     0b011000000, 0b011000000, 0b011000000, 0b011111100, 0b000000000, 0b000000000, 0b000000000, 0b000000000, 0b000000000],
    [0b000000000, 0b000000000, 0b000000000, 0b000000000, 0b011111100, 0b011000100, 0b011000000, 0b011000000, 0b011111000,
     0b011000000, 0b011000000, 0b011000000, 0b011000000, 0b000000000, 0b000000000, 0b000000000, 0b000000000, 0b000000000],
    [0b000000000, 0b000000000, 0b000000000, 0b000000000, 0b000111100, 0b001110010, 0b011000000, 0b011000000, 0b011001110,
     0b011000110, 0b011000110, 0b001110110, 0b000111100, 0b000000000, 0b000000000, 0b000000000, 0b000000000, 0b000000000],
    [0b000000000, 0b000000000, 0b000000000, 0b000000000, 0b011000110, 0b011000110, 0b011000110, 0b011000110, 0b011111110,
     0b011000110, 0b011000110, 0b011000110, 0b011000110, 0b000000000, 0b000000000, 0b000000000, 0b000000000, 0b000000000],
    [0b000000000, 0b000000000, 0b000000000, 0b000000000, 0b001111000, 0b000110000, 0b000110000, 0b000110000, 0b000110000,
     0b000110000, 0b000110000, 0b000110000, 0b001111000, 0b000000000, 0b000000000, 0b000000000, 0b000000000, 0b000000000]]"

definition glyphs6 :: "nat list list" where
  "glyphs6 = [
    [0b000000000, 0b000000000, 0b000000000, 0b000000000, 0b001111000, 0b000110000, 0b000110000, 0b000110000, 0b000110000,
     0b000110000, 0b000110000, 0b100110000, 0b011100000, 0b000000000, 0b000000000, 0b000000000, 0b000000000, 0b000000000],
    [0b000000000, 0b000000000, 0b000000000, 0b000000000, 0b011000111, 0b011001110, 0b011011100, 0b011111000, 0b011110000,
     0b011111000, 0b011011100, 0b011001110, 0b011000111, 0b000000000, 0b000000000, 0b000000000, 0b000000000, 0b000000000],
    [0b000000000, 0b000000000, 0b000000000, 0b000000000, 0b011000000, 0b011000000, 0b011000000, 0b011000000, 0b011000000,
     0b011000000, 0b011000000, 0b011000000, 0b011111100, 0b000000000, 0b000000000, 0b000000000, 0b000000000, 0b000000000],
    [0b000000000, 0b000000000, 0b000000000, 0b000000000, 0b011000110, 0b011000110, 0b011101110, 0b011101110, 0b011111110,
     0b011010110, 0b011000110, 0b011000110, 0b011000110, 0b000000000, 0b000000000, 0b000000000, 0b000000000, 0b000000000],
    [0b000000000, 0b000000000, 0b000000000, 0b000000000, 0b110001100, 0b111001100, 0b111001100, 0b111101100, 0b110101100,
     0b110111100, 0b110011100, 0b110011100, 0b110001100, 0b000000000, 0b000000000, 0b000000000, 0b000000000, 0b000000000],
    [0b000000000, 0b000000000, 0b000000000, 0b000000000, 0b000111000, 0b001101100, 0b011000110, 0b011000110, 0b011000110,
     0b011000110, 0b011000110, 0b001101100, 0b000111000, 0b000000000, 0b000000000, 0b000000000, 0b000000000, 0b000000000],
    [0b000000000, 0b000000000, 0b000000000, 0b000000000, 0b011111000, 0b011001100, 0b011001100, 0b011001100, 0b011111100,
     0b011111000, 0b011000000, 0b011000000, 0b011000000, 0b011000000, 0b000000000, 0b000000000, 0b000000000, 0b000000000]]"

definition glyphs7 :: "nat list list" where
  "glyphs7 = [
    [0b000000000, 0b000000000, 0b000000000, 0b000000000, 0b001111100, 0b011000110, 0b110000011, 0b110000011, 0b110000011,
     0b110000011, 0b110000011, 0b011000110, 0b011111110, 0b001111100, 0b000000111, 0b000000000, 0b000000000, 0b000000000],
    [0b000000000, 0b000000000, 0b000000000, 0b011111000, 0b011111100, 0b011000110, 0b011000110, 0b011001110, 0b011111000,
     0b011011100, 0b011001110, 0b011000110, 0b011000011, 0b000000000, 0b000000000, 0b000000000, 0b000000000, 0b000000000],
    [0b000000000, 0b000000000, 0b000000000, 0b000000000, 0b001111000, 0b011001100, 0b011000000, 0b011000000, 0b001110000,
     0b000111000, 0b000001100, 0b000001100, 0b011001100, 0b001111000, 0b000000000, 0b000000000, 0b000000000, 0b000000000],
    [0b000000000, 0b000000000, 0b000000000, 0b000000000, 0b111111110, 0b000110000, 0b000110000, 0b000110000, 0b000110000,
     0b000110000, 0b000110000, 0b000110000, 0b000110000, 0b000000000, 0b000000000, 0b000000000, 0b000000000, 0b000000000],
    [0b000000000, 0b000000000, 0b000000000, 0b000000000, 0b011000011, 0b011000011, 0b011000011, 0b011000011, 0b011000011,
     0b011000011, 0b011000011, 0b011100111, 0b001111110, 0b000000000, 0b000000000, 0b000000000, 0b000000000, 0b000000000],
    [0b000000000, 0b000000000, 0b000000000, 0b000000000, 0b110000110, 0b110000110, 0b011000100, 0b011001100, 0b011001100,
     0b001101100, 0b001111000, 0b001111000, 0b000110000, 0b000000000, 0b000000000, 0b000000000, 0b000000000, 0b000000000],
    [0b000000000, 0b000000000, 0b000000000, 0b100000100, 0b100000100, 0b110001100, 0b110101100, 0b010101000, 0b011011000,
     0b001010000, 0b000000000, 0b000000000, 0b000000000, 0b000000000, 0b000000000, 0b000000000, 0b000000000, 0b000000000]]"

definition glyphs8 :: "nat list list" where
  "glyphs8 = [
    [0b000000000, 0b000000000, 0b000000000, 0b000000000, 0b010000010, 0b011000110, 0b001101100, 0b000111000, 0b000010000,
     0b000111000, 0b001101100, 0b011000110, 0b010000010, 0b000000000, 0b000000000, 0b000000000, 0b000000000, 0b000000000],
    [0b000000000, 0b000000000, 0b000000000, 0b000000000, 0b110000110, 0b011001100, 0b011001100, 0b001111000, 0b001111000,
     0b000110000, 0b000110000, 0b000110000, 0b000110000, 0b000000000, 0b000000000, 0b000000000, 0b000000000, 0b000000000],
    [0b000000000, 0b000000000, 0b000000000, 0b000000000, 0b011111110, 0b000001100, 0b000001100, 0b000011000, 0b000010000,
     0b000110000, 0b001100000, 0b011000000, 0b011111110, 0b000000000, 0b000000000, 0b000000000, 0b000000000, 0b000000000],
    [0b000000000, 0b000000000, 0b000000000, 0b000000000, 0b001110000, 0b001100000, 0b001100000, 0b001100000, 0b001100000,
     0b001100000, 0b001100000, 0b001100000, 0b001100000, 0b001100000, 0b001110000, 0b000000000, 0b000000000, 0b000000000],
    [0b000000000, 0b000000000, 0b000000000, 0b000000000, 0b110000000, 0b011000000, 0b011000000, 0b011000000, 0b001100000,
     0b001100000, 0b001100000, 0b000110000, 0b000110000, 0b000110000, 0b000011000, 0b000000000, 0b000000000, 0b000000000],
    [0b000000000, 0b000000000, 0b000000000, 0b000000000, 0b011100000, 0b001100000, 0b001100000, 0b001100000, 0b001100000,
     0b001100000, 0b001100000, 0b001100000, 0b001100000, 0b001100000, 0b011100000, 0b000000000, 0b000000000, 0b000000000],
    [0b000000000, 0b000000000, 0b000000000, 0b000000000, 0b000011000, 0b000111100, 0b001100110, 0b011000011, 0b010000001,
     0b000000000, 0b000000000, 0b000000000, 0b000000000, 0b000000000, 0b000000000, 0b000000000, 0b000000000, 0b000000000]]"

definition glyphs9 :: "nat list list" where
  "glyphs9 = [
    [0b000000000, 0b000000000, 0b000000000, 0b000000000, 0b000000000, 0b000000000, 0b000000000, 0b000000000, 0b000000000,
     0b000000000, 0b000000000, 0b000000000, 0b000000000, 0b011111100, 0b011111100, 0b000000000, 0b000000000, 0b000000000],
    [0b000000000, 0b000000000, 0b000000000, 0b011100000, 0b001110000, 0b000000000, 0b000000000, 0b000000000, 0b000000000,
     0b000000000, 0b000000000, 0b000000000, 0b000000000, 0b000000000, 0b000000000, 0b000000000, 0b000000000, 0b000000000],
    [0b000000000, 0b000000000, 0b000000000, 0b000000000, 0b000000000, 0b000000000, 0b000111000, 0b001001100, 0b000001100,
     0b000111100, 0b001101100, 0b001101100, 0b001111100, 0b000000000, 0b000000000, 0b000000000, 0b000000000, 0b000000000],
    [0b000000000, 0b000000000, 0b000000000, 0b011000000, 0b011000000, 0b011000000, 0b011000000, 0b011111100, 0b011101110,
     0b011000110, 0b011000110, 0b011101110, 0b011111100, 0b000000000, 0b000000000, 0b000000000, 0b000000000, 0b000000000],
    [0b000000000, 0b000000000, 0b000000000, 0b000000000, 0b000000000, 0b000000000, 0b000000000, 0b001111100, 0b011100000,
     0b011000000, 0b011000000, 0b011100000, 0b001111100, 0b000000000, 0b000000000, 0b000000000, 0b000000000, 0b000000000],
    [0b000000000, 0b000000000, 0b000000000, 0b000000110, 0b000000110, 0b000000110, 0b000000110, 0b001111110, 0b011100110,
     0b011000110, 0b011000110, 0b011101110, 0b001111110, 0b000000000, 0b000000000, 0b000000000, 0b000000000, 0b000000000],
    [0b000000000, 0b000000000, 0b000000000, 0b000000000, 0b000000000, 0b000000000, 0b001111000, 0b011001100, 0b011001100,
     0b011111100, 0b011000000, 0b011000100, 0b001111000, 0b000000000, 0b000000000, 0b000000000, 0b000000000, 0b000000000]]"

definition glyphs10 :: "nat list list" where
  "glyphs10 = [
    [0b000000000, 0b000000000, 0b000000000, 0b000111000, 0b001100000, 0b001100000, 0b001100000, 0b011111000, 0b001100000,
     0b001100000, 0b001100000, 0b001100000, 0b001100000, 0b000000000, 0b000000000, 0b000000000, 0b000000000, 0b000000000],
    [0b000000000, 0b000000000, 0b000000000, 0b000000000, 0b000000000, 0b000000000, 0b000000000, 0b001111110, 0b011100110,
     0b011000110, 0b011000110, 0b011101110, 0b001111110, 0b000000110, 0b011001110, 0b001111100, 0b000000000, 0b000000000],
    [0b000000000, 0b000000000, 0b000000000, 0b011000000, 0b011000000, 0b011000000, 0b011000000, 0b011111000, 0b011101100,
     0b011001100, 0b011001100, 0b011001100, 0b011001100, 0b000000000, 0b000000000, 0b000000000, 0b000000000, 0b000000000],
    [0b000000000, 0b000000000, 0b000000000, 0b001100000, 0b001100000, 0b000000000, 0b000000000, 0b011100000, 0b001100000,
     0b001100000, 0b001100000, 0b001100000, 0b001111000, 0b000000000, 0b000000000, 0b000000000, 0b000000000, 0b000000000],
    [0b000000000, 0b000000000, 0b000000000, 0b001100000, 0b001100000, 0b000000000, 0b000000000, 0b011100000, 0b001100000,
     0b001100000, 0b001100000, 0b001100000, 0b001100000, 0b001100000, 0b001100000, 0b111000000, 0b000000000, 0b000000000],
    [0b000000000, 0b000000000, 0b000000000, 0b011000000, 0b011000000, 0b011000000, 0b011000000, 0b011001100, 0b011011000,
     0b011110000, 0b011110000, 0b011111000, 0b011011100, 0b000000000, 0b000000000, 0b000000000, 0b000000000, 0b000000000],
    [0b000000000, 0b000000000, 0b000000000, 0b001110000, 0b000110000, 0b000110000, 0b000110000, 0b000110000, 0b000110000,
     0b000110000, 0b000110000, 0b000110000, 0b000111100, 0b000000000, 0b000000000, 0b000000000, 0b000000000, 0b000000000]]"

definition glyphs11 :: "nat list list" where
  "glyphs11 = [
    [0b000000000, 0b000000000, 0b000000000, 0b000000000, 0b000000000, 0b000000000, 0b000000000, 0b001111110, 0b011011011,
     0b011011011, 0b011011011, 0b011011011, 0b011011011, 0b000000000, 0b000000000, 0b000000000, 0b000000000, 0b000000000],
    [0b000000000, 0b000000000, 0b000000000, 0b000000000, 0b000000000, 0b000000000, 0b000000000, 0b011111000, 0b011101100,
     0b011001100, 0b011001100, 0b011001100, 0b011001100, 0b000000000, 0b000000000, 0b000000000, 0b000000000, 0b000000000],
    [0b000000000, 0b000000000, 0b000000000, 0b000000000, 0b000000000, 0b000000000, 0b000111000, 0b001111100, 0b011000110,
     0b011000110, 0b011000110, 0b011000110, 0b001111100, 0b000111000, 0b000000000, 0b000000000, 0b000000000, 0b000000000],
    [0b000000000, 0b000000000, 0b000000000, 0b000000000, 0b000000000, 0b000000000, 0b000000000, 0b011111100, 0b011100110,
     0b011000110, 0b011000110, 0b011001110, 0b011111100, 0b011000000, 0b011000000, 0b011000000, 0b011000000, 0b000000000],
    [0b000000000, 0b000000000, 0b000000000, 0b000000000, 0b000000000, 0b000000000, 0b000000000, 0b001111110, 0b011100110,
     0b011000110, 0b011000110, 0b011101110, 0b001111110, 0b000000110, 0b000000110, 0b000000110, 0b000000000, 0b000000000],
    [0b000000000, 0b000000000, 0b000000000, 0b000000000, 0b000000000, 0b000000000, 0b000000000, 0b001111100, 0b001110000,
     0b001100000, 0b001100000, 0b001100000, 0b001100000, 0b000000000, 0b000000000, 0b000000000, 0b000000000, 0b000000000],
    [0b000000000, 0b000000000, 0b000000000, 0b000000000, 0b000000000, 0b000000000, 0b001110000, 0b011001000, 0b011000000,
     0b001100000, 0b000110000, 0b000011000, 0b010011000, 0b001110000, 0b000000000, 0b000000000, 0b000000000, 0b000000000]]"

definition glyphs12 :: "nat list list" where
  "glyphs12 = [
    [0b000000000, 0b000000000, 0b000000000, 0b000000000, 0b000000000, 0b001100000, 0b001100000, 0b111111100, 0b001100000,
     0b001100000, 0b001100000, 0b001100100, 0b001111000, 0b000000000, 0b000000000, 0b000000000, 0b000000000, 0b000000000],
    [0b000000000, 0b000000000, 0b000000000, 0b000000000, 0b000000000, 0b000000000, 0b000000000, 0b011001100, 0b011001100,
     0b011001100, 0b011001100, 0b011001100, 0b001110100, 0b000000000, 0b000000000, 0b000000000, 0b000000000, 0b000000000],
    [0b000000000, 0b000000000, 0b000000000, 0b000000000, 0b000000000, 0b000000000, 0b000000000, 0b110001100, 0b110001100,
     0b010001000, 0b011011000, 0b001110000, 0b001110000, 0b000100000, 0b000000000, 0b000000000, 0b000000000, 0b000000000],
    [0b000000000, 0b000000000, 0b000000000, 0b000000000, 0b000000000, 0b100000001, 0b110000011, 0b110010011, 0b110010011,
     0b010111010, 0b011111110, 0b011101110, 0b001000100, 0b000000000, 0b000000000, 0b000000000, 0b000000000, 0b000000000],
    [0b000000000, 0b000000000, 0b000000000, 0b000000000, 0b000000000, 0b000000000, 0b000000000, 0b010001000, 0b011011000,
     0b001110000, 0b001110000, 0b011011000, 0b010001000, 0b000000000, 0b000000000, 0b000000000, 0b000000000, 0b000000000],
    [0b000000000, 0b000000000, 0b000000000, 0b000000000, 0b000000000, 0b000000000, 0b000000000, 0b100000100, 0b110001100,
     0b010001100, 0b011011000, 0b001110000, 0b000110000, 0b000100000, 0b001100000, 0b011000000, 0b000000000, 0b000000000],
    [0b000000000, 0b000000000, 0b000000000, 0b000000000, 0b000000000, 0b000000000, 0b000000000, 0b011111000, 0b000011000,
     0b000110000, 0b001100000, 0b011000000, 0b011111000, 0b000000000, 0b000000000, 0b000000000, 0b000000000, 0b000000000]]"

definition glyphs13 :: "nat list list" where
  "glyphs13 = [
    [0b000000000, 0b000000000, 0b000000000, 0b000000000, 0b001110000, 0b001100000, 0b001100000, 0b001100000, 0b001000000,
     0b011000000, 0b001000000, 0b001100000, 0b001100000, 0b001100000, 0b001110000, 0b000000000, 0b000000000, 0b000000000],
    [0b000000000, 0b000000000, 0b000000000, 0b011000000, 0b011000000, 0b011000000, 0b011000000, 0b011000000, 0b011000000,
     0b011000000, 0b011000000, 0b011000000, 0b011000000, 0b011000000, 0b011000000, 0b011000000, 0b000000000, 0b000000000],
    [0b000000000, 0b000000000, 0b000000000, 0b000000000, 0b111000000, 0b011000000, 0b011000000, 0b011000000, 0b001000000,
     0b001100000, 0b001000000, 0b011000000, 0b011000000, 0b011000000, 0b111000000, 0b000000000, 0b000000000, 0b000000000],
    [0b000000000, 0b000000000, 0b000000000, 0b000000000, 0b000000000, 0b000000000, 0b000000000, 0b000000000, 0b011110110,
     0b110111100, 0b000000000, 0b000000000, 0b000000000, 0b000000000, 0b000000000, 0b000000000, 0b000000000, 0b000000000]]"

definition font :: "nat list list" where
  "font = glyphs0 @ glyphs1 @ glyphs2 @ glyphs3 @ glyphs4 @ glyphs5 @ glyphs6 @ glyphs7 @ glyphs8 @ glyphs9 @ glyphs10 @ glyphs11 @ glyphs12 @ glyphs13"

definition character :: "nat \<Rightarrow> nat \<Rightarrow> nat \<Rightarrow> bool" where
  "character c i j = (i < length (font ! c) \<and> bit (font ! c ! i) (CHARACTER_WIDTH - 1 - j))"

end
