(* ===== verification/Screen.thy ===== *)
theory Screen
  imports Prelude Font
begin

text \<open>
  Drawing (\<open>gui.c\<close>). The video memory is an array of pixels that holds, one after
  the other, the visible \<open>screen\<close> and the two off-screen copies
  \<open>screen_temp1\<close> and \<open>screen_temp2\<close>; an \<open>RGB*\<close> is an index into it, so a
  drawing that leaves its own buffer lands in a neighbour. Coordinates are
  unbounded integers here: they stay far below the range of a C \<open>int\<close>.
  Shown here: what the drawing routines can touch.
\<close>

section \<open>Pixels and loops\<close>

record rgb =
  cB :: u8
  cG :: u8
  cR :: u8

type_synonym vram = "int \<Rightarrow> rgb"

definition SCREEN_WIDTH :: int where "SCREEN_WIDTH = 1280"
definition SCREEN_HEIGHT :: int where "SCREEN_HEIGHT = 1024"
definition CAPTION_HEIGHT :: int where "CAPTION_HEIGHT = 30"
definition MENU_HEIGHT :: int where "MENU_HEIGHT = 70"
definition BORDER_WIDTH :: int where "BORDER_WIDTH = 10"
definition FOOTER_HEIGHT :: int where "FOOTER_HEIGHT = 25"
definition MOUSE_WIDTH :: int where "MOUSE_WIDTH = 14"
definition MOUSE_HEIGHT :: int where "MOUSE_HEIGHT = 28"

text \<open>
  \<open>initGUI\<close> puts the three buffers \<open>0x3c0000\<close> bytes apart, which is exactly the
  size of one of them.
\<close>

definition screen :: int where "screen = 0"
definition screen_temp1 :: int where "screen_temp1 = 0x3c0000 div 3"
definition screen_temp2 :: int where "screen_temp2 = 0x780000 div 3"

text \<open>\<open>for (i = a; i < b; i++) f\<close> on a state.\<close>

definition ifor :: "int \<Rightarrow> int \<Rightarrow> (int \<Rightarrow> 's \<Rightarrow> 's) \<Rightarrow> 's \<Rightarrow> 's" where
  "ifor a b f = fold f [a..b - 1]"

text \<open>C division of integers, by a positive constant.\<close>

definition cdiv :: "int \<Rightarrow> int \<Rightarrow> int" where
  "cdiv a b = (if a < 0 then - ((- a) div b) else a div b)"

definition isAlpha :: "rgb \<Rightarrow> bool" where
  "isAlpha c \<longleftrightarrow> cR c = cG c \<and> cR c = cB c \<and> cR c = 0"

definition drawPoint :: "int \<Rightarrow> u8 \<Rightarrow> u8 \<Rightarrow> u8 \<Rightarrow> vram \<Rightarrow> vram" where
  "drawPoint t r g b v = v(t := \<lparr>cB = b, cG = g, cR = r\<rparr>)"

text \<open>A row of \<open>n\<close> points from \<open>t\<close> on: \<open>drawPoint(t, ...); t++\<close>.\<close>

definition row :: "int \<Rightarrow> int \<Rightarrow> u8 \<Rightarrow> u8 \<Rightarrow> u8 \<Rightarrow> vram \<Rightarrow> vram" where
  "row t n r g b = ifor 0 n (\<lambda>i. drawPoint (t + i) r g b)"

text \<open>The pixel at column \<open>x\<close> and line \<open>y\<close> of a buffer.\<close>

definition px :: "int \<Rightarrow> int \<Rightarrow> int \<Rightarrow> int" where
  "px buf x y = buf + y * SCREEN_WIDTH + x"

section \<open>Text\<close>

definition col_ink :: "nat \<Rightarrow> nat \<Rightarrow> bool" where
  "col_ink ord j = list_ex (\<lambda>i. character ord i j) [0..<CHARACTER_HEIGHT]"

text \<open>Columns from the third on are drawn, and counted, only if they have a dot.\<close>

definition drawCharacter :: "int \<Rightarrow> int \<Rightarrow> int \<Rightarrow> u8 \<Rightarrow> u8 \<Rightarrow> u8 \<Rightarrow> u8 \<Rightarrow> vram \<Rightarrow> int \<times> vram" where
  "drawCharacter buf x y ch r g b v =
     (let ord = sint ch - 0x20 in
      if 94 < ord \<or> ord < 0 then (-1, v)
      else let (w, v') = fold (\<lambda>j (w, v).
                if 1 < j \<and> \<not> col_ink (nat ord) j then (w, v)
                else (w + 1, fold (\<lambda>i v. if character (nat ord) i j
                                         then drawPoint (px buf (x + int j) (y + int i)) r g b v else v)
                               [0..<CHARACTER_HEIGHT] v)) [0..<CHARACTER_WIDTH] (0, v)
           in (w + 2, v'))"

text \<open>A string is the bytes of its array; it ends at the first zero.\<close>

definition cstr :: "u8 list \<Rightarrow> u8 list" where
  "cstr a = takeWhile (\<lambda>c. c \<noteq> 0) a"

primrec drawCharacters_from :: "int \<Rightarrow> int \<Rightarrow> int \<Rightarrow> int \<Rightarrow> u8 list \<Rightarrow> u8 \<Rightarrow> u8 \<Rightarrow> u8 \<Rightarrow> vram \<Rightarrow> vram" where
  "drawCharacters_from pos buf x y [] r g b v = v"
| "drawCharacters_from pos buf x y (ch # str) r g b v =
     (let (w, v') = drawCharacter buf (x + pos) y ch r g b v
      in drawCharacters_from (pos + w) buf x y str r g b v')"

definition drawCharacters :: "int \<Rightarrow> int \<Rightarrow> int \<Rightarrow> u8 list \<Rightarrow> u8 \<Rightarrow> u8 \<Rightarrow> u8 \<Rightarrow> vram \<Rightarrow> vram" where
  "drawCharacters buf x y str r g b v = drawCharacters_from 0 buf x y (cstr str) r g b v"

section \<open>Widgets\<close>

text \<open>
  The structures of \<open>window.h\<close>. An image is a function from the offset of a
  pixel; \<open>triggered\<close> is the flag of a \<open>Handler\<close>, whose function pointer only
  the user program looks at.
\<close>

definition MAX_STRING_NUM :: nat where "MAX_STRING_NUM = 256"

record label =
  l_leftTopX :: int
  l_leftTopY :: int
  l_width :: int
  l_height :: int
  l_text :: "u8 list"

record textBox =
  t_fixed :: bool
  t_leftTopX :: int
  t_leftTopY :: int
  t_width :: int
  t_height :: int
  t_cursor :: int
  t_textLength :: int
  t_text :: "u8 list"

record button =
  b_image :: "(int \<Rightarrow> rgb) option"
  b_leftTopX :: int
  b_leftTopY :: int
  b_width :: int
  b_height :: int
  b_text :: "u8 list"
  b_triggered :: bool

record imageView =
  v_leftTopX :: int
  v_leftTopY :: int
  v_width :: int
  v_height :: int
  v_alphaBG :: bool
  v_image :: "int \<Rightarrow> rgb"
  v_triggered :: bool

record iconView =
  k_leftTopX :: int
  k_leftTopY :: int
  k_width :: int
  k_height :: int
  k_image :: nat
  k_text :: "u8 list"
  k_triggered :: bool

text \<open>A widget is a tag and a pointer; the enumeration and the union of \<open>window.h\<close>.\<close>

datatype widget = WLabel nat | WTextBox nat | WButton nat | WImageView nat | WIconView nat

record window =
  w_show :: bool
  hasCaption :: bool
  hasMenu :: bool
  hasFooter :: bool
  last_leftTopX :: int
  last_leftTopY :: int
  leftTopX :: int
  leftTopY :: int
  w_width :: int
  w_height :: int
  caption :: "u8 list"
  widgets :: "widget list"

definition drawLabel :: "int \<Rightarrow> label \<Rightarrow> window \<Rightarrow> vram \<Rightarrow> vram" where
  "drawLabel buf l w = ifor 0 (l_height l) (\<lambda>j.
     row (px buf (leftTopX w + l_leftTopX l) (leftTopY w + l_leftTopY l + j)) (l_width l) 0xc8 0xc8 0xc8)"

definition drawCursor :: "int \<Rightarrow> textBox \<Rightarrow> window \<Rightarrow> int \<Rightarrow> int \<Rightarrow> vram \<Rightarrow> vram" where
  "drawCursor buf t w lines pos_x = ifor 0 (int CHARACTER_HEIGHT) (\<lambda>s.
     drawPoint (px buf (leftTopX w + t_leftTopX t + pos_x) (leftTopY w + t_leftTopY t + lines * 18) + s * SCREEN_WIDTH) 0 0 0)"

text \<open>
  The loop over the text of a text box, with line \<open>j\<close>, position \<open>pos_x\<close> and
  \<open>i\<close> characters done. A line feed that ends the text leaves the loop at once.
\<close>

fun text_loop :: "int \<Rightarrow> textBox \<Rightarrow> window \<Rightarrow> int \<Rightarrow> int \<Rightarrow> int \<Rightarrow> u8 list \<Rightarrow> vram \<Rightarrow> vram" where
  "text_loop buf t w i j pos_x [] v = v"
| "text_loop buf t w i j pos_x (ch # rest) v =
     (let (j, pos_x) = (if t_width t - 9 < pos_x then (j + 1, 9) else (j, pos_x)) in
      if ch = 10 then
        let j = j + 1; pos_x = 9;
            v = (if i = t_cursor t - 1 then drawCursor buf t w j pos_x v else v)
        in text_loop buf t w (i + 1) j pos_x rest v
      else
        let (d, v) = drawCharacter buf (leftTopX w + t_leftTopX t + pos_x)
                       (leftTopY w + t_leftTopY t + j * int CHARACTER_HEIGHT) ch 0 0 0 v;
            pos_x = pos_x + d;
            v = (if i = t_cursor t - 1 then drawCursor buf t w j pos_x v else v)
        in text_loop buf t w (i + 1) j pos_x rest v)"

definition drawTextBox :: "int \<Rightarrow> textBox \<Rightarrow> window \<Rightarrow> vram \<Rightarrow> vram" where
  "drawTextBox buf t w v =
     (let x = leftTopX w + t_leftTopX t; y = leftTopY w + t_leftTopY t;
          v = ifor 0 (t_height t) (\<lambda>j. row (px buf x (y + j)) (t_width t) 0xff 0xff 0xff) v;
          v = ifor 0 (t_height t) (\<lambda>j v. drawPoint (px buf x (y + j) + (t_width t - 1)) 0xcc 0xcc 0xcc
                (drawPoint (px buf x (y + j)) 0xcc 0xcc 0xcc v)) v;
          v = row (px buf x y) (t_width t - 1) 0xcc 0xcc 0xcc v;
          v = row (px buf x (y + t_height t - 1)) (t_width t - 1) 0xcc 0xcc 0xcc v;
          v = text_loop buf t w 0 0 9 (cstr (t_text t)) v
      in if t_cursor t = 0 then drawCursor buf t w 0 9 v else v)"

text \<open>
  Copying an image, stored bottom line first, onto a buffer; \<open>skip\<close> tells which
  pixels of the image stay transparent.
\<close>

definition blit :: "int \<Rightarrow> int \<Rightarrow> int \<Rightarrow> int \<Rightarrow> int \<Rightarrow> (int \<Rightarrow> rgb) \<Rightarrow> (rgb \<Rightarrow> bool) \<Rightarrow> vram \<Rightarrow> vram" where
  "blit buf x y w h img skip = ifor 0 h (\<lambda>j. ifor 0 w (\<lambda>i v.
     let c = img ((h - 1 - j) * w + i) in
     if skip c then v else v(px buf x (y + j) + i := c)))"

definition drawButton :: "int \<Rightarrow> button \<Rightarrow> window \<Rightarrow> vram \<Rightarrow> vram" where
  "drawButton buf b w v =
     (let x = leftTopX w + b_leftTopX b; y = leftTopY w + b_leftTopY b;
          v = (case b_image b of
                 Some img \<Rightarrow> blit buf x y (b_width b) (b_height b) img isAlpha v
               | None \<Rightarrow> ifor 0 (b_height b) (\<lambda>j. row (px buf x (y + j)) (b_width b) 0xc8 0xc8 0xc8) v);
          len = int (length (cstr (b_text b)))
      in if hasMenu w then drawCharacters buf (x + b_width b + 10) (y + cdiv (b_height b) 3) (b_text b) 0 0 0 v
         else drawCharacters buf (x + cdiv (b_width b) 2 - len * 9 div 2) (y + cdiv (b_height b) 3) (b_text b) 0 0 0 v)"

definition drawImageView :: "int \<Rightarrow> imageView \<Rightarrow> window \<Rightarrow> vram \<Rightarrow> vram" where
  "drawImageView buf m w = blit buf (leftTopX w + v_leftTopX m) (leftTopY w + v_leftTopY m) (v_width m) (v_height m)
     (v_image m) (\<lambda>c. v_alphaBG m \<and> isAlpha c)"

definition drawIconView :: "int \<Rightarrow> (nat \<Rightarrow> int \<Rightarrow> rgb) \<Rightarrow> iconView \<Rightarrow> window \<Rightarrow> vram \<Rightarrow> vram" where
  "drawIconView buf im k w v =
     (let x = leftTopX w + k_leftTopX k; y = leftTopY w + k_leftTopY k;
          v = blit buf x y (k_width k) (k_height k) (im (k_image k)) isAlpha v;
          len = int (length (cstr (k_text k)))
      in drawCharacters buf (x + cdiv (k_width k) 2 - len * 9 div 2) (y + k_height k + 5) (k_text k) 0 0 0 v)"

section \<open>Windows\<close>

text \<open>A row in the colour of the frame, which depends on the focus.\<close>

definition frame_row :: "bool \<Rightarrow> int \<Rightarrow> int \<Rightarrow> vram \<Rightarrow> vram" where
  "frame_row focus t n = (if focus then row t n 226 149 91 else row t n 0xbb 0xbb 0xbb)"

text \<open>The text \<open>COOL GUI\<close> of the footer.\<close>

definition footer_text :: "u8 list" where
  "footer_text = [67, 79, 79, 76, 32, 71, 85, 73]"

definition draw_body :: "int \<Rightarrow> window \<Rightarrow> bool \<Rightarrow> vram \<Rightarrow> vram" where
  "draw_body buf w focus v =
     (let x = leftTopX w; y = leftTopY w; wd = w_width w; h = w_height w in
      if hasCaption w then
        let v = ifor 0 CAPTION_HEIGHT (\<lambda>j. frame_row focus (px buf x (y + j)) wd) v;
            len = int (length (cstr (caption w)));
            v = drawCharacters buf (x + cdiv wd 2 - len * 9 div 2) (y + 5) (caption w) 0 0 0 v
        in ifor CAPTION_HEIGHT (h - BORDER_WIDTH) (\<lambda>j.
             if j < CAPTION_HEIGHT + MENU_HEIGHT \<and> hasMenu w then row (px buf x (y + j)) wd 220 226 241
             else if j = CAPTION_HEIGHT + MENU_HEIGHT \<and> hasMenu w then row (px buf x (y + j)) wd 0xcc 0xcc 0xcc
             else row (px buf x (y + j)) wd 0xff 0xff 0xff) v
      else ifor 0 h (\<lambda>j. row (px buf x (y + j)) wd 0xff 0xff 0xff) v)"

definition draw_border :: "int \<Rightarrow> window \<Rightarrow> bool \<Rightarrow> vram \<Rightarrow> vram" where
  "draw_border buf w focus v =
     (let x = leftTopX w; y = leftTopY w; wd = w_width w; h = w_height w;
          v = ifor CAPTION_HEIGHT (h - BORDER_WIDTH + 1) (\<lambda>j. frame_row focus (px buf x (y + j)) BORDER_WIDTH) v;
          v = ifor CAPTION_HEIGHT (h - BORDER_WIDTH + 1) (\<lambda>j. frame_row focus (px buf (x + wd - BORDER_WIDTH) (y + j)) BORDER_WIDTH) v
      in ifor (h - BORDER_WIDTH - 1) h (\<lambda>j. frame_row focus (px buf x (y + j)) wd) v)"

definition draw_shadow :: "int \<Rightarrow> window \<Rightarrow> vram \<Rightarrow> vram" where
  "draw_shadow buf w v =
     (let x = leftTopX w; y = leftTopY w; wd = w_width w; h = w_height w;
          v = row (px buf x y) wd 0xcc 0xcc 0xcc v;
          v = row (px buf x (y + h - 1)) wd 0xcc 0xcc 0xcc v;
          v = ifor 0 h (\<lambda>j v. drawPoint (px buf (x + wd - 1) (y + j)) 0xcc 0xcc 0xcc
                (drawPoint (px buf x (y + j)) 0xcc 0xcc 0xcc v)) v;
          v = row (px buf (x - 1) (y - 1)) (wd + 2) 0xff 0xff 0xff v;
          v = row (px buf (x - 1) (y + h)) (wd + 2) 0xff 0xff 0xff v
      in ifor (-1) (h + 1) (\<lambda>j v. drawPoint (px buf (x + wd) (y + j)) 0xff 0xff 0xff
           (drawPoint (px buf (x - 1) (y + j)) 0xff 0xff 0xff v)) v)"

definition draw_footer :: "int \<Rightarrow> window \<Rightarrow> vram \<Rightarrow> vram" where
  "draw_footer buf w v =
     (let x = leftTopX w; y = leftTopY w; wd = w_width w; h = w_height w in
      if hasFooter w then
        let top = h - BORDER_WIDTH - FOOTER_HEIGHT - 1;
            v = ifor top (h - BORDER_WIDTH) (\<lambda>j. ifor 0 (wd - BORDER_WIDTH - BORDER_WIDTH) (\<lambda>i v.
                  let t = px buf (x + BORDER_WIDTH) (y + j) + i;
                      v = (if j = top then drawPoint (t - SCREEN_WIDTH) 0xcc 0xcc 0xcc v else v)
                  in drawPoint t 220 226 241 v)) v
        in drawCharacters buf (x + wd - int (length footer_text) * 9 - 20) (y + h - 30) footer_text 0 0 0 v
      else v)"

definition drawWindow :: "int \<Rightarrow> window \<Rightarrow> bool \<Rightarrow> vram \<Rightarrow> vram" where
  "drawWindow buf w focus v = draw_footer buf w (draw_shadow buf w (draw_border buf w focus (draw_body buf w focus v)))"

section \<open>The mouse pointer\<close>

text \<open>The hand that is shown while dragging.\<close>

definition dm :: "nat list list" where
  "dm = [
    [0, 0, 0, 0, 0, 1, 1, 1, 1, 0, 0, 0, 0, 0],
    [0, 0, 0, 0, 1, 1, 2, 2, 1, 1, 0, 0, 0, 0],
    [0, 0, 0, 1, 2, 2, 2, 2, 2, 2, 1, 0, 0, 0],
    [0, 0, 1, 2, 2, 2, 2, 2, 2, 2, 2, 1, 0, 0],
    [0, 1, 2, 2, 2, 2, 2, 2, 2, 2, 2, 2, 1, 0],
    [1, 1, 2, 2, 2, 2, 2, 2, 2, 2, 2, 2, 1, 1],
    [1, 2, 2, 2, 2, 2, 2, 2, 2, 2, 2, 2, 2, 1],
    [1, 2, 2, 2, 2, 2, 2, 2, 2, 2, 2, 2, 2, 1],
    [1, 1, 2, 2, 2, 2, 2, 2, 2, 2, 2, 2, 1, 1],
    [0, 1, 2, 2, 2, 2, 2, 2, 2, 2, 2, 2, 1, 0],
    [0, 0, 1, 2, 2, 2, 2, 2, 2, 2, 2, 1, 0, 0],
    [0, 0, 0, 1, 2, 2, 2, 2, 2, 2, 1, 0, 0, 0],
    [0, 0, 0, 0, 1, 1, 2, 2, 1, 1, 0, 0, 0, 0],
    [0, 0, 0, 0, 0, 1, 1, 1, 1, 0, 0, 0, 0, 0]]"

text \<open>
  The loops over the pointer leave a row at the right edge of the screen and
  the pointer at its bottom edge: \<open>clip n lim p\<close> is how many of \<open>n\<close> steps from
  \<open>p\<close> are made.
\<close>

definition clip :: "int \<Rightarrow> int \<Rightarrow> int \<Rightarrow> int" where
  "clip n lim p = min n (lim - p)"

definition removeMouse :: "int \<Rightarrow> int \<Rightarrow> vram \<Rightarrow> vram" where
  "removeMouse x y = ifor 0 (clip MOUSE_HEIGHT SCREEN_HEIGHT y) (\<lambda>j. ifor 0 (clip MOUSE_WIDTH SCREEN_WIDTH x) (\<lambda>i v.
     v(px screen x (y + j) + i := v (px screen_temp2 x (y + j) + i))))"

definition draw_hand :: "int \<Rightarrow> int \<Rightarrow> vram \<Rightarrow> vram" where
  "draw_hand x y = ifor 0 (clip (MOUSE_HEIGHT div 2) SCREEN_HEIGHT y) (\<lambda>j. ifor 0 (clip MOUSE_WIDTH SCREEN_WIDTH x) (\<lambda>i v.
     let d = dm ! nat i ! nat j; t = px screen x (y + j) + i;
         v = (if d = 2 then drawPoint t 0xff 0xff 0xff v else v)
     in if d = 1 then drawPoint t 0 0 0 v else v))"

definition draw_arrow :: "int \<Rightarrow> int \<Rightarrow> vram \<Rightarrow> vram" where
  "draw_arrow x y v =
     (let v = ifor 0 (clip (MOUSE_HEIGHT div 2) SCREEN_HEIGHT y) (\<lambda>j. ifor 0 (clip j SCREEN_WIDTH x) (\<lambda>i.
                if i = 0 \<or> i = j - 1 \<or> (j = MOUSE_HEIGHT div 2 - 1 \<and> MOUSE_WIDTH div 2 \<le> i)
                then drawPoint (px screen x (y + j) + i) 0xff 0xff 0xff
                else drawPoint (px screen x (y + j) + i) 0 0 0)) v
      in ifor (MOUSE_HEIGHT div 2) (clip (MOUSE_HEIGHT div 2 + MOUSE_HEIGHT div 4) SCREEN_HEIGHT y) (\<lambda>j.
           ifor 0 (clip (MOUSE_WIDTH + MOUSE_WIDTH div 2 - 1 - j) SCREEN_WIDTH x) (\<lambda>i.
                if i = 0 \<or> i = MOUSE_WIDTH + MOUSE_WIDTH div 2 - 2 - j
                then drawPoint (px screen x (y + j) + i) 0xff 0xff 0xff
                else drawPoint (px screen x (y + j) + i) 0 0 0)) v)"

definition drawMouse :: "bool \<Rightarrow> int \<Rightarrow> int \<Rightarrow> vram \<Rightarrow> vram" where
  "drawMouse dragging x y = (if dragging then draw_hand x y else draw_arrow x y)"

text \<open>\<open>memset(screen_temp1, 0, ...)\<close> and \<open>memmove\<close> of a whole buffer.\<close>

definition totalPels :: int where "totalPels = SCREEN_WIDTH * SCREEN_HEIGHT"

definition clear_buf :: "int \<Rightarrow> vram \<Rightarrow> vram" where
  "clear_buf buf v = (\<lambda>t. if buf \<le> t \<and> t < buf + totalPels then \<lparr>cB = 0, cG = 0, cR = 0\<rparr> else v t)"

definition copy_buf :: "int \<Rightarrow> int \<Rightarrow> vram \<Rightarrow> vram" where
  "copy_buf dst src v = (\<lambda>t. if dst \<le> t \<and> t < dst + totalPels then v (src + (t - dst)) else v t)"

section \<open>What drawing touches\<close>

text \<open>\<open>touches S f\<close>: whatever the memory, \<open>f\<close> changes no pixel outside \<open>S\<close>.\<close>

definition touches :: "int set \<Rightarrow> (vram \<Rightarrow> vram) \<Rightarrow> bool" where
  "touches S f \<longleftrightarrow> (\<forall>v t. t \<notin> S \<longrightarrow> f v t = v t)"

named_theorems touch_intros \<open>what the drawing routines touch\<close>

lemma touches_comp: "touches S f \<Longrightarrow> touches S g \<Longrightarrow> touches S (\<lambda>v. g (f v))"
  by (simp add: touches_def)

lemma touches_id [touch_intros]: "touches S (\<lambda>v. v)"
  by (simp add: touches_def)

lemma touches_if [touch_intros]:
  "(c \<Longrightarrow> touches S f) \<Longrightarrow> (\<not> c \<Longrightarrow> touches S g) \<Longrightarrow> touches S (if c then f else g)"
  "(c \<Longrightarrow> touches S f) \<Longrightarrow> (\<not> c \<Longrightarrow> touches S g) \<Longrightarrow> touches S (\<lambda>v. if c then f v else g v)"
  by (cases c; simp)+

lemma touches_drawPoint [touch_intros]: "t \<in> S \<Longrightarrow> touches S (drawPoint t r g b)"
  by (auto simp: touches_def drawPoint_def)

lemma touches_upd: "t \<in> S \<Longrightarrow> touches S (\<lambda>v. v(t := f v))"
  by (auto simp: touches_def)

lemma touches_fold: "(\<And>i. i \<in> set is \<Longrightarrow> touches S (f i)) \<Longrightarrow> touches S (fold f is)"
  by (induction "is") (auto simp: touches_def)

lemma touches_ifor [touch_intros]: "(\<And>i. a \<le> i \<Longrightarrow> i < b \<Longrightarrow> touches S (f i)) \<Longrightarrow> touches S (ifor a b f)"
  unfolding ifor_def by (rule touches_fold) simp

lemma touches_row [touch_intros]: "{t..<t + n} \<subseteq> S \<Longrightarrow> touches S (row t n r g b)"
  unfolding row_def by (intro touch_intros) auto

lemma touches_frame_row [touch_intros]: "{t..<t + n} \<subseteq> S \<Longrightarrow> touches S (frame_row focus t n)"
  unfolding frame_row_def by (intro touch_intros)

text \<open>One buffer, and the pixels of it given by their coordinates.\<close>

definition in_buf :: "int \<Rightarrow> int set" where
  "in_buf buf = {buf..<buf + totalPels}"

lemmas geometry = SCREEN_WIDTH_def SCREEN_HEIGHT_def totalPels_def px_def in_buf_def

lemma px_in_buf: "0 \<le> x \<Longrightarrow> x < SCREEN_WIDTH \<Longrightarrow> 0 \<le> y \<Longrightarrow> y < SCREEN_HEIGHT \<Longrightarrow> px buf x y \<in> in_buf buf"
  by (simp add: geometry)

lemma px_plus [simp]: "px buf x y + i = px buf (x + i) y"
  by (simp add: px_def)

lemma row_in_buf:
  assumes "0 \<le> x" "x + n \<le> SCREEN_WIDTH" "0 \<le> y" "y < SCREEN_HEIGHT"
  shows "{px buf x y..<px buf (x + n) y} \<subseteq> in_buf buf"
  using assms by (auto simp: geometry)

lemma clip_less: "i < clip n lim p \<longleftrightarrow> i < n \<and> p + i < lim"
  by (auto simp: clip_def)

lemma removeMouse_touches:
  assumes "0 \<le> x" "0 \<le> y"
  shows "touches (in_buf screen) (removeMouse x y)"
  unfolding removeMouse_def px_plus
  using assms by (intro touches_ifor touches_upd px_in_buf) (simp_all add: clip_less)

lemma draw_hand_touches:
  assumes "0 \<le> x" "0 \<le> y"
  shows "touches (in_buf screen) (draw_hand x y)"
  unfolding draw_hand_def px_plus Let_def
proof (intro touches_ifor)
  fix j i
  assume "0 \<le> j" "j < clip (MOUSE_HEIGHT div 2) SCREEN_HEIGHT y" "0 \<le> i" "i < clip MOUSE_WIDTH SCREEN_WIDTH x"
  then have "px screen (x + i) (y + j) \<in> in_buf screen" using assms by (intro px_in_buf) (simp_all add: clip_less)
  then show "touches (in_buf screen) (\<lambda>v. if dm ! nat i ! nat j = 1 then drawPoint (px screen (x + i) (y + j)) 0 0 0
      (if dm ! nat i ! nat j = 2 then drawPoint (px screen (x + i) (y + j)) 255 255 255 v else v)
      else if dm ! nat i ! nat j = 2 then drawPoint (px screen (x + i) (y + j)) 255 255 255 v else v)"
    by (auto simp: touches_def drawPoint_def)
qed

lemma draw_arrow_touches:
  assumes "0 \<le> x" "0 \<le> y"
  shows "touches (in_buf screen) (draw_arrow x y)"
proof -
  have pt: "touches (in_buf screen) (if c then drawPoint (px screen (x + i) (y + j)) r g b else drawPoint (px screen (x + i) (y + j)) r' g' b')"
    if "0 \<le> j" "y + j < SCREEN_HEIGHT" "0 \<le> i" "x + i < SCREEN_WIDTH" for i j c r g b r' g' b'
    using that assms by (intro touches_if touches_drawPoint px_in_buf) simp_all
  have h: "0 \<le> MOUSE_HEIGHT div 2" by (simp add: MOUSE_HEIGHT_def)
  show ?thesis
    unfolding draw_arrow_def px_plus Let_def
  proof (rule touches_comp [of _ _ "\<lambda>v. ifor _ _ _ v"])
    show "touches (in_buf screen) (ifor 0 (clip (MOUSE_HEIGHT div 2) SCREEN_HEIGHT y) (\<lambda>j. ifor 0 (clip j SCREEN_WIDTH x) (\<lambda>i.
      if i = 0 \<or> i = j - 1 \<or> j = MOUSE_HEIGHT div 2 - 1 \<and> MOUSE_WIDTH div 2 \<le> i
      then drawPoint (px screen (x + i) (y + j)) 255 255 255 else drawPoint (px screen (x + i) (y + j)) 0 0 0)))"
      by (intro touches_ifor pt) (simp_all add: clip_less)
    show "touches (in_buf screen) (ifor (MOUSE_HEIGHT div 2) (clip (MOUSE_HEIGHT div 2 + MOUSE_HEIGHT div 4) SCREEN_HEIGHT y) (\<lambda>j.
      ifor 0 (clip (MOUSE_WIDTH + MOUSE_WIDTH div 2 - 1 - j) SCREEN_WIDTH x) (\<lambda>i.
      if i = 0 \<or> i = MOUSE_WIDTH + MOUSE_WIDTH div 2 - 2 - j
      then drawPoint (px screen (x + i) (y + j)) 255 255 255 else drawPoint (px screen (x + i) (y + j)) 0 0 0)))"
      by (intro touches_ifor pt) (use h in \<open>simp_all add: clip_less\<close>)
  qed
qed

text \<open>A character advances by at most 11 columns and draws within 9 columns and 18 lines.\<close>

lemma drawCharacter_advance: "-1 \<le> fst (drawCharacter buf x y ch r g b v) \<and> fst (drawCharacter buf x y ch r g b v) \<le> 11"
proof -
  let ?f = "\<lambda>ord j (w :: int, v). if 1 < j \<and> \<not> col_ink (nat ord) j then (w, v)
     else (w + 1, fold (\<lambda>i v. if character (nat ord) i j then drawPoint (px buf (x + int j) (y + int i)) r g b v else v) [0..<CHARACTER_HEIGHT] v)"
  have "0 \<le> fst (fold (?f ord) [0..<n] (0, v)) \<and> fst (fold (?f ord) [0..<n] (0, v)) \<le> int n" for ord n
    by (induction n) (auto simp: case_prod_beta)
  from this [of "sint ch - 32" 9] show ?thesis
    by (auto simp: drawCharacter_def Let_def case_prod_beta CHARACTER_WIDTH_def)
qed

lemma drawCharacter_touches:
  assumes "\<And>i j. i < CHARACTER_HEIGHT \<Longrightarrow> j < CHARACTER_WIDTH \<Longrightarrow> px buf (x + int j) (y + int i) \<in> S"
  shows "touches S (\<lambda>v. snd (drawCharacter buf x y ch r g b v))"
proof -
  let ?f = "\<lambda>ord j (w :: int, v). if 1 < j \<and> \<not> col_ink (nat ord) j then (w, v)
     else (w + 1, fold (\<lambda>i v. if character (nat ord) i j then drawPoint (px buf (x + int j) (y + int i)) r g b v else v) [0..<CHARACTER_HEIGHT] v)"
  have col: "touches S (fold (\<lambda>i v. if character (nat ord) i j then drawPoint (px buf (x + int j) (y + int i)) r g b v else v) [0..<CHARACTER_HEIGHT])"
    if "j < CHARACTER_WIDTH" for ord j
    using that by (intro touches_fold touches_if touches_drawPoint touches_id) (auto intro: assms)
  have "n \<le> CHARACTER_WIDTH \<Longrightarrow> touches S (\<lambda>v. snd (fold (?f ord) [0..<n] (0, v)))" for ord n
  proof (induction n)
    case (Suc n)
    then show ?case using col [of n ord] by (auto simp: touches_def case_prod_beta)
  qed (simp add: touches_def)
  from this [of CHARACTER_WIDTH] show ?thesis
    by (auto simp: touches_def drawCharacter_def Let_def case_prod_beta)
qed

definition text_fits :: "int \<Rightarrow> int \<Rightarrow> nat \<Rightarrow> bool" where
  "text_fits x y n \<longleftrightarrow> int n \<le> x \<and> x + 11 * int n \<le> SCREEN_WIDTH \<and> 0 \<le> y \<and> y + int CHARACTER_HEIGHT \<le> SCREEN_HEIGHT"

lemma drawCharacters_from_touches:
  "text_fits (x + pos) y (length str) \<Longrightarrow> touches (in_buf buf) (drawCharacters_from pos buf x y str r g b)"
proof (induction str arbitrary: pos)
  case Nil
  then show ?case by (simp add: touches_def)
next
  case (Cons ch str)
  have c: "touches (in_buf buf) (\<lambda>v. snd (drawCharacter buf (x + pos) y ch r g b v))"
    using Cons.prems by (intro drawCharacter_touches px_in_buf) (auto simp: text_fits_def CHARACTER_WIDTH_def)
  have r: "touches (in_buf buf) (drawCharacters_from (pos + w) buf x y str r g b)" if "-1 \<le> w" "w \<le> 11" for w
    using Cons.prems that by (intro Cons.IH) (auto simp: text_fits_def)
  show ?case
    using c r drawCharacter_advance [of buf "x + pos" y ch r g b]
    by (simp add: touches_def case_prod_beta)
qed

lemma drawCharacters_touches [touch_intros]:
  "text_fits x y (length (cstr str)) \<Longrightarrow> touches (in_buf buf) (drawCharacters buf x y str r g b)"
  using drawCharacters_from_touches [of x 0 y "cstr str" buf] by (simp add: drawCharacters_def touches_def)

text \<open>
  A window that lies inside the screen with a margin of one pixel, which its
  outer frame needs, and whose texts fit.
\<close>

definition win_fits :: "window \<Rightarrow> bool" where
  "win_fits w \<longleftrightarrow> 1 \<le> leftTopX w \<and> 1 \<le> leftTopY w \<and> leftTopX w + w_width w + 1 \<le> SCREEN_WIDTH
     \<and> leftTopY w + w_height w + 1 \<le> SCREEN_HEIGHT \<and> 100 \<le> w_width w \<and> 70 \<le> w_height w
     \<and> text_fits (leftTopX w + cdiv (w_width w) 2 - int (length (cstr (caption w))) * 9 div 2) (leftTopY w + 5) (length (cstr (caption w)))"

lemmas window_sizes = CAPTION_HEIGHT_def BORDER_WIDTH_def FOOTER_HEIGHT_def

lemma draw_body_touches: "win_fits w \<Longrightarrow> touches (in_buf buf) (draw_body buf w focus)"
proof -
  assume f: "win_fits w"
  have r: "{px buf (leftTopX w) (leftTopY w + j)..<px buf (leftTopX w) (leftTopY w + j) + w_width w} \<subseteq> in_buf buf"
    if "0 \<le> j" "j < w_height w" for j
    using f that row_in_buf [of "leftTopX w" "w_width w" "leftTopY w + j" buf] by (simp add: win_fits_def)
  have h: "CAPTION_HEIGHT \<le> w_height w" "0 \<le> CAPTION_HEIGHT" using f by (simp_all add: win_fits_def window_sizes)
  let ?A = "ifor 0 CAPTION_HEIGHT (\<lambda>j. frame_row focus (px buf (leftTopX w) (leftTopY w + j)) (w_width w))"
  let ?C = "drawCharacters buf (leftTopX w + cdiv (w_width w) 2 - int (length (cstr (caption w))) * 9 div 2) (leftTopY w + 5) (caption w) 0 0 0"
  let ?B = "ifor CAPTION_HEIGHT (w_height w - BORDER_WIDTH) (\<lambda>j.
             if j < CAPTION_HEIGHT + MENU_HEIGHT \<and> hasMenu w then row (px buf (leftTopX w) (leftTopY w + j)) (w_width w) 220 226 241
             else if j = CAPTION_HEIGHT + MENU_HEIGHT \<and> hasMenu w then row (px buf (leftTopX w) (leftTopY w + j)) (w_width w) 0xcc 0xcc 0xcc
             else row (px buf (leftTopX w) (leftTopY w + j)) (w_width w) 0xff 0xff 0xff)"
  have "touches (in_buf buf) ?A" by (intro touches_ifor touches_frame_row r) (use h in simp_all)
  moreover have "touches (in_buf buf) ?C" using f by (intro drawCharacters_touches) (simp add: win_fits_def)
  moreover have "touches (in_buf buf) ?B"
    by (intro touches_ifor touches_if touches_row r) (use h in \<open>simp_all add: BORDER_WIDTH_def\<close>)
  moreover have "touches (in_buf buf) (ifor 0 (w_height w) (\<lambda>j. row (px buf (leftTopX w) (leftTopY w + j)) (w_width w) 0xff 0xff 0xff))"
    by (intro touches_ifor touches_row r)
  ultimately show ?thesis by (simp add: touches_def draw_body_def Let_def)
qed

lemma draw_border_touches: "win_fits w \<Longrightarrow> touches (in_buf buf) (draw_border buf w focus)"
proof -
  assume f: "win_fits w"
  have r: "{px buf x (leftTopY w + j)..<px buf x (leftTopY w + j) + n} \<subseteq> in_buf buf"
    if "0 \<le> j" "j < w_height w" "leftTopX w \<le> x" "x + n \<le> leftTopX w + w_width w" for j x n
    using f that row_in_buf [of x n "leftTopY w + j" buf] by (simp add: win_fits_def)
  have "touches (in_buf buf) (ifor CAPTION_HEIGHT (w_height w - BORDER_WIDTH + 1) (\<lambda>j. frame_row focus (px buf (leftTopX w) (leftTopY w + j)) BORDER_WIDTH))"
    "touches (in_buf buf) (ifor CAPTION_HEIGHT (w_height w - BORDER_WIDTH + 1) (\<lambda>j. frame_row focus (px buf (leftTopX w + w_width w - BORDER_WIDTH) (leftTopY w + j)) BORDER_WIDTH))"
    "touches (in_buf buf) (ifor (w_height w - BORDER_WIDTH - 1) (w_height w) (\<lambda>j. frame_row focus (px buf (leftTopX w) (leftTopY w + j)) (w_width w)))"
    by (intro touches_ifor touches_frame_row r; use f in \<open>simp add: win_fits_def window_sizes\<close>)+
  then show ?thesis by (simp add: touches_def draw_border_def Let_def)
qed

lemma draw_shadow_touches: "win_fits w \<Longrightarrow> touches (in_buf buf) (draw_shadow buf w)"
proof -
  assume f: "win_fits w"
  have r: "touches (in_buf buf) (row (px buf x y) n a b c)"
    if "leftTopY w - 1 \<le> y" "y \<le> leftTopY w + w_height w" "leftTopX w - 1 \<le> x" "x + n \<le> leftTopX w + w_width w + 1" for x y n a b c
    using f that row_in_buf [of x n y buf] by (intro touches_row) (simp add: win_fits_def)
  have p: "touches (in_buf buf) (drawPoint (px buf x y) a b c)"
    if "leftTopY w - 1 \<le> y" "y \<le> leftTopY w + w_height w" "leftTopX w - 1 \<le> x" "x \<le> leftTopX w + w_width w" for x y a b c
    using f that by (intro touches_drawPoint px_in_buf) (simp_all add: win_fits_def)
  have pp: "touches S (\<lambda>v. g (h v))" if "touches S h" "touches S g" for S g h using that by (rule touches_comp)
  have "touches (in_buf buf) (ifor 0 (w_height w) (\<lambda>j v. drawPoint (px buf (leftTopX w + w_width w - 1) (leftTopY w + j)) 0xcc 0xcc 0xcc
      (drawPoint (px buf (leftTopX w) (leftTopY w + j)) 0xcc 0xcc 0xcc v)))"
    "touches (in_buf buf) (ifor (-1) (w_height w + 1) (\<lambda>j v. drawPoint (px buf (leftTopX w + w_width w) (leftTopY w + j)) 0xff 0xff 0xff
      (drawPoint (px buf (leftTopX w - 1) (leftTopY w + j)) 0xff 0xff 0xff v)))"
    using f by (intro touches_ifor touches_comp [OF p p]; simp add: win_fits_def)+
  moreover have "touches (in_buf buf) (row (px buf (leftTopX w) (leftTopY w)) (w_width w) a b c)"
    "touches (in_buf buf) (row (px buf (leftTopX w) (leftTopY w + w_height w - 1)) (w_width w) a b c)"
    "touches (in_buf buf) (row (px buf (leftTopX w - 1) (leftTopY w - 1)) (w_width w + 2) a b c)"
    "touches (in_buf buf) (row (px buf (leftTopX w - 1) (leftTopY w + w_height w)) (w_width w + 2) a b c)" for a b c
    using f by (intro r; simp add: win_fits_def)+
  ultimately show ?thesis by (simp add: touches_def draw_shadow_def Let_def)
qed

lemma draw_footer_touches: "win_fits w \<Longrightarrow> touches (in_buf buf) (draw_footer buf w)"
proof -
  assume f: "win_fits w"
  let ?top = "w_height w - BORDER_WIDTH - FOOTER_HEIGHT - 1"
  have pt: "touches (in_buf buf) (\<lambda>v. drawPoint t 220 226 241 (if c then drawPoint (t - SCREEN_WIDTH) 0xcc 0xcc 0xcc v else v))"
    if "t \<in> in_buf buf" "t - SCREEN_WIDTH \<in> in_buf buf" for t c
    using that by (auto simp: touches_def drawPoint_def)
  have u: "px buf x y - SCREEN_WIDTH = px buf x (y - 1)" for x y by (simp add: px_def algebra_simps)
  have "touches (in_buf buf) (ifor ?top (w_height w - BORDER_WIDTH) (\<lambda>j. ifor 0 (w_width w - BORDER_WIDTH - BORDER_WIDTH) (\<lambda>i v.
      drawPoint (px buf (leftTopX w + BORDER_WIDTH + i) (leftTopY w + j)) 220 226 241
       (if j = ?top then drawPoint (px buf (leftTopX w + BORDER_WIDTH + i) (leftTopY w + j) - SCREEN_WIDTH) 0xcc 0xcc 0xcc v else v))))"
  proof (intro touches_ifor pt)
    fix j i
    assume "?top \<le> j" "j < w_height w - BORDER_WIDTH" "0 \<le> i" "i < w_width w - BORDER_WIDTH - BORDER_WIDTH"
    then show "px buf (leftTopX w + BORDER_WIDTH + i) (leftTopY w + j) \<in> in_buf buf"
      "px buf (leftTopX w + BORDER_WIDTH + i) (leftTopY w + j) - SCREEN_WIDTH \<in> in_buf buf"
      unfolding u using f by (intro px_in_buf; simp add: win_fits_def window_sizes)+
  qed
  moreover have "touches (in_buf buf) (drawCharacters buf (leftTopX w + w_width w - int (length footer_text) * 9 - 20)
      (leftTopY w + w_height w - 30) footer_text 0 0 0)"
    using f by (intro drawCharacters_touches) (simp add: text_fits_def win_fits_def footer_text_def cstr_def CHARACTER_HEIGHT_def)
  ultimately show ?thesis by (simp add: touches_def draw_footer_def Let_def)
qed

text \<open>The outer frame of a window is drawn last and in white, one pixel outside of it.\<close>

definition white :: rgb where "white = \<lparr>cB = 0xff, cG = 0xff, cR = 0xff\<rparr>"

lemma ifor_inv: "P v \<Longrightarrow> (\<And>i v. a \<le> i \<Longrightarrow> i < b \<Longrightarrow> P v \<Longrightarrow> P (f i v)) \<Longrightarrow> P (ifor a b f v)"
  unfolding ifor_def by (rule fold_invariant [where Q = "\<lambda>i. a \<le> i \<and> i < b"]) auto

lemma ifor_set:
  assumes "a \<le> k" "k < b" "\<And>v. P (f k v)" "\<And>i v. P v \<Longrightarrow> P (f i v)"
  shows "P (ifor a b f v)"
proof -
  have "[a..b - 1] = [a..k - 1] @ k # [k + 1..b - 1]"
    using upto_split2 [of a k "b - 1"] upto_rec1 [of k "b - 1"] upto_split1 [of a k "b - 1"] assms(1,2) by simp
  then have "ifor a b f v = fold f [k + 1..b - 1] (f k (fold f [a..k - 1] v))" by (simp add: ifor_def)
  moreover have "P (fold f is u)" if "P u" for "is" u
    using that assms(4) by (induction "is" arbitrary: u) auto
  ultimately show ?thesis using assms(3) by simp
qed

lemma draw_shadow_corner:
  assumes "0 \<le> w_width w" "0 \<le> w_height w"
  shows "draw_shadow buf w v (px buf (leftTopX w - 1) (leftTopY w - 1)) = white"
proof -
  have "(ifor (-1) (w_height w + 1) (\<lambda>j v. drawPoint (px buf (leftTopX w + w_width w) (leftTopY w + j)) 0xff 0xff 0xff
           (drawPoint (px buf (leftTopX w - 1) (leftTopY w + j)) 0xff 0xff 0xff v)) u) (px buf (leftTopX w - 1) (leftTopY w - 1)) = white" for u
    by (rule ifor_set [where k = "-1" and P = "\<lambda>v. v (px buf (leftTopX w - 1) (leftTopY w - 1)) = white"]) (use assms in \<open>simp_all add: drawPoint_def white_def\<close>)
  then show ?thesis by (simp add: draw_shadow_def Let_def)
qed

section \<open>Properties\<close>

text \<open>
  C23: Drawing stays inside its buffer. A window with a margin of one pixel around
  it whose texts fit on a line is drawn into its own off-screen buffer only,
  and drawing or removing the mouse pointer at any position of the screen,
  including the right and bottom edge, changes only pixels of the visible
  buffer.
\<close>

theorem drawing_in_bounds:
  assumes "win_fits w" "0 \<le> x" "0 \<le> y"
  shows "touches (in_buf buf) (drawWindow buf w focus) \<and> touches (in_buf screen) (drawMouse dragging x y)
    \<and> touches (in_buf screen) (removeMouse x y)"
  using draw_body_touches [OF assms(1)] draw_border_touches [OF assms(1)] draw_shadow_touches [OF assms(1)]
    draw_footer_touches [OF assms(1)] draw_hand_touches [OF assms(2,3)] draw_arrow_touches [OF assms(2,3)]
    removeMouse_touches [OF assms(2,3)]
  by (simp add: touches_def drawWindow_def drawMouse_def)

definition demo_window :: window where
  "demo_window = \<lparr>w_show = True, hasCaption = True, hasMenu = True, hasFooter = True, last_leftTopX = 0, last_leftTopY = 0,
     leftTopX = 100, leftTopY = 50, w_width = 400, w_height = 300, caption = [69, 100, 105, 116, 0], widgets = []\<rparr>"

theorem drawing_in_bounds_witness:
  "touches (in_buf screen_temp1) (drawWindow screen_temp1 demo_window True) \<and> touches (in_buf screen) (drawMouse False 1280 1024)"
proof -
  have "win_fits demo_window"
    by (simp add: win_fits_def demo_window_def text_fits_def cstr_def cdiv_def SCREEN_WIDTH_def SCREEN_HEIGHT_def CHARACTER_HEIGHT_def)
  then show ?thesis using drawing_in_bounds [of demo_window 1280 1024] by simp
qed

text \<open>
  C36: The frame of a window at the top of the screen is drawn outside its buffer:
  for a window without a footer at line 0, which \<open>moveWindow\<close> allows,
  \<open>drawWindow\<close> into \<open>screen_temp1\<close> sets a pixel that belongs to the visible
  screen.
\<close>

theorem frame_out_of_bounds:
  assumes "\<not> hasFooter w" "0 \<le> w_width w" "0 \<le> w_height w" "leftTopY w = 0" "0 \<le> leftTopX w" "leftTopX w < SCREEN_WIDTH"
  shows "\<exists>t. t \<in> in_buf screen \<and> drawWindow screen_temp1 w focus v t = white"
proof (intro exI conjI)
  let ?t = "px screen_temp1 (leftTopX w - 1) (leftTopY w - 1)"
  show "drawWindow screen_temp1 w focus v ?t = white"
    using draw_shadow_corner [OF assms(2,3)] assms(1) by (simp add: drawWindow_def draw_footer_def)
  show "?t \<in> in_buf screen"
    using assms by (simp add: geometry screen_def screen_temp1_def)
qed

theorem frame_out_of_bounds_witness:
  "\<exists>t. t \<in> in_buf screen
    \<and> drawWindow screen_temp1 (demo_window\<lparr>leftTopX := 0, leftTopY := 0, hasFooter := False\<rparr>) True
        (\<lambda>_. \<lparr>cB = 0, cG = 0, cR = 0\<rparr>) t = white"
  by (rule frame_out_of_bounds) (simp_all add: demo_window_def SCREEN_WIDTH_def)

end
