(* ===== verification/Window.thy ===== *)
theory Window
  imports Screen
begin

text \<open>
  The window queue (\<open>window.c\<close>) and what \<open>gui.c\<close> does with it. The windows live in
  the memory of the processes that own them; the kernel looks at one after
  loading the page table of its process. Shown here: the linked queue
  implements the stacking order as a list, to which \<open>sys_createWindow\<close>
  appends, from which \<open>sys_deleteWindow\<close> removes, and in which
  \<open>reorderQueue\<close> moves a window to the end.

  \<open>window_lock\<close> and \<open>gui_lock\<close> make the bookkeeping and a redraw one step each.
\<close>

section \<open>State\<close>

definition MAX_WINDOW_NUM :: nat where "MAX_WINDOW_NUM = 32"

text \<open>
  Node \<open>i\<close> below \<open>MAX_WINDOW_NUM\<close> is \<open>windowLine[i]\<close>, node \<open>MAX_WINDOW_NUM\<close> is
  the head \<open>windowQueue\<close>; \<open>None\<close> is the null pointer.
\<close>

record wqnode =
  q_proc :: "nat option"
  q_window :: "nat option"
  q_next :: "nat option"
  q_prev :: "nat option"

abbreviation windowQueue :: nat where "windowQueue \<equiv> MAX_WINDOW_NUM"

text \<open>The widgets and the images of icons in the memory of a process, by address.\<close>

record umem =
  u_window :: "nat \<Rightarrow> window"
  u_label :: "nat \<Rightarrow> label"
  u_textBox :: "nat \<Rightarrow> textBox"
  u_button :: "nat \<Rightarrow> button"
  u_imageView :: "nat \<Rightarrow> imageView"
  u_iconView :: "nat \<Rightarrow> iconView"
  u_image :: "nat \<Rightarrow> int \<Rightarrow> rgb"

text \<open>
  \<open>cr3\<close> is the process whose page table is loaded, \<open>None\<close> for the kernel's
  own; \<open>cur_proc\<close> is \<open>proc\<close>. \<open>bg\<close> and \<open>isBg\<close> are the arrays behind a focused
  icon.
\<close>

record gui_st =
  pixels :: vram
  wq :: "nat \<Rightarrow> wqnode"
  lastWindow :: nat
  uspace :: "nat \<Rightarrow> umem"
  cr3 :: "nat option"
  cur_proc :: "nat option"
  x_position :: int
  y_position :: int
  last_draw_x :: int
  last_draw_y :: int
  m_event :: int
  focusIcon :: "nat option"
  bg :: "nat \<Rightarrow> rgb"
  isBg :: "nat \<Rightarrow> bool"

definition MOUSE_DRAGGING :: int where "MOUSE_DRAGGING = 7"

section \<open>Address spaces\<close>

text \<open>
  \<open>switchuvm(p)\<close> reads \<open>proc->kstack\<close> before it looks at \<open>p\<close>; the processes of the
  queue have a page table, and the task state segment is not modelled.
\<close>

definition switchuvm :: "nat option \<Rightarrow> ('z gui_st_scheme, unit) km" where
  "switchuvm p = kbind (kget cur_proc) (\<lambda>c.
     if c = None then kfault ''switchuvm: proc''
     else case p of None \<Rightarrow> kfault ''switchuvm: null'' | Some i \<Rightarrow> kmod (\<lambda>s. s\<lparr>cr3 := Some i\<rparr>))"

definition switchkvm :: "('z gui_st_scheme, unit) km" where
  "switchkvm = kmod (\<lambda>s. s\<lparr>cr3 := None\<rparr>)"

text \<open>\<open>if (proc == 0) switchkvm(); else switchuvm(proc);\<close>\<close>

definition restore_vm :: "('z gui_st_scheme, unit) km" where
  "restore_vm = kbind (kget cur_proc) (\<lambda>p. if p = None then switchkvm else switchuvm p)"

text \<open>User memory through the loaded page table.\<close>

definition the_space :: "('z gui_st_scheme, umem) km" where
  "the_space = kbind (kget cr3) (\<lambda>c. case c of None \<Rightarrow> kfault ''user pointer'' | Some i \<Rightarrow> kget (\<lambda>s. uspace s i))"

definition upd_space :: "(umem \<Rightarrow> umem) \<Rightarrow> ('z gui_st_scheme, unit) km" where
  "upd_space f = kbind (kget cr3) (\<lambda>c. case c of None \<Rightarrow> kfault ''user pointer''
     | Some i \<Rightarrow> kmod (\<lambda>s. s\<lparr>uspace := (uspace s)(i := f (uspace s i))\<rparr>))"

definition node :: "nat \<Rightarrow> ('z gui_st_scheme, wqnode) km" where
  "node i = kget (\<lambda>s. wq s i)"

section \<open>Redrawing\<close>

definition draw_widget :: "int \<Rightarrow> umem \<Rightarrow> window \<Rightarrow> widget \<Rightarrow> vram \<Rightarrow> vram" where
  "draw_widget buf m w wd = (case wd of
     WLabel a \<Rightarrow> drawLabel buf (u_label m a) w
   | WTextBox a \<Rightarrow> drawTextBox buf (u_textBox m a) w
   | WButton a \<Rightarrow> drawButton buf (u_button m a) w
   | WImageView a \<Rightarrow> drawImageView buf (u_imageView m a) w
   | WIconView a \<Rightarrow> drawIconView buf (u_image m) (u_iconView m a) w)"

text \<open>A window and its widgets, if it is shown.\<close>

definition draw_window_at :: "int \<Rightarrow> nat option \<Rightarrow> bool \<Rightarrow> ('z gui_st_scheme, unit) km" where
  "draw_window_at buf a focus = (case a of None \<Rightarrow> kret () | Some a \<Rightarrow>
     kbind the_space (\<lambda>m. let w = u_window m a in
     if w_show w then kmod (\<lambda>s. s\<lparr>pixels := fold (draw_widget buf m w) (widgets w) (drawWindow buf w focus (pixels s))\<rparr>)
     else kret ()))"

text \<open>
  \<open>while (p->next != lastWindow)\<close>: following a null \<open>next\<close> is a fault. The queue
  has at most \<open>MAX_WINDOW_NUM\<close> elements, so running out of steps is a walk in
  a circle.
\<close>

primrec back_loop :: "nat \<Rightarrow> nat \<Rightarrow> ('z gui_st_scheme, unit) km" where
  "back_loop 0 p = kfault ''drawBackWindows''"
| "back_loop (Suc n) p = kbind (node p) (\<lambda>q. kbind (kget lastWindow) (\<lambda>l.
     if q_next q = Some l then kret ()
     else case q_next q of
       None \<Rightarrow> kfault ''drawBackWindows: null''
     | Some p' \<Rightarrow>
         kbind (node p') (\<lambda>q'.
         kthen (switchuvm (q_proc q'))
         (kthen (draw_window_at screen_temp1 (q_window q') False)
                (back_loop n p')))))"

definition drawBackWindows :: "('z gui_st_scheme, unit) km" where
  "drawBackWindows = kthen (back_loop (Suc MAX_WINDOW_NUM) windowQueue) restore_vm"

text \<open>The window of \<open>lastWindow\<close>, which is dereferenced without a test.\<close>

definition last_win :: "('z gui_st_scheme, nat \<times> window) km" where
  "last_win = kbind (kget lastWindow) (\<lambda>l. kbind (node l) (\<lambda>q.
     case q_window q of None \<Rightarrow> kfault ''lastWindow->window: null''
     | Some a \<Rightarrow> kbind the_space (\<lambda>m. kret (a, u_window m a))))"

definition copy_rows :: "window \<Rightarrow> vram \<Rightarrow> vram" where
  "copy_rows w = ifor (-1) (w_height w + 1) (\<lambda>j. ifor (-1) (w_width w + 1) (\<lambda>i v.
     v(px screen_temp2 (last_leftTopX w + i) (last_leftTopY w + j) :=
         v (px screen_temp1 (last_leftTopX w + i) (last_leftTopY w + j)))))"

definition removeLastWindow :: "('z gui_st_scheme, unit) km" where
  "removeLastWindow =
     kbind (kget lastWindow) (\<lambda>l. kbind (node l) (\<lambda>q.
     kthen (switchuvm (q_proc q))
     (kbind last_win (\<lambda>(a, w).
     kthen (kmod (\<lambda>s. s\<lparr>pixels := copy_rows w (pixels s)\<rparr>))
            restore_vm))))"

definition drawLastWindow :: "('z gui_st_scheme, unit) km" where
  "drawLastWindow =
     kbind (kget lastWindow) (\<lambda>l. kbind (node l) (\<lambda>q.
     kthen (switchuvm (q_proc q))
     (kthen (draw_window_at screen_temp2 (q_window q) True)
     (kbind last_win (\<lambda>(a, w).
     kthen (upd_space (\<lambda>m. m\<lparr>u_window := (u_window m)(a := w\<lparr>last_leftTopX := leftTopX w, last_leftTopY := leftTopY w\<rparr>)\<rparr>))
            restore_vm)))))"

definition remove_mouse :: "('z gui_st_scheme, unit) km" where
  "remove_mouse = kmod (\<lambda>s. s\<lparr>pixels := removeMouse (last_draw_x s) (last_draw_y s) (pixels s)\<rparr>)"

definition draw_mouse :: "('z gui_st_scheme, unit) km" where
  "draw_mouse = kmod (\<lambda>s. s\<lparr>pixels := drawMouse (m_event s = MOUSE_DRAGGING) (x_position s) (y_position s) (pixels s),
     last_draw_x := x_position s, last_draw_y := y_position s\<rparr>)"

definition updateBackWindows :: "('z gui_st_scheme, unit) km" where
  "updateBackWindows =
     kthen (kmod (\<lambda>s. s\<lparr>pixels := clear_buf screen_temp1 (pixels s)\<rparr>))
     (kthen drawBackWindows
     (kthen (kmod (\<lambda>s. s\<lparr>pixels := copy_buf screen_temp2 screen_temp1 (pixels s)\<rparr>))
     (kthen drawLastWindow
     (kthen (kmod (\<lambda>s. s\<lparr>pixels := copy_buf screen screen_temp2 (pixels s)\<rparr>))
            draw_mouse))))"

definition updateLastWindow :: "('z gui_st_scheme, unit) km" where
  "updateLastWindow =
     kthen removeLastWindow
     (kthen drawLastWindow
     (kthen (kmod (\<lambda>s. s\<lparr>pixels := copy_buf screen screen_temp2 (pixels s)\<rparr>))
            draw_mouse))"

definition updateMouse :: "('z gui_st_scheme, unit) km" where
  "updateMouse = kthen remove_mouse draw_mouse"

section \<open>The queue\<close>

definition initWindow :: "('z gui_st_scheme, unit) km" where
  "initWindow = kmod (\<lambda>s. s\<lparr>wq := (\<lambda>i. if i \<le> MAX_WINDOW_NUM
       then \<lparr>q_proc = None, q_window = None, q_next = None, q_prev = None\<rparr> else wq s i),
     lastWindow := windowQueue\<rparr>)"

definition acquireWindow :: "('z gui_st_scheme, nat option) km" where
  "acquireWindow = kget (\<lambda>s. List.find (\<lambda>i. q_proc (wq s i) = None) [0..<MAX_WINDOW_NUM])"

primrec queue_end :: "nat \<Rightarrow> (nat \<Rightarrow> wqnode) \<Rightarrow> nat \<Rightarrow> nat option" where
  "queue_end 0 B p = None"
| "queue_end (Suc n) B p = (case q_next (B p) of None \<Rightarrow> Some p | Some p' \<Rightarrow> queue_end n B p')"

definition addWindow :: "nat \<Rightarrow> ('z gui_st_scheme, unit) km" where
  "addWindow x = kbind (kget wq) (\<lambda>B.
     case queue_end (Suc MAX_WINDOW_NUM) B windowQueue of
       None \<Rightarrow> kfault ''addWindow''
     | Some q \<Rightarrow> kmod (\<lambda>s.
         let B = B(q := (B q)\<lparr>q_next := Some x\<rparr>);
             B = B(x := (B x)\<lparr>q_prev := Some q\<rparr>);
             B = B(x := (B x)\<lparr>q_next := None\<rparr>)
         in s\<lparr>wq := B, lastWindow := x\<rparr>))"

text \<open>The part of \<open>sys_createWindow\<close> under the lock, then the whole call.\<close>

definition create_locked :: "nat \<Rightarrow> ('z gui_st_scheme, nat option) km" where
  "create_locked a =
     kbind acquireWindow (\<lambda>h. case h of
       None \<Rightarrow> kret None
     | Some x \<Rightarrow>
         kthen (kmod (\<lambda>s. s\<lparr>wq := (wq s)(x := (wq s x)\<lparr>q_proc := cur_proc s, q_window := (if a = 0 then None else Some a)\<rparr>)\<rparr>))
         (kthen (addWindow x) (kret (Some x))))"

definition sys_createWindow :: "nat option \<Rightarrow> ('z gui_st_scheme, int) km" where
  "sys_createWindow arg = (case arg of None \<Rightarrow> kret (-1) | Some a \<Rightarrow>
     kbind (create_locked a) (\<lambda>h. case h of
       None \<Rightarrow> kret (-1)
     | Some x \<Rightarrow> kthen updateBackWindows (kret (int x))))"

text \<open>The search of \<open>sys_deleteWindow\<close>, and the unlinking when the window is found.\<close>

primrec find_before :: "nat \<Rightarrow> (nat \<Rightarrow> wqnode) \<Rightarrow> nat \<Rightarrow> nat \<Rightarrow> nat option option" where
  "find_before 0 B h p = None"
| "find_before (Suc n) B h p = (case q_next (B p) of
     None \<Rightarrow> Some None
   | Some p' \<Rightarrow> if p' = h then Some (Some p) else find_before n B h p')"

definition delete_locked :: "nat \<Rightarrow> ('z gui_st_scheme, bool) km" where
  "delete_locked h = kbind (kget wq) (\<lambda>B.
     case find_before (Suc MAX_WINDOW_NUM) B h windowQueue of
       None \<Rightarrow> kfault ''sys_deleteWindow''
     | Some None \<Rightarrow> kret False
     | Some (Some p) \<Rightarrow>
         kthen (kmod (\<lambda>s.
           let B = (wq s)(h := (wq s h)\<lparr>q_proc := None, q_window := None\<rparr>);
               l = (if lastWindow s = h then p else lastWindow s);
               nx = q_next (B h);
               B = B(p := (B p)\<lparr>q_next := nx\<rparr>);
               B = (case nx of None \<Rightarrow> B | Some n \<Rightarrow> B(n := (B n)\<lparr>q_prev := Some p\<rparr>))
           in s\<lparr>wq := B, lastWindow := l\<rparr>)) (kret True))"

definition sys_deleteWindow :: "nat option \<Rightarrow> ('z gui_st_scheme, int) km" where
  "sys_deleteWindow arg = (case arg of None \<Rightarrow> kret (-1) | Some h \<Rightarrow>
     kbind (delete_locked h) (\<lambda>ok. if ok then kthen updateBackWindows (kret 0) else kret (-1)))"

definition sys_updateWindow :: "nat option \<Rightarrow> ('z gui_st_scheme, int) km" where
  "sys_updateWindow arg = (case arg of None \<Rightarrow> kret (-1) | Some h \<Rightarrow>
     kbind (kget lastWindow) (\<lambda>l. kthen (if h = l then updateLastWindow else updateBackWindows) (kret 0)))"

definition move_delta :: "window \<Rightarrow> int \<Rightarrow> int \<Rightarrow> int \<times> int" where
  "move_delta w dx dy =
     (let dx = (if leftTopX w + dx < 0 then - leftTopX w else dx);
          dy = (if leftTopY w + dy < 0 then - leftTopY w else dy);
          dx = (if SCREEN_WIDTH \<le> leftTopX w + w_width w + dx then SCREEN_WIDTH - (leftTopX w + w_width w) else dx);
          dy = (if SCREEN_HEIGHT \<le> leftTopY w + w_height w + dy then SCREEN_HEIGHT - (leftTopY w + w_height w) else dy)
      in (dx, dy))"

definition moveWindow :: "nat option \<Rightarrow> int \<Rightarrow> int \<Rightarrow> int \<Rightarrow> int \<Rightarrow> bool \<Rightarrow> ('z gui_st_scheme, unit) km" where
  "moveWindow a fx fy tx ty isdraw = (case a of None \<Rightarrow> kfault ''moveWindow: null'' | Some a \<Rightarrow>
     kbind the_space (\<lambda>m. let w = u_window m a; (dx, dy) = move_delta w (tx - fx) (ty - fy) in
     kthen (upd_space (\<lambda>m. m\<lparr>u_window := (u_window m)(a := w\<lparr>leftTopX := leftTopX w + dx, leftTopY := leftTopY w + dy\<rparr>)\<rparr>))
           (if isdraw then updateLastWindow else kret ())))"

text \<open>The search of \<open>reorderQueue\<close> runs back along \<open>prev\<close> and may end at null.\<close>

primrec find_back :: "nat \<Rightarrow> (nat \<Rightarrow> wqnode) \<Rightarrow> nat \<Rightarrow> nat option \<Rightarrow> nat option option" where
  "find_back 0 B q p = None"
| "find_back (Suc n) B q p = (case p of
     None \<Rightarrow> Some None
   | Some i \<Rightarrow> if i = q then Some (Some i) else find_back n B q (q_prev (B i)))"

definition reorder_locked :: "nat \<Rightarrow> ('z gui_st_scheme, unit) km" where
  "reorder_locked q = kbind (kget (\<lambda>s. s)) (\<lambda>s.
     case find_back (Suc (Suc MAX_WINDOW_NUM)) (wq s) q (Some (lastWindow s)) of
       None \<Rightarrow> kfault ''reorderQueue''
     | Some None \<Rightarrow> kfault ''reorderQueue: null''
     | Some (Some p) \<Rightarrow>
         (case (q_prev (wq s p), q_next (wq s p)) of
            (Some a, Some c) \<Rightarrow>
              kmod (\<lambda>s.
                let B = (wq s)(a := (wq s a)\<lparr>q_next := q_next (wq s p)\<rparr>);
                    B = B(c := (B c)\<lparr>q_prev := q_prev (B p)\<rparr>);
                    B = B(lastWindow s := (B (lastWindow s))\<lparr>q_next := Some q\<rparr>);
                    B = B(q := (B q)\<lparr>q_prev := Some (lastWindow s)\<rparr>);
                    B = B(q := (B q)\<lparr>q_next := None\<rparr>)
                in s\<lparr>wq := B, lastWindow := q\<rparr>)
          | _ \<Rightarrow> kfault ''reorderQueue: null''))"

definition reorderQueue :: "nat \<Rightarrow> ('z gui_st_scheme, unit) km" where
  "reorderQueue q = kthen (reorder_locked q) updateBackWindows"

section \<open>The queue as a list\<close>

text \<open>
  \<open>path B a xs\<close>: from node \<open>a\<close> the \<open>next\<close> pointers lead through \<open>xs\<close>, and the
  \<open>prev\<close> pointers back. \<open>queue s ws\<close>: the queue holds the windows \<open>ws\<close>, bottom
  to top, each with a window in user memory, and the nodes in it are exactly
  those with an owner.
\<close>

fun path :: "(nat \<Rightarrow> wqnode) \<Rightarrow> nat \<Rightarrow> nat list \<Rightarrow> bool" where
  "path B a [] = True"
| "path B a (b # bs) = (q_next (B a) = Some b \<and> q_prev (B b) = Some a \<and> path B b bs)"

definition queue_on :: "(nat \<Rightarrow> wqnode) \<Rightarrow> nat \<Rightarrow> nat list \<Rightarrow> bool" where
  "queue_on B l ws \<longleftrightarrow> distinct ws \<and> set ws \<subseteq> {..<MAX_WINDOW_NUM} \<and> path B windowQueue ws
     \<and> l = last (windowQueue # ws) \<and> q_next (B l) = None \<and> (\<forall>i < MAX_WINDOW_NUM. q_proc (B i) \<noteq> None \<longleftrightarrow> i \<in> set ws)
     \<and> (\<forall>i \<in> set ws. q_window (B i) \<noteq> None)"

definition queue :: "'z gui_st_scheme \<Rightarrow> nat list \<Rightarrow> bool" where
  "queue s ws \<longleftrightarrow> queue_on (wq s) (lastWindow s) ws"

lemma path_append: "path B a (xs @ ys) \<longleftrightarrow> path B a xs \<and> path B (last (a # xs)) ys"
  by (induction xs arbitrary: a) auto

lemma path_cong:
  "(\<And>x. x \<in> set (butlast (a # bs)) \<Longrightarrow> q_next (B' x) = q_next (B x)) \<Longrightarrow> (\<And>x. x \<in> set bs \<Longrightarrow> q_prev (B' x) = q_prev (B x)) \<Longrightarrow>
    path B' a bs = path B a bs"
  by (induction bs arbitrary: a) auto

lemma queue_length: "distinct ws \<Longrightarrow> set ws \<subseteq> {..<MAX_WINDOW_NUM} \<Longrightarrow> length ws \<le> MAX_WINDOW_NUM"
  using card_mono [of "{..<MAX_WINDOW_NUM}" "set ws"] by (simp add: distinct_card)

lemma queue_end_path: "path B a ws \<Longrightarrow> q_next (B (last (a # ws))) = None \<Longrightarrow> length ws < n \<Longrightarrow> queue_end n B a = Some (last (a # ws))"
proof (induction ws arbitrary: a n)
  case Nil
  then show ?case by (cases n) auto
next
  case (Cons b ws)
  then show ?case by (cases n) auto
qed

lemma find_before_in: "path B a (us @ h # vs) \<Longrightarrow> h \<notin> set us \<Longrightarrow> length us < n \<Longrightarrow> find_before n B h a = Some (Some (last (a # us)))"
proof (induction us arbitrary: a n)
  case Nil
  then show ?case by (cases n) auto
next
  case (Cons b us)
  then show ?case by (cases n) auto
qed

lemma find_before_out: "path B a ws \<Longrightarrow> q_next (B (last (a # ws))) = None \<Longrightarrow> h \<notin> set ws \<Longrightarrow> length ws < n \<Longrightarrow> find_before n B h a = Some None"
proof (induction ws arbitrary: a n)
  case Nil
  then show ?case by (cases n) auto
next
  case (Cons b ws)
  then show ?case by (cases n) auto
qed

lemma find_back_in: "path B a (us @ q # vs) \<Longrightarrow> q \<notin> set vs \<Longrightarrow> length vs < n \<Longrightarrow> find_back n B q (Some (last (q # vs))) = Some (Some q)"
proof (induction vs arbitrary: n rule: rev_induct)
  case Nil
  then show ?case by (cases n) auto
next
  case (snoc v vs)
  then obtain k where k: "n = Suc k" by (cases n) auto
  have "path B a ((us @ q # vs) @ [v])" using snoc.prems(1) by simp
  then have p: "path B a (us @ q # vs)" and "path B (last (a # us @ q # vs)) [v]" unfolding path_append by blast+
  then have "q_prev (B v) = Some (last (q # vs))" by simp
  then show ?case using snoc k p by auto
qed

text \<open>Removing a window from the chain and appending one at its end.\<close>

lemma path_remove:
  assumes p: "path B a (us @ h # vs)" and d: "distinct (a # us @ h # vs)"
    and B': "\<And>x. q_next (B' x) = (if x = last (a # us) then q_next (B h) else q_next (B x))"
      "\<And>x. q_prev (B' x) = (if vs \<noteq> [] \<and> x = hd vs then Some (last (a # us)) else q_prev (B x))"
  shows "path B' a (us @ vs)"
proof -
  let ?p = "last (a # us)"
  have p1: "path B a us" and p2: "path B h vs" "q_next (B ?p) = Some h"
    using p unfolding path_append by auto
  have "path B' a us"
  proof (subst path_cong [where B = B])
    show "q_next (B' x) = q_next (B x)" if "x \<in> set (butlast (a # us))" for x
    proof -
      have "a # us = butlast (a # us) @ [?p]" by simp
      then have "distinct (butlast (a # us) @ [?p])" using d by (metis distinct_append append_Cons)
      then have "x \<noteq> ?p" using that by auto
      then show ?thesis using B'(1) by simp
    qed
    show "q_prev (B' x) = q_prev (B x)" if "x \<in> set us" for x using that d B'(2) by (cases vs) auto
  qed (rule p1)
  moreover have "path B' ?p vs"
  proof (cases vs)
    case (Cons v vs')
    then have "path B v vs'" "q_next (B h) = Some v" using p2 by auto
    moreover have "path B' v vs' = path B v vs'"
    proof (rule path_cong)
      have "?p \<in> set (a # us)" by simp
      then have np: "?p \<notin> set vs" using d by auto
      show "q_next (B' x) = q_next (B x)" if "x \<in> set (butlast (v # vs'))" for x
        using that np Cons B'(1) in_set_butlastD [of x "v # vs'"] by auto
      show "q_prev (B' x) = q_prev (B x)" if "x \<in> set vs'" for x using that d Cons B'(2) by auto
    qed
    ultimately show ?thesis using Cons B' by simp
  qed simp
  ultimately show ?thesis by (simp add: path_append)
qed

lemma path_snoc:
  assumes p: "path B a ws" and d: "distinct (a # ws)" "x \<notin> set (a # ws)"
    and B': "\<And>y. q_next (B' y) = (if y = last (a # ws) then Some x else if y = x then None else q_next (B y))"
      "\<And>y. q_prev (B' y) = (if y = x then Some (last (a # ws)) else q_prev (B y))"
  shows "path B' a (ws @ [x])"
proof -
  have "path B' a ws = path B a ws"
  proof (rule path_cong)
    show "q_next (B' y) = q_next (B y)" if "y \<in> set (butlast (a # ws))" for y
    proof -
      have "a # ws = butlast (a # ws) @ [last (a # ws)]" by simp
      then have "distinct (butlast (a # ws) @ [last (a # ws)])" using d by metis
      then have "y \<noteq> last (a # ws)" using that by auto
      moreover have "y \<noteq> x" using that d(2) in_set_butlastD by metis
      ultimately show ?thesis using B'(1) by simp
    qed
    show "q_prev (B' y) = q_prev (B y)" if "y \<in> set ws" for y using that d(2) B'(2) by auto
  qed
  then show ?thesis using p B' by (simp add: path_append)
qed

definition next_handle :: "nat list \<Rightarrow> nat option" where
  "next_handle ws = List.find (\<lambda>i. i \<notin> set ws) [0..<MAX_WINDOW_NUM]"

lemma queue_onD:
  assumes "queue_on B l ws"
  shows "distinct (windowQueue # ws)" "length ws \<le> MAX_WINDOW_NUM" "path B windowQueue ws" "q_next (B (last (windowQueue # ws))) = None"
  using assms queue_length [of ws] unfolding queue_on_def by auto

lemma acquire_next: "queue s ws \<Longrightarrow> acquireWindow s = Ok (next_handle ws, s)"
proof -
  assume q: "queue s ws"
  have "List.find (\<lambda>i. q_proc (wq s i) = None) xs = List.find (\<lambda>i. i \<notin> set ws) xs" if "set xs \<subseteq> {..<MAX_WINDOW_NUM}" for xs
    using that q by (induction xs) (auto simp: queue_def queue_on_def)
  from this [of "[0..<MAX_WINDOW_NUM]"] show ?thesis
    by (simp add: acquireWindow_def next_handle_def kdefs atLeast0LessThan)
qed

lemma create_locked_wp:
  assumes q: "queue s ws" and a: "a \<noteq> 0" and p: "cur_proc s \<noteq> None"
  shows "kwp (create_locked a) (\<lambda>r t. r = next_handle ws \<and> cur_proc t = cur_proc s \<and> queue t (case r of None \<Rightarrow> ws | Some x \<Rightarrow> ws @ [x])) s"
proof (cases "next_handle ws")
  case None
  then show ?thesis using q acquire_next [OF q] by (simp add: kwp_def create_locked_def kdefs)
next
  case (Some x)
  then have x: "x < MAX_WINDOW_NUM" "x \<notin> set ws" by (auto simp: next_handle_def find_Some_iff)
  let ?B = "(wq s)(x := (wq s x)\<lparr>q_proc := cur_proc s, q_window := Some a\<rparr>)"
  let ?l = "last (windowQueue # ws)"
  note q' = q [unfolded queue_def queue_on_def] and D = queue_onD [OF q [unfolded queue_def]]
  have lx: "?l \<noteq> x" using x by (cases ws rule: rev_cases) auto
  have nx: "q_next (?B y) = q_next (wq s y)" "q_prev (?B y) = q_prev (wq s y)" for y by simp_all
  have p': "path ?B windowQueue ws" using D(3) path_cong [of windowQueue ws ?B "wq s"] nx by metis
  have e: "queue_end (Suc MAX_WINDOW_NUM) ?B windowQueue = Some ?l"
    using D(2,4) nx by (intro queue_end_path p') simp_all
  let ?C = "?B(?l := (?B ?l)\<lparr>q_next := Some x\<rparr>, x := (?B x)\<lparr>q_prev := Some ?l, q_next := None\<rparr>)"
  have "path ?C windowQueue (ws @ [x])"
    using D(1) x lx by (intro path_snoc [OF p']) simp_all
  then have "queue_on ?C x (ws @ [x])"
    using q' x lx p unfolding queue_on_def by (auto simp: last_in_set split: if_splits)
  moreover have "create_locked a s = Ok (Some x, s\<lparr>wq := ?C, lastWindow := x\<rparr>)"
    using acquire_next [OF q] Some e lx a
    by (simp add: create_locked_def addWindow_def kdefs Let_def del: queue_end.simps last.simps)
  ultimately show ?thesis using Some by (simp add: kwp_def queue_def)
qed

lemma delete_locked_out:
  assumes q: "queue s ws" and h: "h \<notin> set ws"
  shows "delete_locked h s = Ok (False, s)"
proof -
  note D = queue_onD [OF q [unfolded queue_def]]
  have "find_before (Suc MAX_WINDOW_NUM) (wq s) h windowQueue = Some None"
    using D h by (intro find_before_out [of _ _ ws]) auto
  then show ?thesis by (simp add: delete_locked_def kdefs del: find_before.simps)
qed

text \<open>The nodes after a window is unlinked from between \<open>us\<close> and \<open>vs\<close>.\<close>

lemma queue_on_remove:
  assumes q: "queue_on B l (us @ h # vs)"
    and B': "\<And>x. q_next (B' x) = (if x = last (windowQueue # us) then q_next (B h) else q_next (B x))"
      "\<And>x. q_prev (B' x) = (if vs \<noteq> [] \<and> x = hd vs then Some (last (windowQueue # us)) else q_prev (B x))"
      "\<And>x. q_proc (B' x) = (if x = h then None else q_proc (B x))"
      "\<And>x. x \<noteq> h \<Longrightarrow> q_window (B' x) = q_window (B x)"
  shows "queue_on B' (if l = h then last (windowQueue # us) else l) (us @ vs)"
proof -
  note D = queue_onD [OF q] and Q = q [unfolded queue_on_def]
  let ?p = "last (windowQueue # us)" and ?l = "if l = h then last (windowQueue # us) else l"
  have l: "l = last (h # vs)" using Q by simp
  have lh: "l = h \<longleftrightarrow> vs = []" using l D(1) by (cases vs rule: rev_cases) auto
  have path: "path B' windowQueue (us @ vs)" by (rule path_remove [OF D(3,1) B'(1,2)])
  have "q_next (B' ?l) = None"
  proof (cases "vs = []")
    case True
    then have "l = h" "q_next (B h) = None" using lh Q by auto
    then show ?thesis using B'(1) [of ?p] by simp
  next
    case False
    have "?p \<in> set (windowQueue # us)" by simp
    moreover have "l \<in> set vs" using False l by (cases vs rule: rev_cases) auto
    ultimately have "l \<noteq> ?p" using D(1) by auto
    then have "q_next (B' l) = q_next (B l)" using B'(1) [of l] by simp
    moreover have "q_next (B l) = None" using Q by blast
    ultimately show ?thesis using False lh by simp
  qed
  moreover have "?l = last (windowQueue # us @ vs)" using lh l by auto
  moreover have "q_window (B' i) \<noteq> None" if "i \<in> set (us @ vs)" for i
  proof -
    have "i \<noteq> h" using that D(1) by auto
    then show ?thesis using that Q B'(4) [of i] by simp
  qed
  moreover have "q_proc (B' i) \<noteq> None \<longleftrightarrow> i \<in> set (us @ vs)" if "i < MAX_WINDOW_NUM" for i
    using that Q D(1) B'(3) [of i] by auto
  ultimately show ?thesis using path Q unfolding queue_on_def by auto
qed

lemma delete_locked_in:
  assumes q: "queue s (us @ h # vs)"
  shows "kwp (delete_locked h) (\<lambda>r t. r \<and> queue t (us @ vs) \<and> cur_proc t = cur_proc s) s"
proof -
  note D = queue_onD [OF q [unfolded queue_def]]
  let ?p = "last (windowQueue # us)"
  have f: "find_before (Suc MAX_WINDOW_NUM) (wq s) h windowQueue = Some (Some ?p)"
    using D by (intro find_before_in [of _ _ _ _ vs]) auto
  have "?p \<in> set (windowQueue # us)" by simp
  then have ph: "?p \<noteq> h" using D(1) by auto
  have n: "q_next (wq s h) = (if vs = [] then None else Some (hd vs))"
    using D(3,4) by (cases vs) (auto simp: path_append)
  have hv: "vs \<noteq> [] \<Longrightarrow> hd vs \<noteq> h" using D(1) by (cases vs) auto
  define B where "B = (wq s)(h := (wq s h)\<lparr>q_proc := None, q_window := None\<rparr>, ?p := (wq s ?p)\<lparr>q_next := q_next (wq s h)\<rparr>)"
  define C where "C = (case q_next (wq s h) of None \<Rightarrow> B | Some n \<Rightarrow> B(n := (B n)\<lparr>q_prev := Some ?p\<rparr>))"
  let ?l = "if lastWindow s = h then ?p else lastWindow s"
  have "queue_on C ?l (us @ vs)"
    by (rule queue_on_remove [OF q [unfolded queue_def]]; cases "vs = []")
      (use ph hv in \<open>simp_all add: C_def B_def n del: last.simps\<close>)
  moreover have "delete_locked h s = Ok (True, s\<lparr>wq := C, lastWindow := ?l\<rparr>)"
    using f ph by (simp add: delete_locked_def kdefs Let_def C_def B_def split: option.split del: find_before.simps last.simps)
  ultimately show ?thesis by (simp add: kwp_def queue_def)
qed

definition same_owners :: "'z gui_st_scheme \<Rightarrow> 'z gui_st_scheme \<Rightarrow> bool" where
  "same_owners s t \<longleftrightarrow> (\<forall>i. q_proc (wq t i) = q_proc (wq s i) \<and> q_window (wq t i) = q_window (wq s i))"

lemma reorder_locked_wp:
  assumes q: "queue s (us @ h # vs)" and vs: "vs \<noteq> []"
  shows "kwp (reorder_locked h) (\<lambda>_ t. queue t (us @ vs @ [h]) \<and> same_owners s t \<and> (\<exists>B. t = s\<lparr>wq := B, lastWindow := h\<rparr>)) s"
proof -
  note D = queue_onD [OF q [unfolded queue_def]] and Q = q [unfolded queue_def queue_on_def]
  let ?p = "last (windowQueue # us)" and ?c = "hd vs" and ?l = "last vs"
  have l: "lastWindow s = ?l" using Q vs by simp
  have f: "find_back (Suc (Suc MAX_WINDOW_NUM)) (wq s) h (Some (lastWindow s)) = Some (Some h)"
    using find_back_in [OF D(3), of "Suc (Suc MAX_WINDOW_NUM)"] D(1,2) l vs by simp
  have "?p \<in> set (windowQueue # us)" by simp
  then have "?p \<notin> set vs" "?p \<noteq> h" "h \<notin> set vs" using D(1) by auto
  then have ne: "?p \<noteq> h" "?c \<noteq> h" "?l \<noteq> h" "?p \<noteq> ?l" "?p \<noteq> ?c"
    using last_in_set [OF vs] hd_in_set [OF vs] by metis+
  have n: "q_next (wq s h) = Some ?c" "q_prev (wq s h) = Some ?p"
    using D(3) vs by (cases vs; auto simp: path_append)+
  define B where "B = (wq s)(?p := (wq s ?p)\<lparr>q_next := Some ?c\<rparr>, ?c := (wq s ?c)\<lparr>q_prev := Some ?p\<rparr>)"
  define C where "C = B(?l := (B ?l)\<lparr>q_next := Some h\<rparr>, h := (B h)\<lparr>q_prev := Some ?l, q_next := None\<rparr>)"
  have "path B windowQueue (us @ vs)"
    by (rule path_remove [OF D(3,1)]) (use n ne vs in \<open>simp_all add: B_def del: last.simps\<close>)
  then have "path C windowQueue ((us @ vs) @ [h])"
  proof (rule path_snoc)
    show "distinct (windowQueue # us @ vs)" "h \<notin> set (windowQueue # us @ vs)" using D(1) by auto
  qed (use ne vs in \<open>simp_all add: C_def\<close>)
  moreover have same: "q_proc (C i) = q_proc (wq s i)" "q_window (C i) = q_window (wq s i)" for i
    by (simp_all add: C_def B_def)
  ultimately have "queue_on C h (us @ vs @ [h])"
    using Q vs unfolding queue_on_def by (auto simp: C_def)
  moreover have "reorder_locked h s = Ok ((), s\<lparr>wq := C, lastWindow := h\<rparr>)"
    using f n ne l by (simp add: reorder_locked_def kdefs Let_def C_def B_def del: find_back.simps last.simps)
  ultimately show ?thesis using same by (auto simp: kwp_def queue_def same_owners_def)
qed

section \<open>Redrawing leaves the queue alone\<close>

definition gframe :: "'z gui_st_scheme \<Rightarrow> 'z gui_st_scheme \<Rightarrow> bool" where
  "gframe s t \<longleftrightarrow> wq t = wq s \<and> lastWindow t = lastWindow s \<and> cur_proc t = cur_proc s"

lemma gframe_trans: "gframe s t \<Longrightarrow> gframe t u \<Longrightarrow> gframe s u"
  by (simp add: gframe_def)

lemma queue_gframe: "gframe s t \<Longrightarrow> queue t ws = queue s ws"
  by (simp add: gframe_def queue_def)

lemma restore_vm_wp: "kwp restore_vm (\<lambda>_ t. gframe s t) s"
  by (auto simp: restore_vm_def switchuvm_def switchkvm_def gframe_def split: option.split)

lemma draw_window_at_wp:
  "cr3 s \<noteq> None \<Longrightarrow> kwp (draw_window_at buf a f) (\<lambda>_ t. gframe s t \<and> cr3 t = cr3 s) s"
  by (auto simp: draw_window_at_def the_space_def gframe_def Let_def split: option.split)

lemma back_loop_wp:
  "path (wq s) p (xs @ [lastWindow s]) \<Longrightarrow> lastWindow s \<notin> set xs \<Longrightarrow> (\<And>i. i \<in> set xs \<Longrightarrow> q_proc (wq s i) \<noteq> None) \<Longrightarrow>
    length xs < n \<Longrightarrow> cur_proc s \<noteq> None \<Longrightarrow> kwp (back_loop n p) (\<lambda>_ t. gframe s t) s"
proof (induction xs arbitrary: n p s)
  case Nil
  then obtain k where "n = Suc k" by (cases n) auto
  then show ?case using Nil by (simp add: node_def gframe_def)
next
  case (Cons x xs)
  obtain k where n: "n = Suc k" using Cons.prems(4) by (cases n) auto
  obtain i where i: "q_proc (wq s x) = Some i" using Cons.prems(3) [of x] by auto
  let ?s = "s\<lparr>cr3 := Some i\<rparr>"
  have "kwp (draw_window_at screen_temp1 (q_window (wq s x)) False) (\<lambda>_ t. gframe ?s t \<and> cr3 t = cr3 ?s) ?s"
    by (rule draw_window_at_wp) simp
  then have "kwp (draw_window_at screen_temp1 (q_window (wq s x)) False) (\<lambda>_. kwp (back_loop k x) (\<lambda>_ t. gframe s t)) ?s"
  proof (rule kwp_mono)
    fix r t assume t: "gframe ?s t \<and> cr3 t = cr3 ?s"
    have "kwp (back_loop k x) (\<lambda>_ u. gframe t u) t"
      using Cons.prems n t by (intro Cons.IH) (auto simp: gframe_def)
    then show "kwp (back_loop k x) (\<lambda>_ u. gframe s u) t"
      by (rule kwp_mono) (use t in \<open>simp add: gframe_def\<close>)
  qed
  then show ?case using Cons.prems n i by (auto simp: node_def switchuvm_def)
qed

lemma drawBackWindows_wp:
  assumes q: "queue s ws" and ne: "ws \<noteq> []" and c: "cur_proc s \<noteq> None"
  shows "kwp drawBackWindows (\<lambda>_ t. gframe s t) s"
proof -
  note Q = q [unfolded queue_def queue_on_def] and D = queue_onD [OF q [unfolded queue_def]]
  have ws: "ws = butlast ws @ [lastWindow s]" using Q ne by simp
  have "kwp (back_loop (Suc MAX_WINDOW_NUM) windowQueue) (\<lambda>_ t. gframe s t) s"
  proof (rule back_loop_wp)
    show "path (wq s) windowQueue (butlast ws @ [lastWindow s])" using D(3) ws by simp
    have "distinct (butlast ws @ [lastWindow s])" using Q ws by simp
    then show "lastWindow s \<notin> set (butlast ws)" by simp
    show "q_proc (wq s i) \<noteq> None" if "i \<in> set (butlast ws)" for i
      using Q in_set_butlastD [OF that] by blast
  qed (use D(2) c in simp_all)
  then have "kwp (back_loop (Suc MAX_WINDOW_NUM) windowQueue) (\<lambda>_. kwp restore_vm (\<lambda>_ t. gframe s t)) s"
    by (rule kwp_mono) (rule kwp_mono [OF restore_vm_wp], blast intro: gframe_trans)
  then show ?thesis by (simp add: drawBackWindows_def)
qed

lemma queue_last:
  assumes "queue s ws" "ws \<noteq> []"
  obtains i a where "q_proc (wq s (lastWindow s)) = Some i" "q_window (wq s (lastWindow s)) = Some a"
proof -
  have "lastWindow s \<in> set ws" using assms by (simp add: queue_def queue_on_def)
  then have "q_proc (wq s (lastWindow s)) \<noteq> None" "q_window (wq s (lastWindow s)) \<noteq> None"
    using assms(1) unfolding queue_def queue_on_def by blast+
  then show ?thesis using that by blast
qed

lemma drawLastWindow_wp:
  assumes q: "queue s ws" and ne: "ws \<noteq> []" and c: "cur_proc s \<noteq> None"
  shows "kwp drawLastWindow (\<lambda>_ t. gframe s t) s"
proof -
  obtain i a where l: "q_proc (wq s (lastWindow s)) = Some i" "q_window (wq s (lastWindow s)) = Some a"
    by (rule queue_last [OF q ne])
  let ?s = "s\<lparr>cr3 := Some i\<rparr>"
  have "kwp (draw_window_at screen_temp2 (Some a) True) (\<lambda>_ t. gframe ?s t \<and> cr3 t = cr3 ?s) ?s"
    by (rule draw_window_at_wp) simp
  then show ?thesis
    using l c unfolding drawLastWindow_def
    by (auto simp: node_def switchuvm_def last_win_def the_space_def upd_space_def gframe_def restore_vm_def switchkvm_def
        elim!: kwp_mono split: option.split)
qed

lemma removeLastWindow_wp:
  assumes q: "queue s ws" and ne: "ws \<noteq> []" and c: "cur_proc s \<noteq> None"
  shows "kwp removeLastWindow (\<lambda>_ t. gframe s t) s"
proof -
  obtain i a where l: "q_proc (wq s (lastWindow s)) = Some i" "q_window (wq s (lastWindow s)) = Some a"
    by (rule queue_last [OF q ne])
  then show ?thesis using c
    by (auto simp: removeLastWindow_def node_def switchuvm_def last_win_def the_space_def gframe_def restore_vm_def switchkvm_def
        split: option.split)
qed

lemma kwp_seq: "kwp m (\<lambda>_ t. gframe s t) s \<Longrightarrow> (\<And>t. gframe s t \<Longrightarrow> kwp n (\<lambda>_ u. gframe t u) t) \<Longrightarrow> kwp (kthen m n) (\<lambda>_ u. gframe s u) s"
  unfolding kwp_then by (rule kwp_mono, assumption, rule kwp_mono, blast) (blast intro: gframe_trans)

lemma gframe_mod: "(\<And>s. gframe s (f s)) \<Longrightarrow> kwp (kmod f) (\<lambda>_ t. gframe s t) s"
  by simp

lemma updateBackWindows_wp:
  assumes q: "queue s ws" and ne: "ws \<noteq> []" and c: "cur_proc s \<noteq> None"
  shows "kwp updateBackWindows (\<lambda>_ t. gframe s t) s"
  unfolding updateBackWindows_def draw_mouse_def
  by (intro kwp_seq gframe_mod drawBackWindows_wp [OF _ ne] drawLastWindow_wp [OF _ ne])
    (use q c in \<open>simp_all add: gframe_def queue_def\<close>)

lemma updateLastWindow_wp:
  assumes q: "queue s ws" and ne: "ws \<noteq> []" and c: "cur_proc s \<noteq> None"
  shows "kwp updateLastWindow (\<lambda>_ t. gframe s t) s"
  unfolding updateLastWindow_def draw_mouse_def
  by (intro kwp_seq gframe_mod removeLastWindow_wp [OF _ ne] drawLastWindow_wp [OF _ ne])
    (use q c in \<open>simp_all add: gframe_def queue_def\<close>)

section \<open>The calls as list operations\<close>

text \<open>
  The calls that change the queue, and what they mean: the abstract state is
  the list of handles from the bottom window to the top one.
\<close>

datatype win_call = Create nat | Delete nat | Raise nat

fun do_call :: "win_call \<Rightarrow> ('z gui_st_scheme, int) km" where
  "do_call (Create a) = sys_createWindow (Some a)"
| "do_call (Delete h) = sys_deleteWindow (Some h)"
| "do_call (Raise q) = kthen (reorderQueue q) (kret 0)"

fun abs_call :: "win_call \<Rightarrow> nat list \<Rightarrow> int \<times> nat list" where
  "abs_call (Create a) ws = (case next_handle ws of None \<Rightarrow> (-1, ws) | Some x \<Rightarrow> (int x, ws @ [x]))"
| "abs_call (Delete h) ws = (if h \<in> set ws then (0, remove1 h ws) else (-1, ws))"
| "abs_call (Raise q) ws = (0, remove1 q ws @ [q])"

fun call_ok :: "win_call \<Rightarrow> nat list \<Rightarrow> bool" where
  "call_ok (Create a) ws = (a \<noteq> 0)"
| "call_ok (Delete h) ws = (ws \<noteq> [h])"
| "call_ok (Raise q) ws = (q \<in> set (butlast ws))"

lemma remove1_split: "distinct (us @ h # vs) \<Longrightarrow> remove1 h (us @ h # vs) = us @ vs"
  by (simp add: remove1_append)

lemma create_call:
  assumes "queue s ws" "a \<noteq> 0" "cur_proc s \<noteq> None"
  shows "kwp (sys_createWindow (Some a)) (\<lambda>r t. r = fst (abs_call (Create a) ws) \<and> queue t (snd (abs_call (Create a) ws))) s"
  unfolding sys_createWindow_def option.case kwp_bind
proof (rule kwp_mono [OF create_locked_wp [OF assms]])
  fix r t assume rt: "r = next_handle ws \<and> cur_proc t = cur_proc s \<and> queue t (case r of None \<Rightarrow> ws | Some x \<Rightarrow> ws @ [x])"
  show "kwp (case r of None \<Rightarrow> kret (-1) | Some x \<Rightarrow> kthen updateBackWindows (kret (int x)))
      (\<lambda>r t. r = fst (abs_call (Create a) ws) \<and> queue t (snd (abs_call (Create a) ws))) t"
  proof (cases r)
    case None
    then show ?thesis using rt by auto
  next
    case (Some x)
    then have "queue t (ws @ [x])" "next_handle ws = Some x" "cur_proc t \<noteq> None" using rt assms(3) by auto
    with updateBackWindows_wp [OF this(1)] show ?thesis
      using Some by (auto elim!: kwp_mono simp: queue_gframe)
  qed
qed

lemma delete_call:
  assumes q: "queue s ws" and ok: "ws \<noteq> [h]" and c: "cur_proc s \<noteq> None"
  shows "kwp (sys_deleteWindow (Some h)) (\<lambda>r t. r = fst (abs_call (Delete h) ws) \<and> queue t (snd (abs_call (Delete h) ws))) s"
proof (cases "h \<in> set ws")
  case False
  then show ?thesis using q delete_locked_out [OF q False] by (simp add: sys_deleteWindow_def kwp_def kdefs)
next
  case True
  then obtain us vs where ws: "ws = us @ h # vs" by (meson split_list)
  have "distinct (us @ h # vs)" using q ws by (simp add: queue_def queue_on_def)
  then have "remove1 h ws = us @ vs" unfolding ws by (rule remove1_split)
  moreover have "us @ vs \<noteq> []" using ws ok by auto
  ultimately have r: "remove1 h ws = us @ vs" "us @ vs \<noteq> []" by auto
  show ?thesis unfolding sys_deleteWindow_def option.case kwp_bind
  proof (rule kwp_mono [OF delete_locked_in [OF q [unfolded ws]]])
    fix ok t assume "ok \<and> queue t (us @ vs) \<and> cur_proc t = cur_proc s"
    with updateBackWindows_wp [of t, OF _ r(2)] c
    show "kwp (if ok then kthen updateBackWindows (kret 0) else kret (-1))
        (\<lambda>r t. r = fst (abs_call (Delete h) ws) \<and> queue t (snd (abs_call (Delete h) ws))) t"
      using True r by (auto elim!: kwp_mono simp: queue_gframe)
  qed
qed

lemma raise_locked:
  assumes q: "queue s ws" and ok: "h \<in> set (butlast ws)"
  shows "kwp (reorder_locked h) (\<lambda>_ t. queue t (remove1 h ws @ [h]) \<and> same_owners s t \<and> (\<exists>B. t = s\<lparr>wq := B, lastWindow := h\<rparr>)) s"
proof -
  obtain us vs where b: "butlast ws = us @ h # vs" using ok by (meson split_list)
  then have ws: "ws = us @ h # vs @ [last ws]" by (metis append_butlast_last_id append_Cons append_assoc butlast.simps(1) append_is_Nil_conv list.distinct(1))
  have "distinct (us @ h # vs @ [last ws])" using q ws by (metis queue_def queue_on_def)
  then have r: "remove1 h ws = us @ vs @ [last ws]" using ws remove1_split [of us h "vs @ [last ws]"] by metis
  have q': "queue s (us @ h # vs @ [last ws])" using q ws by simp
  show ?thesis using reorder_locked_wp [OF q'] r by simp
qed

lemma raise_call:
  assumes q: "queue s ws" and ok: "h \<in> set (butlast ws)" and c: "cur_proc s \<noteq> None"
  shows "kwp (do_call (Raise h)) (\<lambda>r t. r = 0 \<and> queue t (remove1 h ws @ [h])) s"
  unfolding do_call.simps reorderQueue_def kwp_then
proof (rule kwp_mono [OF raise_locked [OF q ok]])
  fix x t assume t: "queue t (remove1 h ws @ [h]) \<and> same_owners s t \<and> (\<exists>B. t = s\<lparr>wq := B, lastWindow := h\<rparr>)"
  then have "kwp updateBackWindows (\<lambda>_ u. gframe t u) t" using c by (intro updateBackWindows_wp) auto
  then show "kwp updateBackWindows (\<lambda>_. kwp (kret 0) (\<lambda>r t. r = 0 \<and> queue t (remove1 h ws @ [h]))) t"
    using t by (auto elim!: kwp_mono simp: queue_gframe)
qed

section \<open>Properties\<close>

text \<open>
  C5: The linked window queue implements a list of handles. Creating a window
  returns the smallest free handle and puts it on top, or fails when all 32
  are used; deleting removes the handle and keeps the others in order, or fails
  when it is not in the queue; raising a window below the top moves it to the
  top. Each call returns, redrawing included.
\<close>

theorem window_queue_refines:
  assumes "queue s ws" "cur_proc s \<noteq> None" "call_ok c ws"
  shows "\<exists>t. do_call c s = Ok (fst (abs_call c ws), t) \<and> queue t (snd (abs_call c ws))"
proof -
  have "kwp (do_call c) (\<lambda>r t. r = fst (abs_call c ws) \<and> queue t (snd (abs_call c ws))) s"
  proof (cases c)
    case (Create a)
    then show ?thesis using create_call [of s ws a] assms by simp
  next
    case (Delete h)
    then show ?thesis using delete_call [of s ws h] assms by simp
  next
    case (Raise h)
    then show ?thesis using raise_call [of s ws h] assms by simp
  qed
  then show ?thesis by (auto simp: kwp_Ok)
qed

definition demo_umem :: umem where
  "demo_umem = \<lparr>u_window = (\<lambda>_. demo_window),
     u_label = (\<lambda>_. \<lparr>l_leftTopX = 0, l_leftTopY = 0, l_width = 0, l_height = 0, l_text = []\<rparr>),
     u_textBox = (\<lambda>_. \<lparr>t_fixed = True, t_leftTopX = 0, t_leftTopY = 0, t_width = 0, t_height = 0, t_cursor = 0, t_textLength = 0, t_text = []\<rparr>),
     u_button = (\<lambda>_. \<lparr>b_image = None, b_leftTopX = 0, b_leftTopY = 0, b_width = 0, b_height = 0, b_text = [], b_triggered = False\<rparr>),
     u_imageView = (\<lambda>_. \<lparr>v_leftTopX = 0, v_leftTopY = 0, v_width = 0, v_height = 0, v_alphaBG = False, v_image = (\<lambda>_. \<lparr>cB = 0, cG = 0, cR = 0\<rparr>), v_triggered = False\<rparr>),
     u_iconView = (\<lambda>_. \<lparr>k_leftTopX = 0, k_leftTopY = 0, k_width = 0, k_height = 0, k_image = 0, k_text = [], k_triggered = False\<rparr>),
     u_image = (\<lambda>_ _. \<lparr>cB = 0, cG = 0, cR = 0\<rparr>)\<rparr>"

definition demo_queue :: "nat list \<Rightarrow> nat \<Rightarrow> wqnode" where
  "demo_queue ws i = (let c = windowQueue # ws in case List.find (\<lambda>k. c ! k = i) [0..<length c] of
     None \<Rightarrow> \<lparr>q_proc = None, q_window = None, q_next = None, q_prev = None\<rparr>
   | Some k \<Rightarrow> \<lparr>q_proc = (if k = 0 then None else Some (10 + i)), q_window = (if k = 0 then None else Some 4096),
       q_next = (if k = length ws then None else Some (c ! (k + 1))), q_prev = (if k = 0 then None else Some (c ! (k - 1)))\<rparr>)"

definition demo_gui :: "nat list \<Rightarrow> gui_st" where
  "demo_gui ws = \<lparr>pixels = (\<lambda>_. \<lparr>cB = 0, cG = 0, cR = 0\<rparr>), wq = demo_queue ws, lastWindow = last (windowQueue # ws), uspace = (\<lambda>_. demo_umem),
     cr3 = Some 10, cur_proc = Some 10, x_position = 0, y_position = 0, last_draw_x = 0, last_draw_y = 0, m_event = 0,
     focusIcon = None, bg = (\<lambda>_. \<lparr>cB = 0, cG = 0, cR = 0\<rparr>), isBg = (\<lambda>_. False)\<rparr>"

lemma less_32: "(\<forall>i < 32. P i) \<longleftrightarrow> (\<forall>i \<in> set [0..<32 :: nat]. P i)"
  by auto

lemma demo_gui_queue: "queue (demo_gui [0, 2, 1]) [0, 2, 1]" "queue (demo_gui [3]) [3]"
  unfolding queue_def queue_on_def MAX_WINDOW_NUM_def less_32
  by (simp_all add: demo_gui_def demo_queue_def MAX_WINDOW_NUM_def Let_def upt_rec)

theorem window_queue_refines_witness:
  "queue (demo_gui [0, 2, 1]) [0, 2, 1] \<and> cur_proc (demo_gui [0, 2, 1]) \<noteq> None \<and> call_ok (Raise 2) [0, 2, 1]
    \<and> (\<exists>t. do_call (Raise 2) (demo_gui [0, 2, 1]) = Ok (0, t) \<and> queue t [0, 1, 2])"
  using window_queue_refines [of "demo_gui [0, 2, 1]" "[0, 2, 1]" "Raise 2"] demo_gui_queue(1)
  by (simp add: demo_gui_def)

text \<open>
  C37: Deleting the only window leaves \<open>lastWindow\<close> at the head of the queue,
  and the redraw that follows dereferences the null \<open>next\<close> pointer of the head.
\<close>

theorem delete_only_window_faults:
  assumes "queue s [h]"
  shows "sys_deleteWindow (Some h) s = Fault ''drawBackWindows: null''"
proof -
  obtain t where t: "delete_locked h s = Ok (True, t)" "queue t []"
    using delete_locked_in [of s "[]" h "[]"] assms by (auto simp: kwp_Ok)
  have "q_next (wq t windowQueue) = None" using t(2) by (auto simp: queue_def queue_on_def)
  then show ?thesis using t(1)
    by (simp add: sys_deleteWindow_def updateBackWindows_def drawBackWindows_def node_def kdefs)
qed

theorem delete_only_window_faults_witness:
  "queue (demo_gui [3]) [3] \<and> sys_deleteWindow (Some 3) (demo_gui [3]) = Fault ''drawBackWindows: null''"
  using delete_only_window_faults [of "demo_gui [3]" 3] demo_gui_queue(2) by simp

lemma move_delta_bounds:
  assumes "w_width w \<le> SCREEN_WIDTH" "w_height w \<le> SCREEN_HEIGHT" "move_delta w dx dy = (dx', dy')"
  shows "0 \<le> leftTopX w + dx'" "leftTopX w + w_width w + dx' \<le> SCREEN_WIDTH"
    "0 \<le> leftTopY w + dy'" "leftTopY w + w_height w + dy' \<le> SCREEN_HEIGHT"
  using assms by (auto simp: move_delta_def Let_def split: if_splits)

text \<open>
  The interface between redrawing and its callers: a part \<open>f\<close> of the state that
  does not depend on the pixels, the loaded page table, where the pointer was
  last drawn, and the saved positions of windows is left alone by a redraw.
\<close>

locale redraw_frame =
  fixes f :: "'z gui_st_scheme \<Rightarrow> 'b"
  assumes f_pixels: "f (s\<lparr>pixels := v\<rparr>) = f s"
    and f_cr3: "f (s\<lparr>cr3 := c\<rparr>) = f s"
    and f_drawn: "f (s\<lparr>last_draw_x := x, last_draw_y := y\<rparr>) = f s"
    and f_saved: "f (s\<lparr>uspace := (uspace s)(i := (uspace s i)\<lparr>u_window := (u_window (uspace s i))
      (a := (u_window (uspace s i) a)\<lparr>last_leftTopX := x, last_leftTopY := y\<rparr>)\<rparr>)\<rparr>) = f s"
begin

lemma switch [kpres_intros]:
  "kpres f (switchuvm p)" "kpres f switchkvm" "kpres f restore_vm" "kpres f the_space" "kpres f (node n)"
  by (auto simp: restore_vm_def switchuvm_def switchkvm_def the_space_def node_def f_cr3 split: option.split intro!: kpres_intros)

lemma drawing [kpres_intros]: "kpres f (draw_window_at b w fc)" "kpres f last_win"
  by (auto simp: draw_window_at_def Let_def last_win_def f_pixels split: option.split intro!: kpres_intros)

lemma saving: "kpres f (kbind last_win (\<lambda>(a, w). kthen
    (upd_space (\<lambda>m. m\<lparr>u_window := (u_window m)(a := w\<lparr>last_leftTopX := leftTopX w, last_leftTopY := leftTopY w\<rparr>)\<rparr>)) restore_vm))"
  by (auto simp: kpres_def last_win_def the_space_def upd_space_def node_def kdefs f_saved f_cr3 restore_vm_def switchuvm_def switchkvm_def
      split: option.splits if_splits)

lemma back_windows [kpres_intros]: "kpres f (back_loop n p)"
proof (induction n arbitrary: p)
  case 0
  show ?case unfolding back_loop.simps by (intro kpres_intros)
next
  case (Suc n)
  show ?case unfolding back_loop.simps by (auto intro!: kpres_intros Suc split: option.split)
qed

lemma last_window [kpres_intros]: "kpres f removeLastWindow" "kpres f drawLastWindow"
proof -
  show "kpres f removeLastWindow"
    unfolding removeLastWindow_def by (intro kpres_intros) (auto simp: f_pixels intro!: kpres_intros)
  show "kpres f drawLastWindow"
    unfolding drawLastWindow_def by (rule saving switch drawing kpres_basic kpres_bind kpres_then)+
qed

lemma mouse_drawn [kpres_intros]: "kpres f draw_mouse" "kpres f remove_mouse"
proof -
  have "f (s\<lparr>pixels := v, last_draw_x := x, last_draw_y := y\<rparr>) = f s" for s v x y
    using f_drawn [where s = "s\<lparr>pixels := v\<rparr>"] f_pixels by simp
  then show "kpres f draw_mouse" "kpres f remove_mouse"
    unfolding draw_mouse_def remove_mouse_def by (auto simp: f_pixels intro!: kpres_intros)
qed

lemma redraw [kpres_intros]: "kpres f updateBackWindows" "kpres f updateLastWindow" "kpres f updateMouse"
  unfolding updateBackWindows_def updateLastWindow_def updateMouse_def drawBackWindows_def
  by (auto simp: f_pixels intro!: kpres_intros simp del: back_loop.simps)

end

text \<open>The position of a window in user memory; only \<open>moveWindow\<close> changes it.\<close>

definition win_pos :: "nat \<Rightarrow> nat \<Rightarrow> 'z gui_st_scheme \<Rightarrow> int \<times> int" where
  "win_pos i a s = (leftTopX (u_window (uspace s i) a), leftTopY (u_window (uspace s i) a))"

interpretation win_pos_frame: redraw_frame "win_pos i a"
  by unfold_locales (auto simp: win_pos_def)

text \<open>The queue and the running process.\<close>

definition queue_part :: "'z gui_st_scheme \<Rightarrow> (nat \<Rightarrow> wqnode) \<times> nat \<times> nat option" where
  "queue_part s = (wq s, lastWindow s, cur_proc s)"

interpretation queue_frame: redraw_frame queue_part
  by unfold_locales (auto simp: queue_part_def)

text \<open>
  C24: A drag cannot push a window off the screen: whatever the mouse does,
  \<open>moveWindow\<close> leaves the window of the loaded process inside the screen, with or
  without the redraw.
\<close>

theorem moveWindow_on_screen:
  assumes "cr3 s = Some i" "w = u_window (uspace s i) a" "w_width w \<le> SCREEN_WIDTH" "w_height w \<le> SCREEN_HEIGHT"
    "queue s ws" "ws \<noteq> []" "cur_proc s \<noteq> None"
  shows "\<exists>t x y. moveWindow (Some a) fx fy tx ty isdraw s = Ok ((), t) \<and> win_pos i a t = (x, y)
    \<and> 0 \<le> x \<and> x + w_width w \<le> SCREEN_WIDTH \<and> 0 \<le> y \<and> y + w_height w \<le> SCREEN_HEIGHT"
proof -
  obtain dx dy where d: "move_delta w (tx - fx) (ty - fy) = (dx, dy)" by fastforce
  define u where "u = s\<lparr>uspace := (uspace s)(i := (uspace s i)\<lparr>u_window := (u_window (uspace s i))(a := w\<lparr>leftTopX := leftTopX w + dx, leftTopY := leftTopY w + dy\<rparr>)\<rparr>)\<rparr>"
  have eq: "moveWindow (Some a) fx fy tx ty isdraw s = (if isdraw then updateLastWindow else kret ()) u"
    using assms(1,2) d by (simp add: moveWindow_def the_space_def upd_space_def kdefs Let_def u_def)
  have "queue u ws" "cur_proc u \<noteq> None" using assms(5,7) by (simp_all add: queue_def u_def)
  then obtain t where t: "(if isdraw then updateLastWindow else kret ()) u = Ok ((), t)"
    using updateLastWindow_wp [of u ws] assms(6) by (cases isdraw) (auto simp: kwp_Ok kret_def)
  have "kpres (win_pos i a) (if isdraw then updateLastWindow else kret ())"
    using win_pos_frame.redraw(2) by (intro kpres_intros)
  from kpresD [OF this t] have "win_pos i a t = (leftTopX w + dx, leftTopY w + dy)"
    by (simp add: win_pos_def u_def)
  then show ?thesis using t eq move_delta_bounds [OF assms(3,4) d] by (simp add: algebra_simps)
qed

theorem moveWindow_on_screen_witness:
  "\<exists>t x y. moveWindow (Some 4096) 0 0 5000 (-70) True (demo_gui [3]) = Ok ((), t) \<and> win_pos 10 4096 t = (x, y)
    \<and> 0 \<le> x \<and> x + 400 \<le> 1280 \<and> 0 \<le> y \<and> y + 300 \<le> 1024"
  using moveWindow_on_screen [of "demo_gui [3]" 10 demo_window 4096 "[3]" 0 0 5000 "-70" True] demo_gui_queue(2)
  by (simp add: demo_gui_def demo_umem_def demo_window_def SCREEN_WIDTH_def SCREEN_HEIGHT_def)

text \<open>
  C38: A redraw from an interrupt that arrives while no process is running
  dereferences the null pointer \<open>proc\<close> in \<open>switchuvm\<close>, although every caller is
  written for that case and switches back with \<open>switchkvm\<close>.
\<close>

theorem idle_redraw_faults:
  assumes "cur_proc s = None" "queue s ws" "ws \<noteq> []"
  shows "updateLastWindow s = Fault ''switchuvm: proc'' \<and> updateBackWindows s = Fault ''switchuvm: proc''"
proof -
  note Q = assms(2) [unfolded queue_def queue_on_def]
  have last: "q_next (wq s windowQueue) = Some (hd ws)" using Q assms(3) by (cases ws) auto
  have "drawBackWindows t = (if hd ws = lastWindow s then Ok ((), t\<lparr>cr3 := None\<rparr>) else Fault ''switchuvm: proc'')"
    if "wq t = wq s" "lastWindow t = lastWindow s" "cur_proc t = None" for t
    using that last by (simp add: drawBackWindows_def node_def switchuvm_def switchkvm_def restore_vm_def kdefs)
  from this [of "s\<lparr>pixels := clear_buf screen_temp1 (pixels s)\<rparr>"] show ?thesis using assms(1)
    by (simp add: updateLastWindow_def updateBackWindows_def removeLastWindow_def drawLastWindow_def switchuvm_def node_def kdefs)
qed

theorem idle_redraw_faults_witness:
  "queue (demo_gui [3]\<lparr>cur_proc := None\<rparr>) [3] \<and> updateLastWindow (demo_gui [3]\<lparr>cur_proc := None\<rparr>) = Fault ''switchuvm: proc''"
  using idle_redraw_faults [of "demo_gui [3]\<lparr>cur_proc := None\<rparr>" "[3]"] demo_gui_queue(2) by (simp add: queue_def)

end
