(* ===== verification/Mouse.thy ===== *)
theory Mouse
  imports Window
begin

text \<open>
  The mouse (\<open>mouse.c\<close>) and the focused icon (the end of \<open>gui.c\<close>): decoding of
  the three-byte packets of the controller, clicks, double clicks and drags,
  and what they do to the windows. Shown here: the pointer stays on the screen
  whatever bytes arrive, a click goes to the topmost window under the pointer
  and raises it, two clicks make one double click, and focusing an icon and
  dismissing the focus gives the image of the icon back.

  \<open>mouse_lock\<close> only covers the decoding; an interrupt is one step of the model,
  and the bytes read from the ports 0x64 and 0x60 are its arguments.
\<close>

section \<open>Focused icons\<close>

definition ICON_PELS :: nat where "ICON_PELS = 96 * 96"

text \<open>The icon \<open>f\<close> in the window at \<open>w\<close>, drawn on \<open>screen_temp2\<close> and on the screen.\<close>

definition draw_icon :: "nat \<Rightarrow> nat option \<Rightarrow> ('z gui_st_scheme, unit) km" where
  "draw_icon f w = (case w of None \<Rightarrow> kfault ''window: null'' | Some a \<Rightarrow>
     kbind the_space (\<lambda>m. kmod (\<lambda>s. s\<lparr>pixels :=
       drawIconView screen (u_image m) (u_iconView m f) (u_window m a)
         (drawIconView screen_temp2 (u_image m) (u_iconView m f) (u_window m a) (pixels s))\<rparr>)))"

definition put_back :: "(nat \<Rightarrow> rgb) \<Rightarrow> (int \<Rightarrow> rgb) \<Rightarrow> int \<Rightarrow> rgb" where
  "put_back b = fold (\<lambda>i img. img(int ((95 - i div 96) * 96 + i mod 96) := b i)) [0..<ICON_PELS]"

definition upd_image :: "nat \<Rightarrow> ((int \<Rightarrow> rgb) \<Rightarrow> int \<Rightarrow> rgb) \<Rightarrow> ('z gui_st_scheme, unit) km" where
  "upd_image f g = upd_space (\<lambda>m. let p = k_image (u_iconView m f) in m\<lparr>u_image := (u_image m)(p := g (u_image m p))\<rparr>)"

definition icon_restore :: "nat \<Rightarrow> nat option \<Rightarrow> ('z gui_st_scheme, unit) km" where
  "icon_restore f w = kbind (kget bg) (\<lambda>b. kthen (upd_image f (put_back b)) (draw_icon f w))"

text \<open>The loop that makes the marked pixels black again, which reads \<open>focusIcon\<close> only for a marked one.\<close>

definition icon_unmark :: "('z gui_st_scheme, unit) km" where
  "icon_unmark = kbind (kget isBg) (\<lambda>g. kbind (kget focusIcon) (\<lambda>fi.
     kthen (case fi of
         None \<Rightarrow> if list_ex g [0..<ICON_PELS] then kfault ''focusIcon: null'' else kret ()
       | Some f \<Rightarrow> upd_image f (\<lambda>img k. if 0 \<le> k \<and> k < int ICON_PELS \<and> g (nat k) then \<lparr>cB = 0, cG = 0, cR = 0\<rparr> else img k))
     (kmod (\<lambda>s. s\<lparr>isBg := (\<lambda>i. if i < ICON_PELS then False else isBg s i)\<rparr>))))"

definition icon_mark :: "nat \<Rightarrow> nat option \<Rightarrow> ('z gui_st_scheme, unit) km" where
  "icon_mark f w = (case w of None \<Rightarrow> kfault ''window: null'' | Some a \<Rightarrow>
     kbind the_space (\<lambda>m. let k = u_iconView m f; win = u_window m a; img = u_image m (k_image k) in
     kthen (kmod (\<lambda>s. s\<lparr>
       bg := (\<lambda>i. if i < ICON_PELS then pixels s (px screen_temp2 (leftTopX win + k_leftTopX k + int (i mod 96))
                (leftTopY win + k_leftTopY k + int (i div 96))) else bg s i),
       isBg := (\<lambda>i. if i < ICON_PELS \<and> isAlpha (img (int i)) then True else isBg s i)\<rparr>))
     (upd_image f (\<lambda>img k. if 0 \<le> k \<and> k < int ICON_PELS \<and> isAlpha (img k) then \<lparr>cB = 91, cG = 149, cR = 226\<rparr> else img k))))"

definition focusIconView :: "nat \<Rightarrow> ('z gui_st_scheme, unit) km" where
  "focusIconView icon =
     kbind (kget lastWindow) (\<lambda>l. kbind (node l) (\<lambda>q.
     kthen (switchuvm (q_proc q))
     (kbind (kget focusIcon) (\<lambda>fi.
       if fi = Some icon then kret ()
       else
         kthen (case fi of None \<Rightarrow> kret () | Some f \<Rightarrow> kthen (icon_restore f (q_window q)) icon_unmark)
         (kthen (kmod (\<lambda>s. s\<lparr>focusIcon := Some icon\<rparr>))
         (kthen (icon_mark icon (q_window q))
         (kthen (draw_icon icon (q_window q))
                restore_vm)))))))"

definition focusDismiss :: "('z gui_st_scheme, unit) km" where
  "focusDismiss =
     kbind (kget lastWindow) (\<lambda>l. kbind (node l) (\<lambda>q.
     kthen (switchuvm (q_proc q))
     (kbind (kget focusIcon) (\<lambda>fi.
       kthen (case fi of None \<Rightarrow> kret () | Some f \<Rightarrow> icon_restore f (q_window q))
       (kthen icon_unmark
       (kthen (kmod (\<lambda>s. s\<lparr>focusIcon := None\<rparr>))
              restore_vm))))))"

section \<open>State of the mouse\<close>

definition READ_MOUSE_INFO :: int where "READ_MOUSE_INFO = 1"
definition READ_X_MOVEMENT :: int where "READ_X_MOVEMENT = 2"
definition READ_Y_MOVEMENT :: int where "READ_Y_MOVEMENT = 3"
definition LEFT_CLICK :: int where "LEFT_CLICK = 4"
definition RIGHT_CLICK :: int where "RIGHT_CLICK = 5"
definition LEFT_DOUBLE_CLICK :: int where "LEFT_DOUBLE_CLICK = 6"

record mouse_st = gui_st +
  to_read :: int
  left_down :: bool
  right_down :: bool
  x_sign :: bool
  y_sign :: bool
  x_overflow :: bool
  y_overflow :: bool
  counter :: int
  isdraw :: bool
  dis_x :: int
  dis_y :: int
  left_btn_down :: bool
  down_pos_x :: int
  down_pos_y :: int
  right_btn_down :: bool
  last_tick :: u32
  event :: int
  drag_state :: int
  pwque :: "nat option"

section \<open>What is under the pointer\<close>

definition in_rect :: "int \<Rightarrow> int \<Rightarrow> int \<Rightarrow> int \<Rightarrow> int \<Rightarrow> int \<Rightarrow> bool" where
  "in_rect lx ly w h x y \<longleftrightarrow> lx \<le> x \<and> x < lx + w \<and> ly \<le> y \<and> y < ly + h"

definition inWindowRange :: "window \<Rightarrow> int \<Rightarrow> int \<Rightarrow> bool" where
  "inWindowRange w x y = in_rect (leftTopX w) (leftTopY w) (w_width w) (w_height w) x y"

definition inWidgetRange :: "umem \<Rightarrow> window \<Rightarrow> widget \<Rightarrow> int \<Rightarrow> int \<Rightarrow> bool" where
  "inWidgetRange m w wd x y = (case wd of
     WButton a \<Rightarrow> (let b = u_button m a in
       in_rect (leftTopX w + b_leftTopX b) (leftTopY w + b_leftTopY b) (b_width b) (b_height b) x y)
   | WImageView a \<Rightarrow> (let v = u_imageView m a in
       in_rect (leftTopX w + v_leftTopX v) (leftTopY w + v_leftTopY v) (v_width v) (v_height v) x y)
   | WIconView a \<Rightarrow> (let k = u_iconView m a in
       in_rect (leftTopX w + k_leftTopX k) (leftTopY w + k_leftTopY k) (k_width k) (k_height k) x y)
   | _ \<Rightarrow> False)"

text \<open>
  The walk back along \<open>prev\<close> from \<open>lastWindow\<close>. It passes through the head of the
  queue, whose \<open>proc\<close> and \<open>window\<close> are null, when no window is hit.
\<close>

primrec hit_loop :: "nat \<Rightarrow> int \<Rightarrow> int \<Rightarrow> nat option \<Rightarrow> ('z gui_st_scheme, nat option) km" where
  "hit_loop 0 x y p = kfault ''getClickedWindowQueue''"
| "hit_loop (Suc n) x y p = (case p of None \<Rightarrow> kret None | Some i \<Rightarrow>
     kbind (node i) (\<lambda>q. kthen (switchuvm (q_proc q))
       (case q_window q of None \<Rightarrow> kfault ''window: null'' | Some a \<Rightarrow>
          kbind the_space (\<lambda>m. if inWindowRange (u_window m a) x y then kret (Some i) else hit_loop n x y (q_prev q)))))"

definition getClickedWindowQueue :: "('z gui_st_scheme, nat option) km" where
  "getClickedWindowQueue = kbind (kget (\<lambda>s. s)) (\<lambda>s.
     hit_loop (Suc (Suc MAX_WINDOW_NUM)) (x_position s) (y_position s) (Some (lastWindow s)))"

definition getClickedWidget :: "nat option \<Rightarrow> ('z gui_st_scheme, widget option) km" where
  "getClickedWidget w = (case w of None \<Rightarrow> kfault ''window: null'' | Some a \<Rightarrow>
     kbind (kget (\<lambda>s. s)) (\<lambda>s. kbind the_space (\<lambda>m. let win = u_window m a in
       kret (List.find (\<lambda>wd. inWidgetRange m win wd (x_position s) (y_position s)) (rev (widgets win))))))"

section \<open>Clicks and drags\<close>

definition trigger_button :: "nat \<Rightarrow> ('z gui_st_scheme, unit) km" where
  "trigger_button a = upd_space (\<lambda>m. m\<lparr>u_button := (u_button m)(a := (u_button m a)\<lparr>b_triggered := True\<rparr>)\<rparr>)"

definition trigger_image :: "nat \<Rightarrow> ('z gui_st_scheme, unit) km" where
  "trigger_image a = upd_space (\<lambda>m. m\<lparr>u_imageView := (u_imageView m)(a := (u_imageView m a)\<lparr>v_triggered := True\<rparr>)\<rparr>)"

definition trigger_icon :: "nat \<Rightarrow> ('z gui_st_scheme, unit) km" where
  "trigger_icon a = upd_space (\<lambda>m. m\<lparr>u_iconView := (u_iconView m)(a := (u_iconView m a)\<lparr>k_triggered := True\<rparr>)\<rparr>)"

definition click_widget :: "nat \<Rightarrow> ('z gui_st_scheme, unit) km" where
  "click_widget i = kbind (node i) (\<lambda>q. kbind (getClickedWidget (q_window q)) (\<lambda>wd. case wd of
       None \<Rightarrow> kthen focusDismiss (switchuvm (q_proc q))
     | Some (WButton a) \<Rightarrow> kthen focusDismiss (kthen (switchuvm (q_proc q)) (trigger_button a))
     | Some (WImageView a) \<Rightarrow> kthen focusDismiss (kthen (switchuvm (q_proc q)) (trigger_image a))
     | Some (WIconView a) \<Rightarrow> focusIconView a
     | Some _ \<Rightarrow> kthen focusDismiss (switchuvm (q_proc q))))"

definition handleLeftClick :: "('z gui_st_scheme, unit) km" where
  "handleLeftClick =
     kbind getClickedWindowQueue (\<lambda>p. case p of
       None \<Rightarrow> restore_vm
     | Some i \<Rightarrow>
         kbind (kget lastWindow) (\<lambda>l.
         if i \<noteq> l \<and> i = 0 then restore_vm
         else
           kthen (if i \<noteq> l \<and> i \<noteq> 0
                  then kthen focusDismiss (kthen (reorderQueue i) (kbind (node i) (\<lambda>q. switchuvm (q_proc q))))
                  else kret ())
           (kthen (click_widget i) restore_vm)))"

definition handleLeftDoubleClick :: "('z gui_st_scheme, unit) km" where
  "handleLeftDoubleClick =
     kbind getClickedWindowQueue (\<lambda>p.
     kthen (case p of
         None \<Rightarrow> kret ()
       | Some i \<Rightarrow>
           kthen focusDismiss (kbind (node i) (\<lambda>q. kthen (switchuvm (q_proc q))
           (kbind (getClickedWidget (q_window q)) (\<lambda>wd. case wd of Some (WIconView a) \<Rightarrow> trigger_icon a | _ \<Rightarrow> kret ())))))
     restore_vm)"

definition handleRightClick :: "('z gui_st_scheme, unit) km" where
  "handleRightClick =
     kbind getClickedWindowQueue (\<lambda>p.
     kthen (case p of
         None \<Rightarrow> kret ()
       | Some i \<Rightarrow> kbind (node i) (\<lambda>q. kbind (getClickedWidget (q_window q)) (\<lambda>wd. kret ())))
     restore_vm)"

definition getDraggedWindowQueue :: "('z mouse_st_scheme, nat option) km" where
  "getDraggedWindowQueue = kbind (kget (\<lambda>s. s)) (\<lambda>s. let x = down_pos_x s; y = down_pos_y s in
     if x = 0 \<or> y = 0 then kret None
     else kbind (hit_loop (Suc (Suc MAX_WINDOW_NUM)) x y (Some (lastWindow s))) (\<lambda>p. case p of
         None \<Rightarrow> kret None
       | Some i \<Rightarrow> kbind (node i) (\<lambda>q. case q_window q of None \<Rightarrow> kfault ''window: null'' | Some a \<Rightarrow>
           kbind the_space (\<lambda>m. kret (if y \<le> leftTopY (u_window m a) + CAPTION_HEIGHT then Some i else None)))))"

definition handleMouseDrag :: "('z mouse_st_scheme, unit) km" where
  "handleMouseDrag =
     kthen (kbind (kget (\<lambda>s. s)) (\<lambda>s.
       if drag_state s = 0 then
         kbind getDraggedWindowQueue (\<lambda>p.
         kthen (kmod (\<lambda>s. s\<lparr>pwque := p\<rparr>))
         (case p of
            None \<Rightarrow> kmod (\<lambda>s. s\<lparr>drag_state := 2\<rparr>)
          | Some i \<Rightarrow>
              kthen (kmod (\<lambda>s. s\<lparr>drag_state := 1\<rparr>))
              (kbind (kget lastWindow) (\<lambda>l. if i \<noteq> l \<and> i \<noteq> 0 then reorderQueue i else kret ()))))
       else if drag_state s = 1 then
         (case pwque s of None \<Rightarrow> kfault ''pwque: null'' | Some i \<Rightarrow>
           kbind (node i) (\<lambda>q.
           kthen (switchuvm (q_proc q))
           (kthen (kmod (\<lambda>s. s\<lparr>counter := (counter s + 1) mod 20\<rparr>))
           (kthen (kmod (\<lambda>s. s\<lparr>isdraw := (counter s = 0)\<rparr>))
           (kbind (kget isdraw) (\<lambda>d.
             moveWindow (q_window q) (x_position s) (y_position s) (down_pos_x s) (down_pos_y s) d))))))
       else kret ()))
     restore_vm"

section \<open>Position and events\<close>

definition setMousePosition :: "int \<Rightarrow> int \<Rightarrow> ('z gui_st_scheme, unit) km" where
  "setMousePosition x y =
     (let x = (if x < 0 then 0 else x);
          x = (if SCREEN_WIDTH < x then SCREEN_WIDTH else x);
          y = (if y < 0 then 0 else y);
          y = (if SCREEN_HEIGHT < y then SCREEN_HEIGHT else y)
      in kthen (kmod (\<lambda>s. s\<lparr>x_position := x, y_position := y\<rparr>)) updateMouse)"

definition moveMousePosition :: "int \<Rightarrow> int \<Rightarrow> ('z gui_st_scheme, unit) km" where
  "moveMousePosition x y = kbind (kget (\<lambda>s. s)) (\<lambda>s. setMousePosition (x_position s + x) (y_position s + y))"

definition left_event :: "u32 \<Rightarrow> int \<Rightarrow> int \<Rightarrow> 'z mouse_st_scheme \<Rightarrow> 'z mouse_st_scheme" where
  "left_event tick x y s =
     (let s = s\<lparr>event := 0\<rparr> in
      if left_down s then
        let s = s\<lparr>down_pos_x := x, down_pos_y := y\<rparr> in
        if \<not> left_btn_down s then s\<lparr>left_btn_down := True\<rparr> else s\<lparr>event := MOUSE_DRAGGING\<rparr>
      else if left_btn_down s then
        let s = s\<lparr>left_btn_down := False, down_pos_x := 0, down_pos_y := 0\<rparr>;
            s = (if tick - last_tick s \<le> 30 then s\<lparr>event := LEFT_DOUBLE_CLICK\<rparr>
                 else if m_event s = MOUSE_DRAGGING then s\<lparr>event := 0\<rparr> else s\<lparr>event := LEFT_CLICK\<rparr>)
        in if event s = LEFT_DOUBLE_CLICK then s\<lparr>last_tick := -30\<rparr> else s\<lparr>last_tick := tick\<rparr>
      else s)"

definition right_event :: "'z mouse_st_scheme \<Rightarrow> 'z mouse_st_scheme" where
  "right_event s =
     (if right_down s then (if \<not> right_btn_down s then s\<lparr>right_btn_down := True\<rparr> else s)
      else if right_btn_down s then s\<lparr>right_btn_down := False, event := RIGHT_CLICK\<rparr> else s)"

text \<open>The event of a packet, which \<open>mouse_info.event\<close> keeps.\<close>

definition next_event :: "u32 \<Rightarrow> int \<Rightarrow> int \<Rightarrow> 'z mouse_st_scheme \<Rightarrow> 'z mouse_st_scheme" where
  "next_event tick x y s = (let s = right_event (left_event tick x y s) in s\<lparr>m_event := event s\<rparr>)"

definition updateMouseEvent :: "u32 \<Rightarrow> int \<Rightarrow> int \<Rightarrow> ('z mouse_st_scheme, unit) km" where
  "updateMouseEvent tick x y =
     kthen (kmod (next_event tick x y))
     (kbind (kget event) (\<lambda>e.
     kthen (if e = LEFT_CLICK then handleLeftClick else kret ())
     (kthen (if e = LEFT_DOUBLE_CLICK then handleLeftDoubleClick else kret ())
     (kthen (if e = MOUSE_DRAGGING then handleMouseDrag else kret ())
     (kthen (if e = RIGHT_CLICK then handleRightClick else kret ())
     (if e = 0 then
        kbind (kget drag_state) (\<lambda>d.
        kthen (if d = 1 then updateLastWindow else kret ())
              (kmod (\<lambda>s. s\<lparr>drag_state := 0\<rparr>)))
      else kret ()))))))"

text \<open>One interrupt: \<open>st\<close> is the status from port 0x64, \<open>b\<close> the byte from port 0x60.\<close>

definition mouseint :: "u8 \<Rightarrow> u8 \<Rightarrow> u32 \<Rightarrow> ('z mouse_st_scheme, unit) km" where
  "mouseint st b tick =
     (if st AND 1 = 0 then kmod (\<lambda>s. s\<lparr>to_read := READ_MOUSE_INFO\<rparr>)
      else kbind (kget (\<lambda>s. s)) (\<lambda>s.
        if to_read s = READ_MOUSE_INFO then
          (if b AND 8 = 0 \<or> b AND 4 \<noteq> 0 then kret ()
           else kmod (\<lambda>s. s\<lparr>left_down := b AND 1 \<noteq> 0, right_down := b AND 2 \<noteq> 0,
                  x_sign := b AND 0x10 \<noteq> 0, y_sign := b AND 0x20 \<noteq> 0,
                  x_overflow := b AND 0x40 \<noteq> 0, y_overflow := b AND 0x80 \<noteq> 0,
                  to_read := READ_X_MOVEMENT\<rparr>))
        else if to_read s = READ_X_MOVEMENT then
          kmod (\<lambda>s. s\<lparr>dis_x := (if x_sign s then uint b - 256 else uint b), to_read := READ_Y_MOVEMENT\<rparr>)
        else if to_read s = READ_Y_MOVEMENT then
          let dy = - (if y_sign s then uint b - 256 else uint b) in
          kthen (kmod (\<lambda>s. s\<lparr>dis_y := dy, to_read := READ_MOUSE_INFO\<rparr>))
          (kthen (updateMouseEvent tick (x_position s + dis_x s) (y_position s + dy))
                 (moveMousePosition (dis_x s) dy))
        else kret ()))"

section \<open>The topmost window under the pointer\<close>

definition hits :: "'z gui_st_scheme \<Rightarrow> int \<Rightarrow> int \<Rightarrow> nat \<Rightarrow> bool" where
  "hits s x y i \<longleftrightarrow> (case (q_proc (wq s i), q_window (wq s i)) of
     (Some p, Some a) \<Rightarrow> inWindowRange (u_window (uspace s p) a) x y | _ \<Rightarrow> False)"

lemma hit_loop_path:
  assumes "path (wq s) windowQueue ws" "cur_proc s \<noteq> None" "length ws < n"
    "\<And>i. i \<in> set ws \<Longrightarrow> q_proc (wq s i) \<noteq> None \<and> q_window (wq s i) \<noteq> None" "q_proc (wq s windowQueue) = None"
  shows "hit_loop n x y (Some (last (windowQueue # ws))) s = (case List.find (hits s x y) (rev ws) of
     None \<Rightarrow> Fault ''switchuvm: null'' | Some i \<Rightarrow> Ok (Some i, s\<lparr>cr3 := q_proc (wq s i)\<rparr>))"
proof -
  have *: "hit_loop n x y (Some (last (windowQueue # ws))) (s\<lparr>cr3 := c\<rparr>) = (case List.find (hits s x y) (rev ws) of
     None \<Rightarrow> Fault ''switchuvm: null'' | Some i \<Rightarrow> Ok (Some i, s\<lparr>cr3 := q_proc (wq s i)\<rparr>))" for c
    using assms
  proof (induction ws arbitrary: n c rule: rev_induct)
    case Nil
    then obtain k where "n = Suc k" by (cases n) auto
    then show ?case using Nil by (simp add: node_def switchuvm_def kdefs)
  next
    case (snoc v ws)
    obtain k where n: "n = Suc k" using snoc.prems(3) by (cases n) auto
    have p: "path (wq s) windowQueue ws" "q_prev (wq s v) = Some (last (windowQueue # ws))"
      using snoc.prems(1) by (auto simp: path_append)
    obtain i a where v: "q_proc (wq s v) = Some i" "q_window (wq s v) = Some a" using snoc.prems(4) [of v] by auto
    have IH: "hit_loop k x y (Some (last (windowQueue # ws))) (s\<lparr>cr3 := Some i\<rparr>) = (case List.find (hits s x y) (rev ws) of
        None \<Rightarrow> Fault ''switchuvm: null'' | Some i \<Rightarrow> Ok (Some i, s\<lparr>cr3 := q_proc (wq s i)\<rparr>))"
      using snoc.prems n p by (intro snoc.IH) auto
    have "hit_loop n x y (Some v) (s\<lparr>cr3 := c\<rparr>) = (if hits s x y v then Ok (Some v, s\<lparr>cr3 := Some i\<rparr>)
        else hit_loop k x y (Some (last (windowQueue # ws))) (s\<lparr>cr3 := Some i\<rparr>))"
      using n v p snoc.prems(2) by (auto simp: node_def switchuvm_def the_space_def kdefs hits_def simp del: last.simps)
    then show ?case using IH v by simp
  qed
  from this [of "cr3 s"] show ?thesis by simp
qed

text \<open>The head of the queue has no owner: \<open>initWindow\<close> says so and nothing sets it.\<close>

definition head_free :: "'z gui_st_scheme \<Rightarrow> bool" where
  "head_free s \<longleftrightarrow> q_proc (wq s windowQueue) = None"

lemma clicked_top:
  assumes q: "queue s ws" and c: "cur_proc s \<noteq> None" and h: "head_free s"
  shows "getClickedWindowQueue s = (case List.find (hits s (x_position s) (y_position s)) (rev ws) of
     None \<Rightarrow> Fault ''switchuvm: null'' | Some i \<Rightarrow> Ok (Some i, s\<lparr>cr3 := q_proc (wq s i)\<rparr>))"
proof -
  note D = queue_onD [OF q [unfolded queue_def]] and Q = q [unfolded queue_def queue_on_def]
  have l: "lastWindow s = last (windowQueue # ws)" using Q by blast
  have "hit_loop (Suc (Suc MAX_WINDOW_NUM)) (x_position s) (y_position s) (Some (last (windowQueue # ws))) s
      = (case List.find (hits s (x_position s) (y_position s)) (rev ws) of
     None \<Rightarrow> Fault ''switchuvm: null'' | Some i \<Rightarrow> Ok (Some i, s\<lparr>cr3 := q_proc (wq s i)\<rparr>))"
  proof (rule hit_loop_path [OF D(3) c])
    show "q_proc (wq s i) \<noteq> None \<and> q_window (wq s i) \<noteq> None" if "i \<in> set ws" for i using Q that by blast
  qed (use D(2) h in \<open>simp_all add: head_free_def\<close>)
  then show ?thesis unfolding getClickedWindowQueue_def l by (simp add: kdefs l del: hit_loop.simps last.simps)
qed

section \<open>What focusing and clicking leave alone\<close>

text \<open>
  A part of the state that moreover does not depend on the focused icon and on
  the images of icons is left alone by \<open>focusIconView\<close> and \<open>focusDismiss\<close>.
\<close>

locale focus_frame = redraw_frame f for f :: "'z gui_st_scheme \<Rightarrow> 'b" +
  assumes f_focus: "f (s\<lparr>focusIcon := fi\<rparr>) = f s"
    and f_bg: "f (s\<lparr>bg := b\<rparr>) = f s"
    and f_isBg: "f (s\<lparr>isBg := g\<rparr>) = f s"
    and f_image: "f (s\<lparr>uspace := (uspace s)(i := (uspace s i)\<lparr>u_image := im\<rparr>)\<rparr>) = f s"
begin

lemma images [kpres_intros]: "kpres f (upd_image a g)"
  by (auto simp: upd_image_def upd_space_def Let_def f_image split: option.split intro!: kpres_intros)

lemma icon [kpres_intros]: "kpres f (draw_icon a w)" "kpres f (icon_restore a w)" "kpres f icon_unmark" "kpres f (icon_mark a w)"
proof -
  show d: "kpres f (draw_icon a w)" by (auto simp: draw_icon_def f_pixels split: option.split intro!: kpres_intros)
  show "kpres f (icon_restore a w)" unfolding icon_restore_def by (intro kpres_intros d)
  show "kpres f icon_unmark" by (auto simp: icon_unmark_def f_isBg split: option.split intro!: kpres_intros)
  have "f (s\<lparr>bg := b, isBg := g\<rparr>) = f s" for s b g using f_isBg [where s = "s\<lparr>bg := b\<rparr>"] f_bg by simp
  then show "kpres f (icon_mark a w)" by (auto simp: icon_mark_def Let_def split: option.split intro!: kpres_intros)
qed

lemma focus [kpres_intros]: "kpres f focusDismiss" "kpres f (focusIconView a)"
  by (auto simp: focusDismiss_def focusIconView_def f_focus split: option.split intro!: kpres_intros)

lemma hit [kpres_intros]: "kpres f (hit_loop n x y p)"
proof (induction n arbitrary: p)
  case 0
  show ?case unfolding hit_loop.simps by (intro kpres_intros)
next
  case (Suc n)
  show ?case unfolding hit_loop.simps by (auto intro!: kpres_intros Suc split: option.split)
qed

lemma clicked [kpres_intros]: "kpres f getClickedWindowQueue" "kpres f (getClickedWidget w)"
  by (auto simp: getClickedWindowQueue_def getClickedWidget_def Let_def split: option.split intro!: kpres_intros simp del: hit_loop.simps)

end

text \<open>The queue, and the position of the pointer.\<close>

definition gpos :: "'z gui_st_scheme \<Rightarrow> int \<times> int" where
  "gpos s = (x_position s, y_position s)"

interpretation focus_queue: focus_frame queue_part
  by unfold_locales (auto simp: queue_part_def)

interpretation focus_pos: focus_frame gpos
  by unfold_locales (auto simp: gpos_def)

text \<open>User memory up to the saved positions of windows and the images of icons.\<close>

definition layout :: "'z gui_st_scheme \<Rightarrow> nat \<Rightarrow> umem" where
  "layout s i = (uspace s i)\<lparr>u_window := (\<lambda>a. (u_window (uspace s i) a)\<lparr>last_leftTopX := 0, last_leftTopY := 0\<rparr>),
     u_image := (\<lambda>_ _. \<lparr>cB = 0, cG = 0, cR = 0\<rparr>)\<rparr>"

interpretation focus_layout: focus_frame layout
  by unfold_locales (auto simp: layout_def fun_eq_iff)

text \<open>A marked pixel belongs to a focused icon.\<close>

definition focus_ok :: "'z gui_st_scheme \<Rightarrow> bool" where
  "focus_ok s \<longleftrightarrow> (focusIcon s = None \<longrightarrow> (\<forall>i < ICON_PELS. \<not> isBg s i))"

lemma gframe_queue_part: "gframe s t \<longleftrightarrow> queue_part t = queue_part s"
  by (auto simp: gframe_def queue_part_def)

section \<open>Clicks return\<close>

definition focus_part :: "'z gui_st_scheme \<Rightarrow> nat option \<times> (nat \<Rightarrow> bool)" where
  "focus_part s = (focusIcon s, isBg s)"

interpretation focus_part_frame: redraw_frame focus_part
  by unfold_locales (auto simp: focus_part_def)

lemma focus_ok_part: "focus_part t = focus_part s \<Longrightarrow> focus_ok t = focus_ok s"
  by (simp add: focus_part_def focus_ok_def)

text \<open>What the handlers of a click keep.\<close>

definition click_frame :: "'z gui_st_scheme \<Rightarrow> 'z gui_st_scheme \<Rightarrow> bool" where
  "click_frame s t \<longleftrightarrow> same_owners s t \<and> cur_proc t = cur_proc s \<and> layout t = layout s \<and> gpos t = gpos s"

lemma click_frame_trans: "click_frame s t \<Longrightarrow> click_frame t u \<Longrightarrow> click_frame s u"
  by (simp add: click_frame_def same_owners_def)

lemma upd_image_ok: "cr3 s \<noteq> None \<Longrightarrow> kwp (upd_image f g) (\<lambda>_ t. \<exists>m. t = s\<lparr>uspace := m\<rparr>) s"
  by (auto simp: upd_image_def upd_space_def split: option.split)

lemma draw_icon_ok: "cr3 s \<noteq> None \<Longrightarrow> kwp (draw_icon f (Some a)) (\<lambda>_ t. \<exists>v. t = s\<lparr>pixels := v\<rparr>) s"
  by (auto simp: draw_icon_def the_space_def split: option.split)

definition icon_keep :: "'z gui_st_scheme \<Rightarrow> 'z gui_st_scheme \<Rightarrow> bool" where
  "icon_keep s t \<longleftrightarrow> cr3 t = cr3 s \<and> cur_proc t = cur_proc s \<and> focusIcon t = focusIcon s"

lemma icon_restore_ok: "cr3 s \<noteq> None \<Longrightarrow> kwp (icon_restore f (Some a)) (\<lambda>_ t. icon_keep s t \<and> isBg t = isBg s) s"
  unfolding icon_restore_def
  by (auto simp: icon_keep_def intro!: kwp_mono [OF upd_image_ok] kwp_mono [OF draw_icon_ok])

lemma icon_unmark_ok: "cr3 s \<noteq> None \<Longrightarrow> focus_ok s \<Longrightarrow> kwp icon_unmark (\<lambda>_ t. icon_keep s t \<and> (\<forall>i < ICON_PELS. \<not> isBg t i)) s"
  unfolding icon_unmark_def
  by (auto simp: icon_keep_def focus_ok_def list_ex_iff split: option.split intro!: kwp_mono [OF upd_image_ok])

lemma icon_mark_ok: "cr3 s \<noteq> None \<Longrightarrow> kwp (icon_mark f (Some a)) (\<lambda>_ t. icon_keep s t) s"
  unfolding icon_mark_def
  by (auto simp: icon_keep_def Let_def the_space_def split: option.split intro!: kwp_mono [OF upd_image_ok])

lemma restore_vm_ok: "cur_proc s \<noteq> None \<Longrightarrow> kwp restore_vm (\<lambda>_ t. t = s\<lparr>cr3 := cur_proc s\<rparr>) s"
  by (auto simp: restore_vm_def switchuvm_def)

lemma focusDismiss_ok:
  assumes q: "queue s ws" and ne: "ws \<noteq> []" and c: "cur_proc s \<noteq> None" and f: "focus_ok s"
  shows "kwp focusDismiss (\<lambda>_ t. focus_ok t) s"
proof -
  obtain i a where l: "q_proc (wq s (lastWindow s)) = Some i" "q_window (wq s (lastWindow s)) = Some a"
    by (rule queue_last [OF q ne])
  let ?s = "s\<lparr>cr3 := Some i\<rparr>"
  have "kwp (case focusIcon s of None \<Rightarrow> kret () | Some f \<Rightarrow> icon_restore f (Some a)) (\<lambda>_ t. icon_keep ?s t \<and> isBg t = isBg s) ?s"
    using icon_restore_ok [of ?s _ a] by (auto simp: icon_keep_def split: option.split)
  then have "kwp (case focusIcon s of None \<Rightarrow> kret () | Some f \<Rightarrow> icon_restore f (Some a))
      (\<lambda>_. kwp icon_unmark (\<lambda>_. kwp (kthen (kmod (\<lambda>s. s\<lparr>focusIcon := None\<rparr>)) restore_vm) (\<lambda>_ t. focus_ok t))) ?s"
  proof (rule kwp_mono)
    fix x t assume t: "icon_keep ?s t \<and> isBg t = isBg s"
    then have "kwp icon_unmark (\<lambda>_ u. icon_keep t u \<and> (\<forall>i < ICON_PELS. \<not> isBg u i)) t"
      using f by (intro icon_unmark_ok) (auto simp: icon_keep_def focus_ok_def)
    then show "kwp icon_unmark (\<lambda>_. kwp (kthen (kmod (\<lambda>s. s\<lparr>focusIcon := None\<rparr>)) restore_vm) (\<lambda>_ t. focus_ok t)) t"
      by (rule kwp_mono) (use t c in \<open>auto simp: icon_keep_def focus_ok_def intro!: kwp_mono [OF restore_vm_ok]\<close>)
  qed
  then show ?thesis using l c by (auto simp: focusDismiss_def node_def switchuvm_def cong: option.case_cong)
qed

lemma focusIconView_ok:
  assumes q: "queue s ws" and ne: "ws \<noteq> []" and c: "cur_proc s \<noteq> None"
  shows "kwp (focusIconView k) (\<lambda>_ t. focus_ok t) s"
proof -
  obtain i a where l: "q_proc (wq s (lastWindow s)) = Some i" "q_window (wq s (lastWindow s)) = Some a"
    by (rule queue_last [OF q ne])
  let ?s = "s\<lparr>cr3 := Some i\<rparr>"
  have "kwp (case focusIcon s of None \<Rightarrow> kret () | Some f \<Rightarrow> kthen (icon_restore f (Some a)) icon_unmark) (\<lambda>_ t. icon_keep ?s t) ?s"
  proof (cases "focusIcon s")
    case (Some f)
    have "kwp (icon_restore f (Some a)) (\<lambda>_ t. kwp icon_unmark (\<lambda>_ u. icon_keep ?s u) t) ?s"
    proof (rule kwp_mono [OF icon_restore_ok])
      fix x t assume "icon_keep ?s t \<and> isBg t = isBg ?s"
      then show "kwp icon_unmark (\<lambda>_ u. icon_keep ?s u) t"
        using Some by (intro kwp_mono [OF icon_unmark_ok]) (auto simp: icon_keep_def focus_ok_def)
    qed simp
    then show ?thesis using Some by simp
  qed (simp add: icon_keep_def)
  then have "kwp (case focusIcon s of None \<Rightarrow> kret () | Some f \<Rightarrow> kthen (icon_restore f (Some a)) icon_unmark)
      (\<lambda>_. kwp (kthen (kmod (\<lambda>s. s\<lparr>focusIcon := Some k\<rparr>)) (kthen (icon_mark k (Some a)) (kthen (draw_icon k (Some a)) restore_vm)))
        (\<lambda>_ t. focus_ok t)) ?s"
    by (rule kwp_mono) (use c in \<open>auto simp: icon_keep_def focus_ok_def
      intro!: kwp_mono [OF icon_mark_ok] kwp_mono [OF draw_icon_ok] kwp_mono [OF restore_vm_ok]\<close>)
  then show ?thesis using l c by (auto simp: focusIconView_def node_def switchuvm_def focus_ok_def cong: option.case_cong)
qed

lemma focus_wp:
  assumes q: "queue s ws" and ne: "ws \<noteq> []" and c: "cur_proc s \<noteq> None"
  shows "focus_ok s \<Longrightarrow> kwp focusDismiss (\<lambda>_ t. gframe s t \<and> click_frame s t \<and> focus_ok t) s"
    "kwp (focusIconView k) (\<lambda>_ t. gframe s t \<and> click_frame s t \<and> focus_ok t) s"
proof -
  have *: "kwp m (\<lambda>_ t. gframe s t \<and> click_frame s t \<and> focus_ok t) s"
    if m: "kwp m (\<lambda>_ t. focus_ok t) s" and p: "kpres queue_part m" "kpres layout m" "kpres gpos m" for m :: "('a gui_st_scheme, unit) km"
  proof -
    obtain t where t: "m s = Ok ((), t)" "focus_ok t" using m by (auto simp: kwp_Ok)
    then show ?thesis using p [THEN kpresD, OF t(1)]
      by (auto simp: kwp_Ok gframe_queue_part click_frame_def queue_part_def same_owners_def)
  qed
  show "focus_ok s \<Longrightarrow> kwp focusDismiss (\<lambda>_ t. gframe s t \<and> click_frame s t \<and> focus_ok t) s"
    by (intro * focusDismiss_ok [OF q ne c] kpres_intros)
  show "kwp (focusIconView k) (\<lambda>_ t. gframe s t \<and> click_frame s t \<and> focus_ok t) s"
    by (intro * focusIconView_ok [OF q ne c] kpres_intros)
qed

lemma reorderQueue_wp:
  assumes q: "queue s ws" and i: "i \<in> set (butlast ws)" and c: "cur_proc s \<noteq> None" and f: "focus_ok s"
  shows "kwp (reorderQueue i) (\<lambda>_ t. queue t (remove1 i ws @ [i]) \<and> click_frame s t \<and> focus_ok t) s"
  unfolding reorderQueue_def kwp_then
proof (rule kwp_mono [OF raise_locked [OF q i]])
  fix x t assume t: "queue t (remove1 i ws @ [i]) \<and> same_owners s t \<and> (\<exists>B. t = s\<lparr>wq := B, lastWindow := i\<rparr>)"
  then have "kwp updateBackWindows (\<lambda>_ u. gframe t u) t" using c by (intro updateBackWindows_wp) auto
  then obtain u where u: "updateBackWindows t = Ok ((), u)" "gframe t u" by (auto simp: kwp_Ok)
  have "layout u = layout t" "gpos u = gpos t" "focus_part u = focus_part t"
    using kpresD [OF focus_layout.redraw(1) u(1)] kpresD [OF focus_pos.redraw(1) u(1)] kpresD [OF focus_part_frame.redraw(1) u(1)] by auto
  moreover have "layout t = layout s" "gpos t = gpos s" "focus_part t = focus_part s" "cur_proc t = cur_proc s"
    using t by (auto simp: layout_def gpos_def focus_part_def)
  ultimately have "click_frame s u" "focus_ok u"
    using t u(2) f focus_ok_part [of u s] by (auto simp: click_frame_def same_owners_def gframe_def)
  then show "kwp updateBackWindows (\<lambda>_ t. queue t (remove1 i ws @ [i]) \<and> click_frame s t \<and> focus_ok t) t"
    using u t by (auto simp: kwp_Ok queue_gframe)
qed

text \<open>The widget of window \<open>i\<close> under the pointer: the last one in the window's array that contains it.\<close>

definition clicked_widget :: "'z gui_st_scheme \<Rightarrow> nat \<Rightarrow> widget option" where
  "clicked_widget s i = (case (q_proc (wq s i), q_window (wq s i)) of
     (Some p, Some a) \<Rightarrow> let m = layout s p; w = u_window m a in
       List.find (\<lambda>wd. inWidgetRange m w wd (fst (gpos s)) (snd (gpos s))) (rev (widgets w))
   | _ \<Rightarrow> None)"

lemma clicked_widget_frame: "click_frame s t \<Longrightarrow> clicked_widget t i = clicked_widget s i"
  by (simp add: clicked_widget_def click_frame_def same_owners_def split: option.split)

lemma inWidgetRange_layout: "inWidgetRange (layout s p) (u_window (layout s p) a) wd x y = inWidgetRange (uspace s p) (u_window (uspace s p) a) wd x y"
  by (simp add: inWidgetRange_def layout_def split: widget.split)

lemma getClickedWidget_eq:
  "q_proc (wq s i) = Some p \<Longrightarrow> q_window (wq s i) = Some a \<Longrightarrow> cr3 s = Some p \<Longrightarrow> getClickedWidget (Some a) s = Ok (clicked_widget s i, s)"
  using inWidgetRange_layout [of s p a]
  by (simp add: getClickedWidget_def clicked_widget_def the_space_def kdefs Let_def gpos_def) (simp add: layout_def)

definition clicked :: "'z gui_st_scheme \<Rightarrow> nat \<Rightarrow> 'z gui_st_scheme \<Rightarrow> bool" where
  "clicked s i t \<longleftrightarrow> (\<forall>p b. q_proc (wq s i) = Some p \<and> clicked_widget s i = Some (WButton b) \<longrightarrow> b_triggered (u_button (uspace t p) b))"

lemma switchuvm_wp [simp]: "kwp (switchuvm (Some p)) Q s \<longleftrightarrow> cur_proc s \<noteq> None \<and> Q () (s\<lparr>cr3 := Some p\<rparr>)"
  by (simp add: switchuvm_def)

lemma queue_upd [simp]: "queue (s\<lparr>cr3 := x\<rparr>) ws = queue s ws" "queue (s\<lparr>uspace := m\<rparr>) ws = queue s ws"
  "focus_ok (s\<lparr>cr3 := x\<rparr>) = focus_ok s" "focus_ok (s\<lparr>uspace := m\<rparr>) = focus_ok s"
  by (simp_all add: queue_def focus_ok_def)

lemma click_widget_wp:
  assumes q: "queue s ws" and i: "i \<in> set ws" and c: "cur_proc s \<noteq> None" and f: "focus_ok s" and r: "cr3 s = q_proc (wq s i)"
  shows "kwp (click_widget i) (\<lambda>_ t. queue t ws \<and> focus_ok t \<and> cur_proc t = cur_proc s \<and> clicked s i t) s"
proof -
  obtain p a where o: "q_proc (wq s i) = Some p" "q_window (wq s i) = Some a"
    using q i unfolding queue_def queue_on_def by blast
  have ne: "ws \<noteq> []" using i by auto
  have D: "kwp focusDismiss Q s" if "\<And>t. queue t ws \<Longrightarrow> cur_proc t = cur_proc s \<Longrightarrow> focus_ok t \<Longrightarrow> Q () t" for Q
    by (rule kwp_mono [OF focus_wp(1) [OF q ne c f]]) (use q that in \<open>auto simp: queue_gframe click_frame_def\<close>)
  have F: "kwp (focusIconView k) Q s" if "\<And>t. queue t ws \<Longrightarrow> cur_proc t = cur_proc s \<Longrightarrow> focus_ok t \<Longrightarrow> Q () t" for Q k
    by (rule kwp_mono [OF focus_wp(2) [OF q ne c]]) (use q that in \<open>auto simp: queue_gframe click_frame_def\<close>)
  have "kwp (click_widget i) Q s = kwp (case clicked_widget s i of
       None \<Rightarrow> kthen focusDismiss (switchuvm (Some p))
     | Some (WButton a) \<Rightarrow> kthen focusDismiss (kthen (switchuvm (Some p)) (trigger_button a))
     | Some (WImageView a) \<Rightarrow> kthen focusDismiss (kthen (switchuvm (Some p)) (trigger_image a))
     | Some (WIconView a) \<Rightarrow> focusIconView a
     | Some _ \<Rightarrow> kthen focusDismiss (switchuvm (Some p))) Q s" for Q
    using getClickedWidget_eq [OF o] r o by (simp add: click_widget_def node_def kwp_def kbind_def kget_def)
  then show ?thesis using c o
    by (auto simp: clicked_def trigger_button_def trigger_image_def upd_space_def split: option.split widget.split intro!: D F)
qed

lemma clicked_frame: "click_frame s t \<Longrightarrow> clicked t i u = clicked s i u"
  using clicked_widget_frame [of s t i] by (simp add: clicked_def click_frame_def same_owners_def)

lemma raise_and_click:
  assumes q: "queue s ws" and i: "i \<in> set (butlast ws)" and c: "cur_proc s \<noteq> None" and f: "focus_ok s"
  shows "kwp (kthen (kthen focusDismiss (kthen (reorderQueue i) (kbind (node i) (\<lambda>q. switchuvm (q_proc q))))) (click_widget i))
    (\<lambda>_ t. queue t (remove1 i ws @ [i]) \<and> focus_ok t \<and> cur_proc t = cur_proc s \<and> clicked s i t) s"
proof -
  let ?ws = "remove1 i ws @ [i]" and ?go = "kbind (node i) (\<lambda>q. switchuvm (q_proc q))"
  have ne: "ws \<noteq> []" using i by auto
  have C: "kwp (kthen ?go (click_widget i)) (\<lambda>_ t. queue t ?ws \<and> focus_ok t \<and> cur_proc t = cur_proc s \<and> clicked s i t) u"
    if u: "queue u ?ws" "click_frame s u" "focus_ok u" for u
  proof -
    have "i < MAX_WINDOW_NUM" using u(1) by (simp add: queue_def queue_on_def)
    then obtain p where p: "q_proc (wq u i) = Some p" using u(1) unfolding queue_def queue_on_def by auto
    let ?v = "u\<lparr>cr3 := Some p\<rparr>"
    have v: "click_frame s ?v" using u(2) by (auto simp: click_frame_def same_owners_def layout_def gpos_def fun_eq_iff)
    have "kwp (click_widget i) (\<lambda>_ t. queue t ?ws \<and> focus_ok t \<and> cur_proc t = cur_proc ?v \<and> clicked ?v i t) ?v"
      by (rule click_widget_wp) (use u c p in \<open>simp_all add: click_frame_def\<close>)
    then show ?thesis
      using p u(2) c clicked_frame [OF v] by (auto simp: node_def click_frame_def elim!: kwp_mono)
  qed
  have B: "kwp (reorderQueue i) (\<lambda>_. kwp (kthen ?go (click_widget i))
      (\<lambda>_ t. queue t ?ws \<and> focus_ok t \<and> cur_proc t = cur_proc s \<and> clicked s i t)) t"
    if t: "queue t ws" "click_frame s t" "focus_ok t" for t
    by (rule kwp_mono [OF reorderQueue_wp [OF t(1) i _ t(3)]])
      (use t c in \<open>auto simp: click_frame_def simp del: kwp_then intro!: C [unfolded click_frame_def] simp: same_owners_def\<close>)
  have "kwp focusDismiss (\<lambda>_. kwp (reorderQueue i) (\<lambda>_. kwp (kthen ?go (click_widget i))
      (\<lambda>_ t. queue t ?ws \<and> focus_ok t \<and> cur_proc t = cur_proc s \<and> clicked s i t))) s"
    by (rule kwp_mono [OF focus_wp(1) [OF q ne c f]], rule B) (use q in \<open>auto simp: queue_gframe\<close>)
  then show ?thesis by simp
qed

text \<open>
  C13: A left click goes to the topmost window under the pointer. It returns; the
  window is raised to the top unless it is the desktop (handle 0), no other
  window changes places, and when the topmost widget under the pointer is a button
  its click handler is marked for its process.
\<close>

theorem click_raises_topmost:
  assumes q: "queue s ws" and c: "cur_proc s \<noteq> None" and h: "head_free s" and f: "focus_ok s"
    and i: "List.find (hits s (x_position s) (y_position s)) (rev ws) = Some i"
  shows "\<exists>t. handleLeftClick s = Ok ((), t) \<and> queue t (if i = 0 then ws else remove1 i ws @ [i])
    \<and> (i = 0 \<and> last ws \<noteq> 0 \<or> clicked s i t) \<and> focus_ok t"
proof -
  let ?s = "s\<lparr>cr3 := q_proc (wq s i)\<rparr>"
  have iw: "i \<in> set ws" using find_SomeD [OF i] by simp
  then have ne: "ws \<noteq> []" by auto
  have l: "lastWindow s = last ws" using q ne by (simp add: queue_def queue_on_def)
  have eq: "getClickedWindowQueue s = Ok (Some i, ?s)" using clicked_top [OF q c h] i by simp
  have qs: "queue ?s ws" "focus_ok ?s" "cur_proc ?s \<noteq> None" using q f c by (auto simp: queue_def focus_ok_def)
  have same: "clicked_widget ?s j = clicked_widget s j" for j by (rule clicked_widget_frame) (simp add: click_frame_def same_owners_def layout_def gpos_def fun_eq_iff)
  have owner: "q_proc (wq s i) \<noteq> None" using q iw unfolding queue_def queue_on_def by blast
  let ?Q = "\<lambda>_ t. queue t (if i = 0 then ws else remove1 i ws @ [i]) \<and> (i = 0 \<and> last ws \<noteq> 0 \<or> clicked s i t) \<and> focus_ok t"
  have rv: "kwp restore_vm ?Q t" if "?Q () t" "cur_proc t \<noteq> None" for t
    using that by (auto intro!: kwp_mono [OF restore_vm_ok] simp: queue_def focus_ok_def clicked_def)
  show ?thesis
  proof (cases "i = last ws")
    case True
    have "remove1 i ws @ [i] = ws" using True q ne by (cases ws rule: rev_cases) (auto simp: queue_def queue_on_def remove1_append)
    moreover have "kwp (click_widget i) (\<lambda>_ t. queue t ws \<and> focus_ok t \<and> cur_proc t = cur_proc ?s \<and> clicked ?s i t) ?s"
      by (rule click_widget_wp [OF qs(1) iw qs(3,2)]) simp
    ultimately have "kwp (kthen (click_widget i) restore_vm) ?Q ?s"
      using c same unfolding kwp_then by (elim kwp_mono, intro rv) (auto simp: clicked_def)
    then show ?thesis using eq True l by (simp add: handleLeftClick_def kdefs kwp_Ok)
  next
    case False
    then have b: "i \<in> set (butlast ws)" using iw ne by (metis append_butlast_last_id in_set_conv_decomp in_set_butlast_appendI rotate1.simps(2) set_ConsD set_rotate1)
    show ?thesis
    proof (cases "i = 0")
      case True
      then have "kwp restore_vm ?Q ?s" using qs \<open>i \<noteq> last ws\<close> by (intro rv) auto
      then show ?thesis using eq True l \<open>i \<noteq> last ws\<close> by (simp add: handleLeftClick_def kdefs kwp_Ok)
    next
      case nz: False
      have "clicked ?s i t = clicked s i t" for t using same by (simp add: clicked_def)
      then have "kwp (kthen (kthen focusDismiss (kthen (reorderQueue i) (kbind (node i) (\<lambda>q. switchuvm (q_proc q))))) (kthen (click_widget i) restore_vm)) ?Q ?s"
        using raise_and_click [OF qs(1) b qs(3,2)] nz c unfolding kwp_then kwp_bind
        by (elim kwp_mono, intro rv) auto
      then show ?thesis using eq nz False l by (simp add: handleLeftClick_def kdefs kwp_Ok)
    qed
  qed
qed

text \<open>Three windows side by side, and the pointer on the middle one of the queue.\<close>

definition demo_click :: gui_st where
  "demo_click = (demo_gui [0, 2, 1])\<lparr>x_position := 750, y_position := 60,
     uspace := (\<lambda>p. demo_umem\<lparr>u_window := (\<lambda>_. demo_window\<lparr>leftTopX := 300 * (int p - 10), widgets := [WButton 8]\<rparr>),
       u_button := (\<lambda>_. \<lparr>b_image = None, b_leftTopX = 100, b_leftTopY = 0, b_width = 90, b_height = 40, b_text = [], b_triggered = False\<rparr>)\<rparr>)\<rparr>"

lemma demo_click_hits: "List.find (hits demo_click 750 60) (rev [0, 2, 1]) = Some 2"
  by (simp add: demo_click_def demo_gui_def demo_queue_def hits_def inWindowRange_def in_rect_def demo_window_def demo_umem_def upt_rec MAX_WINDOW_NUM_def Let_def)

lemma demo_click_ok: "queue demo_click [0, 2, 1]" "cur_proc demo_click \<noteq> None" "head_free demo_click" "focus_ok demo_click"
proof -
  show "queue demo_click [0, 2, 1]" using demo_gui_queue(1) by (simp add: demo_click_def queue_def)
qed (simp_all add: demo_click_def demo_gui_def head_free_def focus_ok_def demo_queue_def upt_rec MAX_WINDOW_NUM_def Let_def)

theorem click_raises_topmost_witness:
  "\<exists>t. handleLeftClick demo_click = Ok ((), t) \<and> queue t [0, 1, 2] \<and> b_triggered (u_button (uspace t 12) 8)"
proof -
  have "clicked_widget demo_click 2 = Some (WButton 8)"
    by (simp add: clicked_widget_def demo_click_def demo_gui_def demo_queue_def layout_def gpos_def inWidgetRange_def in_rect_def
        demo_window_def demo_umem_def upt_rec MAX_WINDOW_NUM_def Let_def)
  moreover have "q_proc (wq demo_click 2) = Some 12" by (simp add: demo_click_def demo_gui_def demo_queue_def upt_rec MAX_WINDOW_NUM_def Let_def)
  moreover have "x_position demo_click = 750" "y_position demo_click = 60" by (simp_all add: demo_click_def)
  ultimately show ?thesis
    using click_raises_topmost [OF demo_click_ok] demo_click_hits by (fastforce simp: clicked_def)
qed

text \<open>
  C39: A click where no window is makes the walk along the queue reach its head,
  which has no process, and fault. The pointer can be there: \<open>setMousePosition\<close>
  lets it go to column 1280, one past the last column of the screen.
\<close>

theorem click_outside_faults:
  assumes "queue s ws" "cur_proc s \<noteq> None" "head_free s" "\<And>i. i \<in> set ws \<Longrightarrow> \<not> hits s (x_position s) (y_position s) i"
  shows "handleLeftClick s = Fault ''switchuvm: null'' \<and> (\<exists>t. setMousePosition 5000 0 s = Ok ((), t) \<and> x_position t = SCREEN_WIDTH)"
proof -
  have "List.find (hits s (x_position s) (y_position s)) (rev ws) = None" using assms(4) by (simp add: find_None_iff)
  then have "getClickedWindowQueue s = Fault ''switchuvm: null''" using clicked_top [OF assms(1-3)] by simp
  then show ?thesis
    by (simp add: handleLeftClick_def setMousePosition_def updateMouse_def remove_mouse_def draw_mouse_def kdefs Let_def SCREEN_WIDTH_def)
qed

theorem click_outside_faults_witness:
  "queue (demo_click\<lparr>x_position := 1280\<rparr>) [0, 2, 1] \<and> handleLeftClick (demo_click\<lparr>x_position := 1280\<rparr>) = Fault ''switchuvm: null''"
proof -
  have "queue (demo_click\<lparr>x_position := 1280\<rparr>) [0, 2, 1]" using demo_click_ok(1) by (simp add: queue_def)
  moreover have "cur_proc (demo_click\<lparr>x_position := 1280\<rparr>) \<noteq> None" "head_free (demo_click\<lparr>x_position := 1280\<rparr>)"
    using demo_click_ok(2,3) by (simp_all add: head_free_def)
  moreover have "\<not> hits (demo_click\<lparr>x_position := 1280\<rparr>) (x_position (demo_click\<lparr>x_position := 1280\<rparr>)) (y_position (demo_click\<lparr>x_position := 1280\<rparr>)) i"
    if "i \<in> set [0, 2, 1]" for i
    using that by (auto simp: demo_click_def demo_gui_def demo_queue_def hits_def inWindowRange_def in_rect_def demo_window_def demo_umem_def upt_rec MAX_WINDOW_NUM_def Let_def)
  ultimately show ?thesis using click_outside_faults [of "demo_click\<lparr>x_position := 1280\<rparr>" "[0, 2, 1]"] by blast
qed

section \<open>The pointer\<close>

definition on_screen :: "'z gui_st_scheme \<Rightarrow> bool" where
  "on_screen s \<longleftrightarrow> 0 \<le> x_position s \<and> x_position s \<le> SCREEN_WIDTH \<and> 0 \<le> y_position s \<and> y_position s \<le> SCREEN_HEIGHT"

lemma gpos_upd_space [kpres_intros]: "kpres gpos (upd_space f)"
  by (auto simp: upd_space_def gpos_def split: option.split intro!: kpres_intros)

lemma gpos_handlers [kpres_intros]:
  "kpres gpos (reorderQueue i)" "kpres gpos (moveWindow w fx fy tx ty d)" "kpres gpos (click_widget i)"
  "kpres gpos handleLeftClick" "kpres gpos handleLeftDoubleClick" "kpres gpos handleRightClick"
proof -
  show r: "kpres gpos (reorderQueue i)" for i
    by (auto simp: reorderQueue_def reorder_locked_def gpos_def Let_def split: option.split intro!: kpres_intros)
  show "kpres gpos (moveWindow w fx fy tx ty d)"
    by (auto simp: moveWindow_def Let_def split: option.split prod.split intro!: kpres_intros)
  show c: "kpres gpos (click_widget i)" for i
    unfolding click_widget_def trigger_button_def trigger_image_def
    by (auto split: option.split widget.split intro!: kpres_intros)
  show "kpres gpos handleLeftClick"
    unfolding handleLeftClick_def by (auto split: option.split intro!: kpres_intros r c)
  show "kpres gpos handleLeftDoubleClick" "kpres gpos handleRightClick"
    unfolding handleLeftDoubleClick_def handleRightClick_def trigger_icon_def
    by (auto split: option.split widget.split intro!: kpres_intros)
qed

lemma gpos_drag [kpres_intros]: "kpres gpos handleMouseDrag"
  unfolding handleMouseDrag_def getDraggedWindowQueue_def
  by (auto simp: Let_def gpos_def split: option.split intro!: kpres_intros simp del: hit_loop.simps)

lemma gpos_event [kpres_intros]: "kpres gpos (updateMouseEvent tick x y)"
  unfolding updateMouseEvent_def
  by (auto simp: gpos_def next_event_def right_event_def left_event_def Let_def intro!: kpres_intros)

lemma setMousePosition_wp: "kwp (setMousePosition x y) (\<lambda>_ t. on_screen t \<and> gpos t = (max 0 (min SCREEN_WIDTH x), max 0 (min SCREEN_HEIGHT y))) s"
  by (simp add: setMousePosition_def updateMouse_def remove_mouse_def draw_mouse_def on_screen_def gpos_def Let_def SCREEN_WIDTH_def SCREEN_HEIGHT_def max_def min_def)

text \<open>A sequence of interrupts, each with the two bytes it reads and the time.\<close>

primrec mouse_ints :: "(u8 \<times> u8 \<times> u32) list \<Rightarrow> ('z mouse_st_scheme, unit) km" where
  "mouse_ints [] = kret ()"
| "mouse_ints (i # is) = (case i of (st, b, tick) \<Rightarrow> kthen (mouseint st b tick) (mouse_ints is))"

lemma mouseint_on_screen:
  assumes "on_screen s" "mouseint st b tick s = Ok (x, t)"
  shows "on_screen t"
proof (cases "st AND 1 \<noteq> 0 \<and> to_read s = READ_Y_MOVEMENT")
  case False
  then show ?thesis using assms by (auto simp: mouseint_def kdefs on_screen_def split: if_splits)
next
  case True
  define dy where "dy = - (if y_sign s then uint b - 256 else uint b)"
  have "mouseint st b tick s = kthen (updateMouseEvent tick (x_position s + dis_x s) (y_position s + dy))
      (moveMousePosition (dis_x s) dy) (s\<lparr>dis_y := dy, to_read := READ_MOUSE_INFO\<rparr>)"
    using True by (simp add: mouseint_def kdefs dy_def Let_def READ_MOUSE_INFO_def READ_X_MOVEMENT_def READ_Y_MOVEMENT_def)
  then obtain u where "moveMousePosition (dis_x s) dy u = Ok (x, t)"
    using assms(2) by (auto simp: kthen_def kbind_def split: res.splits)
  then show ?thesis using setMousePosition_wp [of "x_position u + dis_x s" "y_position u + dy" u]
    by (simp add: moveMousePosition_def kdefs kwp_def)
qed


definition demo_mouse :: mouse_st where
  "demo_mouse = gui_st.extend demo_click \<lparr>to_read = 1, left_down = False, right_down = False, x_sign = False, y_sign = False,
     x_overflow = False, y_overflow = False, counter = 0, isdraw = False, dis_x = 0, dis_y = 0, left_btn_down = False,
     down_pos_x = 0, down_pos_y = 0, right_btn_down = False, last_tick = -30, event = 0, drag_state = 0, pwque = None\<rparr>"

text \<open>Bit 3 of a packet's first byte is set and the other bits are flags: no button is down.\<close>

definition move_header :: "u8 \<Rightarrow> bool" where
  "move_header b \<longleftrightarrow> b AND 8 \<noteq> 0 \<and> b AND 4 = 0 \<and> b AND 1 = 0 \<and> b AND 2 = 0"

definition movement :: "bool \<Rightarrow> u8 \<Rightarrow> int" where
  "movement neg b = (if neg then uint b - 256 else uint b)"

text \<open>
  C26: The three bytes of a movement packet move the pointer by the two signed
  nine-bit displacements they carry (the vertical one counts upwards), cut off at
  the edges of the screen, and leave the decoder ready for the next packet.
\<close>

theorem movement_packet:
  assumes "to_read s = READ_MOUSE_INFO" "move_header b0" "st AND 1 \<noteq> 0" "\<not> left_btn_down s" "\<not> right_btn_down s" "drag_state s \<noteq> 1"
  shows "\<exists>t. mouse_ints [(st, b0, t0), (st, b1, t1), (st, b2, t2)] s = Ok ((), t) \<and> to_read t = READ_MOUSE_INFO
    \<and> x_position t = max 0 (min SCREEN_WIDTH (x_position s + movement (b0 AND 0x10 \<noteq> 0) b1))
    \<and> y_position t = max 0 (min SCREEN_HEIGHT (y_position s - movement (b0 AND 0x20 \<noteq> 0) b2))"
proof -
  define s1 where "s1 = s\<lparr>left_down := False, right_down := False, x_sign := b0 AND 0x10 \<noteq> 0, y_sign := b0 AND 0x20 \<noteq> 0,
     x_overflow := b0 AND 0x40 \<noteq> 0, y_overflow := b0 AND 0x80 \<noteq> 0, to_read := READ_X_MOVEMENT\<rparr>"
  define s2 where "s2 = s1\<lparr>dis_x := movement (b0 AND 0x10 \<noteq> 0) b1, to_read := READ_Y_MOVEMENT\<rparr>"
  note R = READ_MOUSE_INFO_def READ_X_MOVEMENT_def READ_Y_MOVEMENT_def
  have 1: "mouseint st b0 t0 s = Ok ((), s1)" using assms by (simp add: mouseint_def kdefs move_header_def s1_def)
  have f1: "to_read s1 = 2" "x_sign s1 = (b0 AND 0x10 \<noteq> 0)" by (simp_all add: s1_def R)
  have 2: "mouseint st b1 t1 s1 = Ok ((), s2)"
    using assms(3) f1 by (simp add: mouseint_def kget_def kbind_def kmod_def R s2_def movement_def)
  have f2: "to_read s2 = 3" "y_sign s2 = (b0 AND 0x20 \<noteq> 0)" "x_position s2 = x_position s" "y_position s2 = y_position s"
    "dis_x s2 = movement (b0 AND 0x10 \<noteq> 0) b1" "\<not> left_down s2" "\<not> right_down s2" "\<not> left_btn_down s2" "\<not> right_btn_down s2" "drag_state s2 \<noteq> 1"
    using assms(4-6) by (simp_all add: s2_def s1_def R)
  let ?dy = "- movement (b0 AND 0x20 \<noteq> 0) b2"
  let ?s3 = "s2\<lparr>dis_y := ?dy, to_read := READ_MOUSE_INFO\<rparr>"
  have 3: "mouseint st b2 t2 s2 = kthen (updateMouseEvent t2 (x_position s + dis_x s2) (y_position s + ?dy)) (moveMousePosition (dis_x s2) ?dy) ?s3"
    using assms(3) f2(1-4) by (simp add: mouseint_def kget_def kbind_def kmod_def kthen_def R Let_def movement_def)
  have 4: "updateMouseEvent t2 x y ?s3 = Ok ((), ?s3\<lparr>event := 0, m_event := 0, drag_state := 0\<rparr>)" for x y
    using f2(6-10) by (simp add: updateMouseEvent_def next_event_def left_event_def right_event_def kdefs Let_def
        LEFT_CLICK_def LEFT_DOUBLE_CLICK_def RIGHT_CLICK_def MOUSE_DRAGGING_def)
  define s4 where "s4 = ?s3\<lparr>event := 0, m_event := 0, drag_state := 0\<rparr>"
  have f4: "x_position s4 = x_position s" "y_position s4 = y_position s" "to_read s4 = READ_MOUSE_INFO" using f2 by (simp_all add: s4_def)
  have "\<exists>t. moveMousePosition (dis_x s2) ?dy s4 = Ok ((), t) \<and> to_read t = READ_MOUSE_INFO
      \<and> gpos t = (max 0 (min SCREEN_WIDTH (x_position s + dis_x s2)), max 0 (min SCREEN_HEIGHT (y_position s + ?dy)))"
    using f4 by (simp add: moveMousePosition_def setMousePosition_def updateMouse_def remove_mouse_def draw_mouse_def kdefs gpos_def Let_def
        max_def min_def SCREEN_WIDTH_def SCREEN_HEIGHT_def)
  then show ?thesis using 1 2 3 4 f2(5) by (auto simp: kthen_def kbind_def kret_def gpos_def s4_def)
qed

theorem movement_packet_witness:
  "\<exists>t. mouse_ints [(1, 0x18, 0), (1, 251, 0), (1, 7, 0)] demo_mouse = Ok ((), t) \<and> x_position t = 745 \<and> y_position t = 53"
proof -
  have "to_read demo_mouse = READ_MOUSE_INFO" "\<not> left_btn_down demo_mouse" "\<not> right_btn_down demo_mouse" "drag_state demo_mouse \<noteq> 1"
    "x_position demo_mouse = 750" "y_position demo_mouse = 60"
    by (simp_all add: demo_mouse_def gui_st.defs READ_MOUSE_INFO_def demo_click_def demo_gui_def)
  then show ?thesis
    using movement_packet [of demo_mouse "0x18" 1 0 251 0 7 0]
    by (simp add: move_header_def movement_def SCREEN_WIDTH_def SCREEN_HEIGHT_def) blast
qed


section \<open>Clicks and double clicks\<close>

definition button_step :: "u32 \<Rightarrow> bool \<Rightarrow> 'z mouse_st_scheme \<Rightarrow> 'z mouse_st_scheme" where
  "button_step tick d s = next_event tick 0 0 (s\<lparr>left_down := d\<rparr>)"

definition click :: "u32 \<Rightarrow> u32 \<Rightarrow> 'z mouse_st_scheme \<Rightarrow> 'z mouse_st_scheme" where
  "click down up s = button_step up False (button_step down True s)"

lemma click_event:
  assumes "\<not> left_btn_down s" "\<not> right_down s" "\<not> right_btn_down s"
  shows "event (click down up s) = (if up - last_tick s \<le> 30 then LEFT_DOUBLE_CLICK else LEFT_CLICK)"
    "last_tick (click down up s) = (if up - last_tick s \<le> 30 then -30 else up)"
    "\<not> left_btn_down (click down up s)" "\<not> right_down (click down up s)" "\<not> right_btn_down (click down up s)"
  using assms by (simp_all add: click_def button_step_def next_event_def left_event_def right_event_def Let_def
      LEFT_CLICK_def LEFT_DOUBLE_CLICK_def MOUSE_DRAGGING_def)

text \<open>
  A click that comes more than 30 ticks after the previous one is a single
  click; the next one is a double click exactly when it ends at most 30 ticks
  later, in the wrapping 32-bit time of the kernel; and a double click starts
  over, so that a third click is a single click again.
\<close>

theorem double_click_detection:
  assumes "\<not> left_btn_down s" "\<not> right_down s" "\<not> right_btn_down s" "30 < t1 - last_tick s"
  shows "event (click d1 t1 s) = LEFT_CLICK
    \<and> (event (click d2 t2 (click d1 t1 s)) = LEFT_DOUBLE_CLICK \<longleftrightarrow> t2 - t1 \<le> 30)
    \<and> (t2 - t1 \<le> 30 \<and> 30 < t3 + 30 \<longrightarrow> event (click d3 t3 (click d2 t2 (click d1 t1 s))) = LEFT_CLICK)"
proof -
  have n: "\<not> t1 - last_tick s \<le> 30" using assms(4) by simp
  note 1 = click_event [OF assms(1-3), of d1 t1] and 2 = click_event [OF click_event(3-5) [OF assms(1-3), of d1 t1], of d2 t2]
  note 3 = click_event [OF 2(3-5), of d3 t3]
  show ?thesis
  proof (intro conjI)
    show "event (click d1 t1 s) = LEFT_CLICK" using 1 n by simp
    show "event (click d2 t2 (click d1 t1 s)) = LEFT_DOUBLE_CLICK \<longleftrightarrow> t2 - t1 \<le> 30"
      using 1 2 n by (simp add: LEFT_CLICK_def LEFT_DOUBLE_CLICK_def)
    show "t2 - t1 \<le> 30 \<and> 30 < t3 + 30 \<longrightarrow> event (click d3 t3 (click d2 t2 (click d1 t1 s))) = LEFT_CLICK"
      using 1 2 3 n by (auto simp: not_le)
  qed
qed

theorem double_click_detection_witness:
  "event (click 95 100 demo_mouse) = LEFT_CLICK \<and> event (click 105 110 (click 95 100 demo_mouse)) = LEFT_DOUBLE_CLICK
    \<and> event (click 112 115 (click 105 110 (click 95 100 demo_mouse))) = LEFT_CLICK"
  using double_click_detection [of demo_mouse 100 95 105 110 115 112]
  by (simp add: demo_mouse_def gui_st.defs)

section \<open>Focusing an icon and dismissing the focus\<close>

lemma fold_upd_in: "i \<in> set xs \<Longrightarrow> inj_on g (set xs) \<Longrightarrow> fold (\<lambda>i f. f(g i := b i)) xs f0 (g i) = b i"
proof (induction xs rule: rev_induct)
  case (snoc x xs)
  have "i = x \<or> g x \<noteq> g i" using snoc.prems inj_onD [of g "set (xs @ [x])" x i] by auto
  moreover have "inj_on g (set xs)" by (rule inj_on_subset [OF snoc.prems(2)]) auto
  ultimately show ?case using snoc by auto
qed simp

lemma fold_upd_out: "k \<notin> g ` set xs \<Longrightarrow> fold (\<lambda>i f. f(g i := b i)) xs f0 k = f0 k"
  by (induction xs arbitrary: f0) auto

text \<open>The row order of an image is bottom up, that of the screen top down.\<close>

definition flip :: "nat \<Rightarrow> nat" where
  "flip i = (95 - i div 96) * 96 + i mod 96"

lemma flip_flip: "i < ICON_PELS \<Longrightarrow> flip (flip i) = i" and flip_less: "i < ICON_PELS \<Longrightarrow> flip i < ICON_PELS"
proof -
  assume i: "i < ICON_PELS"
  then have d: "i div 96 < 96" by (simp add: ICON_PELS_def less_mult_imp_div_less)
  then show "flip i < ICON_PELS" unfolding flip_def ICON_PELS_def
    using mod_less_divisor [of 96 i] mult_le_mono1 [of "95 - i div 96" 95 96] by linarith
  have "flip i div 96 = 95 - i div 96" "flip i mod 96 = i mod 96" by (simp_all add: flip_def)
  then have "flip (flip i) = (95 - (95 - i div 96)) * 96 + i mod 96" by (simp add: flip_def [of "flip i"])
  also have "\<dots> = i div 96 * 96 + i mod 96" using d by simp
  finally show "flip (flip i) = i" by simp
qed

lemma put_back_eq: "put_back b img k = (if 0 \<le> k \<and> k < int ICON_PELS then b (flip (nat k)) else img k)"
proof -
  have inj: "inj_on (\<lambda>i. int (flip i)) (set [0..<ICON_PELS])"
    by (rule inj_on_inverseI [where g = "\<lambda>k. flip (nat k)"]) (simp add: flip_flip)
  show ?thesis
  proof (cases "0 \<le> k \<and> k < int ICON_PELS")
    case True
    then have "flip (nat k) \<in> set [0..<ICON_PELS]" "int (flip (flip (nat k))) = k" using flip_less [of "nat k"] flip_flip [of "nat k"] by auto
    then show ?thesis using fold_upd_in [OF _ inj, of "flip (nat k)" b img] True by (simp add: put_back_def flip_def)
  next
    case False
    then have "k \<notin> (\<lambda>i. int (flip i)) ` set [0..<ICON_PELS]" using flip_less by fastforce
    then show ?thesis using fold_upd_out [of k "\<lambda>i. int (flip i)" "[0..<ICON_PELS]" b img] False by (auto simp: put_back_def flip_def)
  qed
qed

text \<open>The image of an icon whose transparent pixels are in the colour of the focus.\<close>

definition marked :: "(int \<Rightarrow> rgb) \<Rightarrow> int \<Rightarrow> rgb" where
  "marked img k = (if 0 \<le> k \<and> k < int ICON_PELS \<and> isAlpha (img k) then \<lparr>cB = 91, cG = 149, cR = 226\<rparr> else img k)"

definition under_icon :: "'z gui_st_scheme \<Rightarrow> nat \<Rightarrow> nat \<Rightarrow> nat \<Rightarrow> nat \<Rightarrow> rgb" where
  "under_icon s p a k i = (let ic = u_iconView (uspace s p) k; w = u_window (uspace s p) a in
     pixels s (px screen_temp2 (leftTopX w + k_leftTopX ic + int (i mod 96)) (leftTopY w + k_leftTopY ic + int (i div 96))))"

lemma focusIconView_state:
  assumes o: "q_proc (wq s (lastWindow s)) = Some p" "q_window (wq s (lastWindow s)) = Some a"
    and c: "cur_proc s \<noteq> None" and f: "focusIcon s = None"
  shows "kwp (focusIconView k) (\<lambda>_ t. let im = k_image (u_iconView (uspace s p) k) in
      focusIcon t = Some k \<and> wq t = wq s \<and> lastWindow t = lastWindow s \<and> cur_proc t = cur_proc s
      \<and> (\<forall>i < ICON_PELS. bg t i = under_icon s p a k i)
      \<and> (\<forall>i < ICON_PELS. isBg t i \<longleftrightarrow> isAlpha (u_image (uspace s p) im (int i)) \<or> isBg s i)
      \<and> uspace t p = (uspace s p)\<lparr>u_image := (u_image (uspace s p))(im := marked (u_image (uspace s p) im))\<rparr>) s"
  using o c f
  by (auto simp: focusIconView_def node_def icon_mark_def draw_icon_def the_space_def upd_image_def upd_space_def Let_def under_icon_def
      marked_def [abs_def] intro!: kwp_mono [OF restore_vm_ok] cong: if_cong)

lemma focusDismiss_state:
  assumes o: "q_proc (wq s (lastWindow s)) = Some p" "q_window (wq s (lastWindow s)) = Some a"
    and c: "cur_proc s \<noteq> None" and f: "focusIcon s = Some k"
  shows "kwp focusDismiss (\<lambda>_ t. let im = k_image (u_iconView (uspace s p) k) in
      focusIcon t = None \<and> (\<forall>i < ICON_PELS. \<not> isBg t i) \<and> u_image (uspace t p) = (u_image (uspace s p))(im := (\<lambda>j.
        if 0 \<le> j \<and> j < int ICON_PELS \<and> isBg s (nat j) then \<lparr>cB = 0, cG = 0, cR = 0\<rparr> else put_back (bg s) (u_image (uspace s p) im) j))) s"
  using o c f
  by (auto simp: focusDismiss_def node_def icon_restore_def icon_unmark_def draw_icon_def the_space_def upd_image_def upd_space_def Let_def
      intro!: kwp_mono [OF restore_vm_ok] cong: if_cong)

text \<open>
  C29: Focusing an icon colours the transparent pixels of its image, and
  dismissing the focus gives the image back, when the icon was drawn at its place
  and none was focused before: no pixel of any image of the process changes, and
  no pixel stays marked.
\<close>

theorem focus_dismiss_roundtrip:
  assumes q: "queue s ws" and ne: "ws \<noteq> []" and c: "cur_proc s \<noteq> None" and f: "focusIcon s = None" "focus_ok s"
    and o: "q_proc (wq s (last ws)) = Some p" "q_window (wq s (last ws)) = Some a"
    and drawn: "\<And>i. i < ICON_PELS \<Longrightarrow> \<not> isAlpha (u_image (uspace s p) (k_image (u_iconView (uspace s p) k)) (int (flip i))) \<Longrightarrow>
      under_icon s p a k i = u_image (uspace s p) (k_image (u_iconView (uspace s p) k)) (int (flip i))"
  shows "\<exists>t u. focusIconView k s = Ok ((), t) \<and> focusDismiss t = Ok ((), u)
    \<and> u_image (uspace u p) = u_image (uspace s p) \<and> focusIcon u = None \<and> (\<forall>i < ICON_PELS. \<not> isBg u i)"
proof -
  let ?im = "k_image (u_iconView (uspace s p) k)"
  let ?img = "u_image (uspace s p) ?im"
  have l: "lastWindow s = last ws" using q ne by (simp add: queue_def queue_on_def)
  obtain t where t: "focusIconView k s = Ok ((), t)" "focusIcon t = Some k" "wq t = wq s" "lastWindow t = lastWindow s" "cur_proc t = cur_proc s"
    "\<And>i. i < ICON_PELS \<Longrightarrow> bg t i = under_icon s p a k i" "\<And>i. i < ICON_PELS \<Longrightarrow> isBg t i \<longleftrightarrow> isAlpha (?img (int i))"
    "uspace t p = (uspace s p)\<lparr>u_image := (u_image (uspace s p))(?im := marked ?img)\<rparr>"
    using focusIconView_state [of s p a k] o c f l by (auto simp: kwp_Ok Let_def focus_ok_def)
  obtain u where u: "focusDismiss t = Ok ((), u)" "focusIcon u = None" "\<forall>i < ICON_PELS. \<not> isBg u i"
    "u_image (uspace u p) = (u_image (uspace t p))(?im := (\<lambda>j.
        if 0 \<le> j \<and> j < int ICON_PELS \<and> isBg t (nat j) then \<lparr>cB = 0, cG = 0, cR = 0\<rparr> else put_back (bg t) (u_image (uspace t p) ?im) j))"
    using focusDismiss_state [of t p a k] o c t l by (auto simp: kwp_Ok Let_def)
  have "(if 0 \<le> j \<and> j < int ICON_PELS \<and> isBg t (nat j) then \<lparr>cB = 0, cG = 0, cR = 0\<rparr> else put_back (bg t) (marked ?img) j) = ?img j" for j
  proof (cases "0 \<le> j \<and> j < int ICON_PELS")
    case True
    then have "flip (nat j) < ICON_PELS" "int (flip (flip (nat j))) = j" using flip_less [of "nat j"] flip_flip [of "nat j"] by auto
    then have "put_back (bg t) (marked ?img) j = ?img j" if "\<not> isAlpha (?img j)"
      using True that t(6) drawn [of "flip (nat j)"] by (simp add: put_back_eq)
    moreover have "?img j = \<lparr>cB = 0, cG = 0, cR = 0\<rparr>" if "isAlpha (?img j)"
      using that by (cases "?img j") (auto simp: isAlpha_def)
    ultimately show ?thesis using True t(7) [of "nat j"] by auto
  qed (auto simp: put_back_eq marked_def)
  moreover have "u_image (uspace t p) ?im = marked ?img" using t(8) by simp
  ultimately have "u_image (uspace u p) = (u_image (uspace t p))(?im := ?img)" using u(4) by presburger
  then have "u_image (uspace u p) = u_image (uspace s p)" using t(8) by simp
  then show ?thesis using t(1) u by blast
qed

text \<open>A white screen, and icons that are white but for a transparent line.\<close>

definition demo_icon :: gui_st where
  "demo_icon = demo_click\<lparr>pixels := (\<lambda>_. white),
     uspace := (\<lambda>p. (uspace demo_click p)\<lparr>u_image := (\<lambda>_ j. if j < 96 then \<lparr>cB = 0, cG = 0, cR = 0\<rparr> else white)\<rparr>)\<rparr>"

theorem focus_dismiss_roundtrip_witness:
  "\<exists>t u. focusIconView 8 demo_icon = Ok ((), t) \<and> focusDismiss t = Ok ((), u)
    \<and> u_image (uspace u 11) = u_image (uspace demo_icon 11) \<and> focusIcon u = None \<and> (\<forall>i < ICON_PELS. \<not> isBg u i)"
proof -
  have o: "q_proc (wq demo_icon (last [0, 2, 1])) = Some 11" "q_window (wq demo_icon (last [0, 2, 1])) = Some 4096"
    by (simp_all add: demo_icon_def demo_click_def demo_gui_def demo_queue_def upt_rec MAX_WINDOW_NUM_def Let_def)
  have f: "focusIcon demo_icon = None" by (simp add: demo_icon_def demo_click_def demo_gui_def)
  have s: "queue demo_icon [0, 2, 1]" "cur_proc demo_icon \<noteq> None" "focus_ok demo_icon"
    using demo_click_ok by (simp_all add: demo_icon_def queue_def focus_ok_def)
  have im: "u_image (uspace demo_icon 11) n j = (if j < 96 then \<lparr>cB = 0, cG = 0, cR = 0\<rparr> else white)" "pixels demo_icon z = white" for n j z
    by (simp_all add: demo_icon_def)
  show ?thesis
    by (rule focus_dismiss_roundtrip [OF s(1) _ s(2) f s(3) o]) (auto simp: im isAlpha_def under_icon_def Let_def split: if_splits)
qed

end
