(* ===== verification/Kbd.thy ===== *)
theory Kbd
  imports Window
begin

text \<open>
  The keyboard (\<open>kbd.c\<close>, \<open>kbd.h\<close>): decoding of scan codes with the modifier keys,
  and editing of the text box of the top window. Shown here: a text box stays well
  formed, inserting and deleting do on the array what they mean on the text and
  undo each other, the cursor keys keep the column as far as the line allows, and
  a full text box overflows.
\<close>

section \<open>Editing\<close>

text \<open>
  The array \<open>text[MAX_STRING_NUM]\<close> ends the structure; reading or writing outside
  it is a \<open>Fault\<close>. The loops move the characters one by one, from the end when
  inserting and from the cursor when deleting.
\<close>

definition up_loop :: "nat \<Rightarrow> nat \<Rightarrow> u8 list \<Rightarrow> u8 list" where
  "up_loop p n = fold (\<lambda>i xs. xs[i := xs ! (i - 1)]) (rev [p + 1..<n + 1])"

definition down_loop :: "nat \<Rightarrow> nat \<Rightarrow> u8 list \<Rightarrow> u8 list" where
  "down_loop p n = fold (\<lambda>i xs. xs[i := xs ! (i + 1)]) [p..<n]"

definition insert_text :: "textBox \<Rightarrow> u8 \<Rightarrow> textBox res" where
  "insert_text t ch =
     (let pos = t_cursor t; len = t_textLength t + 1; i = (if pos < len then pos else len) in
      if pos < 0 \<or> i < 0 \<or> int (length (t_text t)) \<le> len then Fault ''text''
      else Ok (t\<lparr>t_cursor := t_cursor t + 1, t_textLength := len,
        t_text := (up_loop (nat pos) (nat len) (t_text t))[nat i := ch]\<rparr>))"

definition delete_text :: "textBox \<Rightarrow> textBox res" where
  "delete_text t =
     (let pos = t_cursor t; len = t_textLength t in
      if pos = 0 then Ok t
      else if pos < 0 \<or> int (length (t_text t)) \<le> len then Fault ''text''
      else Ok (t\<lparr>t_cursor := pos - 1, t_textLength := len - 1,
        t_text := down_loop (nat (pos - 1)) (nat len) (t_text t)\<rparr>))"

text \<open>
  \<open>line_loop text k n\<close> is the loop \<open>for (i = k - 1; i >= 0; i--)\<close> that looks for a line
  feed and counts the other characters: the final \<open>i\<close> and \<open>lineIndex\<close>.
\<close>

primrec line_loop :: "u8 list \<Rightarrow> nat \<Rightarrow> int \<Rightarrow> int \<times> int" where
  "line_loop text 0 n = (-1, n)"
| "line_loop text (Suc k) n = (if text ! k \<noteq> 10 then line_loop text k (n + 1) else (int k, n))"

text \<open>The loop \<open>for (j = a; j <= len; j++)\<close> with a \<open>break\<close>: the final \<open>j\<close>.\<close>

definition until :: "(u8 \<Rightarrow> bool) \<Rightarrow> u8 list \<Rightarrow> nat \<Rightarrow> nat \<Rightarrow> nat" where
  "until P text a len = (case List.find (\<lambda>j. P (text ! j)) [a..<Suc len] of None \<Rightarrow> max a (Suc len) | Some j \<Rightarrow> j)"

definition move_up :: "textBox \<Rightarrow> textBox option" where
  "move_up t =
     (let (i, lineIndex) = line_loop (t_text t) (nat (t_cursor t)) 0 in
      if i = -1 then None
      else let j = fst (line_loop (t_text t) (nat i) 0) in
        Some (t\<lparr>t_cursor := (if i < j + 1 + lineIndex then i else j + 1 + lineIndex)\<rparr>))"

definition move_down :: "textBox \<Rightarrow> textBox option" where
  "move_down t =
     (let (i, lineIndex) = line_loop (t_text t) (nat (t_cursor t)) 0;
          len = nat (t_textLength t);
          j = until (\<lambda>c. c = 10 \<or> c = 0) (t_text t) (nat (i + 1)) len
      in if j \<le> len \<and> t_text t ! j = 0 then None
         else let i = until (\<lambda>c. c = 10 \<or> c = 0) (t_text t) (j + 1) len in
           Some (t\<lparr>t_cursor := (if int i < int j + 1 + lineIndex then int i else int j + 1 + lineIndex)\<rparr>))"

text \<open>
  \<open>moveCursor\<close>: \<open>None\<close> where the code returns without a redraw. The cursor and the length
  lie inside the array, or the access is a \<open>Fault\<close>.
\<close>

definition move_text :: "textBox \<Rightarrow> u8 \<Rightarrow> textBox option res" where
  "move_text t ch =
     (if t_textLength t = 0 then Ok None
      else if ch = 228 then Ok (Some (if 0 < t_cursor t then t\<lparr>t_cursor := t_cursor t - 1\<rparr> else t))
      else if t_cursor t < 0 \<or> int (length (t_text t)) \<le> t_cursor t \<or> t_textLength t < 0 \<or> int (length (t_text t)) \<le> t_textLength t
      then Fault ''text''
      else if ch = 229 then
        Ok (if t_text t ! nat (t_cursor t) \<noteq> 0 \<and> t_text t ! nat (t_cursor t) \<noteq> 10
            then Some (t\<lparr>t_cursor := t_cursor t + 1\<rparr>) else None)
      else if ch = 226 then Ok (move_up t)
      else if ch = 227 then Ok (move_down t)
      else Ok None)"

section \<open>Keys in the top window\<close>

definition get_box :: "nat \<Rightarrow> ('z gui_st_scheme, textBox) km" where
  "get_box a = kbind the_space (\<lambda>m. kret (u_textBox m a))"

definition set_box :: "nat \<Rightarrow> textBox \<Rightarrow> ('z gui_st_scheme, unit) km" where
  "set_box a t = upd_space (\<lambda>m. m\<lparr>u_textBox := (u_textBox m)(a := t)\<rparr>)"

definition lift_res :: "'a res \<Rightarrow> ('s, 'a) km" where
  "lift_res r = (\<lambda>s. case r of Ok x \<Rightarrow> Ok (x, s) | Panic e \<Rightarrow> Panic e | Sleep e \<Rightarrow> Sleep e | Fault e \<Rightarrow> Fault e)"

definition insertCharacter :: "nat \<Rightarrow> u8 \<Rightarrow> ('z gui_st_scheme, unit) km" where
  "insertCharacter a ch = kbind (get_box a) (\<lambda>t. kbind (lift_res (insert_text t ch)) (\<lambda>t.
     kthen (set_box a t) updateLastWindow))"

definition deleteCharacter :: "nat \<Rightarrow> ('z gui_st_scheme, unit) km" where
  "deleteCharacter a = kbind (get_box a) (\<lambda>t.
     if t_cursor t = 0 then kret ()
     else kbind (lift_res (delete_text t)) (\<lambda>t. kthen (set_box a t) updateLastWindow))"

definition moveCursor :: "nat \<Rightarrow> u8 \<Rightarrow> ('z gui_st_scheme, unit) km" where
  "moveCursor a ch = kbind (get_box a) (\<lambda>t. kbind (lift_res (move_text t ch)) (\<lambda>r.
     case r of None \<Rightarrow> kret () | Some t \<Rightarrow> kthen (set_box a t) updateLastWindow))"

definition first_box :: "widget list \<Rightarrow> nat option" where
  "first_box ws = (case List.find (\<lambda>w. case w of WTextBox _ \<Rightarrow> True | _ \<Rightarrow> False) ws of Some (WTextBox a) \<Rightarrow> Some a | _ \<Rightarrow> None)"

definition key_action :: "nat \<Rightarrow> u8 \<Rightarrow> ('z gui_st_scheme, unit) km" where
  "key_action b ch = kthen (if ch < 225 \<and> ch \<noteq> 8 then insertCharacter b ch else if ch = 8 then deleteCharacter b else kret ())
     (if ch = 226 \<or> ch = 227 \<or> ch = 228 \<or> ch = 229 then moveCursor b ch else kret ())"

definition keyboardHandler :: "u8 \<Rightarrow> ('z gui_st_scheme, unit) km" where
  "keyboardHandler ch =
     kbind (kget lastWindow) (\<lambda>l. kbind (node l) (\<lambda>q.
     kthen (switchuvm (q_proc q))
     (kbind last_win (\<lambda>(a, w).
     kthen (case first_box (widgets w) of
         None \<Rightarrow> kret ()
       | Some b \<Rightarrow> key_action b ch)
     restore_vm))))"

section \<open>Scan codes\<close>

definition SHIFT :: u32 where "SHIFT = 1"
definition CTL :: u32 where "CTL = 2"
definition ALT :: u32 where "ALT = 4"
definition CAPSLOCK :: u32 where "CAPSLOCK = 8"
definition NUMLOCK :: u32 where "NUMLOCK = 16"
definition SCROLLLOCK :: u32 where "SCROLLLOCK = 32"
definition E0ESC :: u32 where "E0ESC = 64"

definition shiftcode :: "u8 \<Rightarrow> u32" where
  "shiftcode d = (case map_of [(0x1D, CTL), (0x2A, SHIFT), (0x36, SHIFT), (0x38, ALT), (0x9D, CTL), (0xB8, ALT)] d of
     None \<Rightarrow> 0 | Some v \<Rightarrow> v)"

definition togglecode :: "u8 \<Rightarrow> u32" where
  "togglecode d = (case map_of [(0x3A, CAPSLOCK), (0x45, NUMLOCK), (0x46, SCROLLLOCK)] d of None \<Rightarrow> 0 | Some v \<Rightarrow> v)"

text \<open>An array initialised with a list from index 0 and with some designated elements.\<close>

definition key_table :: "u8 list \<Rightarrow> (u8 \<times> u8) list \<Rightarrow> u8 \<Rightarrow> u8" where
  "key_table xs ys d = (case map_of ys d of Some v \<Rightarrow> v | None \<Rightarrow> if unat d < length xs then xs ! unat d else 0)"

definition normalmap :: "u8 \<Rightarrow> u8" where
  "normalmap = key_table [
     0, 27, 49, 50, 51, 52, 53, 54, 55, 56, 57, 48, 45, 61, 8, 9,
     113, 119, 101, 114, 116, 121, 117, 105, 111, 112, 91, 93, 10, 0, 97, 115,
     100, 102, 103, 104, 106, 107, 108, 59, 39, 96, 0, 92, 122, 120, 99, 118,
     98, 110, 109, 44, 46, 47, 0, 42, 0, 32, 0, 0, 0, 0, 0, 0,
     0, 0, 0, 0, 0, 0, 0, 55, 56, 57, 45, 52, 53, 54, 43, 49,
     50, 51, 48, 46, 0, 0, 0, 0]
    [(0x9C, 0xA), (0xB5, 0x2F), (0xC8, 0xE2), (0xD0, 0xE3), (0xC9, 0xE6), (0xD1, 0xE7), (0xCB, 0xE4), (0xCD, 0xE5), (0x97, 0xE0), (0xCF, 0xE1), (0xD2, 0xE8), (0xD3, 0xE9)]"

definition shiftmap :: "u8 \<Rightarrow> u8" where
  "shiftmap = key_table [
     0, 27, 33, 64, 35, 36, 37, 94, 38, 42, 40, 41, 95, 43, 8, 9,
     81, 87, 69, 82, 84, 89, 85, 73, 79, 80, 123, 125, 10, 0, 65, 83,
     68, 70, 71, 72, 74, 75, 76, 58, 34, 126, 0, 124, 90, 88, 67, 86,
     66, 78, 77, 60, 62, 63, 0, 42, 0, 32, 0, 0, 0, 0, 0, 0,
     0, 0, 0, 0, 0, 0, 0, 55, 56, 57, 45, 52, 53, 54, 43, 49,
     50, 51, 48, 46, 0, 0, 0, 0]
    [(0x9C, 0xA), (0xB5, 0x2F), (0xC8, 0xE2), (0xD0, 0xE3), (0xC9, 0xE6), (0xD1, 0xE7), (0xCB, 0xE4), (0xCD, 0xE5), (0x97, 0xE0), (0xCF, 0xE1), (0xD2, 0xE8), (0xD3, 0xE9)]"

definition ctlmap :: "u8 \<Rightarrow> u8" where
  "ctlmap = key_table [
     0, 0, 0, 0, 0, 0, 0, 0, 0, 0, 0, 0, 0, 0, 0, 0,
     17, 23, 5, 18, 20, 25, 21, 9, 15, 16, 0, 0, 13, 0, 1, 19,
     4, 6, 7, 8, 10, 11, 12, 0, 0, 0, 0, 28, 26, 24, 3, 22,
     2, 14, 13, 0, 0, 239, 0, 0]
    [(0x9C, 0xD), (0xB5, 0xEF), (0xC8, 0xE2), (0xD0, 0xE3), (0xC9, 0xE6), (0xD1, 0xE7), (0xCB, 0xE4), (0xCD, 0xE5), (0x97, 0xE0), (0xCF, 0xE1), (0xD2, 0xE8), (0xD3, 0xE9)]"

definition charcode :: "u32 \<Rightarrow> u8 \<Rightarrow> u8" where
  "charcode k = [normalmap, shiftmap, ctlmap, ctlmap] ! unat k"

record kbd_st = gui_st +
  shift :: u32

text \<open>
  What \<open>kbdintr\<close> makes of one byte: the new modifier state and the character, 0 for
  none. \<open>kbdintr\<close> itself reads the status and the byte from the ports, which are
  its arguments.
\<close>

definition key_case :: "u32 \<Rightarrow> u8 \<Rightarrow> u8" where
  "key_case sh c =
     (if sh AND CAPSLOCK \<noteq> 0 then
        if 97 \<le> c \<and> c \<le> 122 then c - 32 else if 65 \<le> c \<and> c \<le> 90 then c + 32 else c
      else c)"

definition decode_key :: "u32 \<Rightarrow> u8 \<Rightarrow> u32 \<times> u8" where
  "decode_key sh data =
     (if data = 0xE0 then (sh OR E0ESC, 0)
      else if data AND 0x80 \<noteq> 0 then
        let data = (if sh AND E0ESC \<noteq> 0 then data else data AND 0x7F)
        in (sh AND NOT (shiftcode data OR E0ESC), 0)
      else
        let (data, sh) = (if sh AND E0ESC \<noteq> 0 then (data OR 0x80, sh AND NOT E0ESC) else (data, sh));
            sh = sh OR shiftcode data;
            sh = sh XOR togglecode data
        in (sh, key_case sh (charcode (sh AND (CTL OR SHIFT)) data)))"

definition kbdintr :: "u8 \<Rightarrow> u8 \<Rightarrow> ('z kbd_st_scheme, unit) km" where
  "kbdintr st data =
     (if st AND 1 = 0 then kret ()
      else kbind (kget shift) (\<lambda>sh. let (sh', c) = decode_key sh data in
        kthen (kmod (\<lambda>s. s\<lparr>shift := sh'\<rparr>)) (if c \<noteq> 0 then keyboardHandler c else kret ())))"

section \<open>Inserting and deleting\<close>

text \<open>A well-formed text box: the text ends with a zero byte inside the array and has none before.\<close>

definition tb_wf :: "textBox \<Rightarrow> bool" where
  "tb_wf t \<longleftrightarrow> length (t_text t) = MAX_STRING_NUM \<and> 0 \<le> t_cursor t \<and> t_cursor t \<le> t_textLength t
     \<and> t_textLength t < int MAX_STRING_NUM \<and> t_text t ! nat (t_textLength t) = 0
     \<and> (\<forall>i < nat (t_textLength t). t_text t ! i \<noteq> 0)"

definition content :: "textBox \<Rightarrow> u8 list" where
  "content t = take (nat (t_textLength t)) (t_text t)"

lemma length_up_loop [simp]: "length (up_loop p n xs) = length xs"
  and length_down_loop [simp]: "length (down_loop p n xs) = length xs"
proof -
  have *: "length (fold (\<lambda>i xs. xs[i := g i xs]) js xs) = length xs" for g :: "nat \<Rightarrow> u8 list \<Rightarrow> u8" and js
    by (induction js arbitrary: xs) auto
  show "length (up_loop p n xs) = length xs" "length (down_loop p n xs) = length xs"
    unfolding up_loop_def down_loop_def by (rule *)+
qed

lemma nth_up_loop:
  "p \<le> n \<Longrightarrow> n < length xs \<Longrightarrow> i < length xs \<Longrightarrow> up_loop p n xs ! i = (if p < i \<and> i \<le> n then xs ! (i - 1) else xs ! i)"
proof (induction n arbitrary: xs)
  case 0
  then show ?case by (simp add: up_loop_def)
next
  case (Suc n)
  show ?case
  proof (cases "p = Suc n")
    case False
    then have "up_loop p (Suc n) xs = up_loop p n (xs[Suc n := xs ! n])" using Suc.prems by (simp add: up_loop_def)
    then show ?thesis using Suc.IH [of "xs[Suc n := xs ! n]"] Suc.prems False by (auto simp: nth_list_update)
  qed (use Suc.prems in \<open>auto simp: up_loop_def\<close>)
qed

lemma nth_down_loop:
  "p \<le> n \<Longrightarrow> n < length xs \<Longrightarrow> i < length xs \<Longrightarrow> down_loop p n xs ! i = (if p \<le> i \<and> i < n then xs ! (i + 1) else xs ! i)"
proof (induction n arbitrary: i)
  case 0
  then show ?case by (simp add: down_loop_def)
next
  case (Suc n)
  show ?case
  proof (cases "p = Suc n")
    case False
    then have "down_loop p (Suc n) xs = (down_loop p n xs)[n := down_loop p n xs ! (n + 1)]" using Suc.prems by (simp add: down_loop_def)
    then show ?thesis using Suc.IH Suc.prems False by (auto simp: nth_list_update)
  qed (use Suc.prems in \<open>auto simp: down_loop_def\<close>)
qed

lemma insert_text_ok:
  assumes "tb_wf t" "t_textLength t + 1 < int MAX_STRING_NUM" "ch \<noteq> 0"
  shows "\<exists>t'. insert_text t ch = Ok t' \<and> tb_wf t' \<and> t_cursor t' = t_cursor t + 1
    \<and> content t' = take (nat (t_cursor t)) (content t) @ ch # drop (nat (t_cursor t)) (content t)"
proof -
  define p n where "p = nat (t_cursor t)" and "n = nat (t_textLength t)"
  have c: "t_cursor t = int p" "t_textLength t = int n" "p \<le> n" "n + 1 < MAX_STRING_NUM" "length (t_text t) = MAX_STRING_NUM"
    using assms by (auto simp: tb_wf_def p_def n_def)
  define X where "X = (up_loop p (n + 1) (t_text t))[p := ch]"
  let ?t = "t\<lparr>t_cursor := int p + 1, t_textLength := int n + 1, t_text := X\<rparr>"
  have eq: "insert_text t ch = Ok ?t"
    using c by (simp add: insert_text_def Let_def X_def nat_add_distrib)
  have X: "length X = MAX_STRING_NUM"
    "\<And>i. i < MAX_STRING_NUM \<Longrightarrow> X ! i = (if i = p then ch else if p < i \<and> i \<le> n + 1 then t_text t ! (i - 1) else t_text t ! i)"
    using c nth_up_loop [of p "n + 1" "t_text t"] by (auto simp: X_def nth_list_update)
  have z: "t_text t ! n = 0" "\<And>i. i < n \<Longrightarrow> t_text t ! i \<noteq> 0" using assms(1) by (auto simp: tb_wf_def n_def)
  have "X ! (n + 1) = 0" using X(2) [of "n + 1"] c z by simp
  moreover have "X ! i \<noteq> 0" if "i < n + 1" for i using X(2) [of i] z(2) [of i] z(2) [of "i - 1"] c(3,4) that assms(3) by auto
  ultimately have "tb_wf ?t" using c X(1) by (simp add: tb_wf_def nat_add_distrib)
  moreover have "content ?t = take p (content t) @ ch # drop p (content t)"
    using c X by (intro nth_equalityI) (auto simp: content_def nth_append nat_add_distrib n_def [symmetric] nth_Cons' p_def [symmetric])
  ultimately show ?thesis using eq c(1) by (simp add: p_def [symmetric])
qed

lemma delete_text_ok:
  assumes "tb_wf t" "0 < t_cursor t"
  shows "\<exists>t'. delete_text t = Ok t' \<and> tb_wf t' \<and> t_cursor t' = t_cursor t - 1
    \<and> content t' = take (nat (t_cursor t) - 1) (content t) @ drop (nat (t_cursor t)) (content t)"
proof -
  define p n where "p = nat (t_cursor t) - 1" and "n = nat (t_textLength t)"
  have c: "t_cursor t = int p + 1" "t_textLength t = int n" "p < n" "n < MAX_STRING_NUM" "length (t_text t) = MAX_STRING_NUM"
    using assms by (auto simp: tb_wf_def p_def n_def)
  define X where "X = down_loop p n (t_text t)"
  let ?t = "t\<lparr>t_cursor := int p, t_textLength := int n - 1, t_text := X\<rparr>"
  have eq: "delete_text t = Ok ?t"
    using c by (simp add: delete_text_def Let_def X_def)
  have X: "length X = MAX_STRING_NUM"
    "\<And>i. i < MAX_STRING_NUM \<Longrightarrow> X ! i = (if p \<le> i \<and> i < n then t_text t ! (i + 1) else t_text t ! i)"
    using c nth_down_loop [of p n "t_text t"] by (auto simp: X_def)
  have z: "t_text t ! n = 0" "\<And>i. i < n \<Longrightarrow> t_text t ! i \<noteq> 0" using assms(1) by (auto simp: tb_wf_def n_def)
  have n1: "nat (int n - 1) = n - 1" "n - 1 < MAX_STRING_NUM" using c by auto
  have "X ! (n - 1) = 0" using X(2) [of "n - 1"] c z by auto
  moreover have "X ! i \<noteq> 0" if "i < n - 1" for i using X(2) [of i] z(2) [of i] z(2) [of "i + 1"] c(3,4) that by auto
  ultimately have "tb_wf ?t" using c X(1) n1 by (simp add: tb_wf_def)
  moreover have "content ?t = take p (content t) @ drop (p + 1) (content t)"
    using c X n1 by (intro nth_equalityI) (auto simp: content_def nth_append n_def [symmetric])
  moreover have "nat (t_cursor t) = p + 1" using c(1) by simp
  ultimately show ?thesis using eq c(1) by simp
qed

section \<open>Moving the cursor\<close>

definition line_start :: "u8 list \<Rightarrow> nat \<Rightarrow> nat" where
  "line_start tx c = nat (fst (line_loop tx c 0) + 1)"

definition row_of :: "u8 list \<Rightarrow> nat \<Rightarrow> nat" where
  "row_of tx c = length (filter (\<lambda>x. x = 10) (take c tx))"

definition col_of :: "u8 list \<Rightarrow> nat \<Rightarrow> nat" where
  "col_of tx c = c - line_start tx c"

lemma line_loop_spec:
  "\<exists>i. line_loop tx k n = (i, n + (int k - 1 - i)) \<and> -1 \<le> i \<and> i < int k \<and> (0 \<le> i \<longrightarrow> tx ! nat i = 10) \<and> (\<forall>j. i < int j \<and> j < k \<longrightarrow> tx ! j \<noteq> 10)"
proof (induction k arbitrary: n)
  case 0
  show ?case by (intro exI [of _ "-1"]) simp
next
  case (Suc k)
  show ?case
  proof (cases "tx ! k = 10")
    case True
    then show ?thesis by (intro exI [of _ "int k"]) auto
  next
    case False
    obtain i where "line_loop tx k (n + 1) = (i, n + 1 + (int k - 1 - i)) \<and> -1 \<le> i \<and> i < int k \<and> (0 \<le> i \<longrightarrow> tx ! nat i = 10) \<and> (\<forall>j. i < int j \<and> j < k \<longrightarrow> tx ! j \<noteq> 10)"
      using Suc.IH [of "n + 1"] by blast
    then show ?thesis using False by (intro exI [of _ i]) (auto simp: less_Suc_eq)
  qed
qed

lemma line_loop_start: "line_loop tx k 0 = (int (line_start tx k) - 1, int k - int (line_start tx k))"
  and line_start_le: "line_start tx k \<le> k"
  and line_start_nl: "0 < line_start tx k \<Longrightarrow> tx ! (line_start tx k - 1) = 10"
  and line_start_no: "line_start tx k \<le> j \<Longrightarrow> j < k \<Longrightarrow> tx ! j \<noteq> 10"
proof -
  obtain i where i: "line_loop tx k 0 = (i, int k - 1 - i)" "-1 \<le> i" "i < int k" "0 \<le> i \<longrightarrow> tx ! nat i = 10"
    "\<forall>j. i < int j \<and> j < k \<longrightarrow> tx ! j \<noteq> 10"
    using line_loop_spec [of tx k 0] by auto
  have ls: "int (line_start tx k) = i + 1" using i by (simp add: line_start_def)
  then show "line_loop tx k 0 = (int (line_start tx k) - 1, int k - int (line_start tx k))" "line_start tx k \<le> k"
    using i by auto
  show "tx ! (line_start tx k - 1) = 10" if "0 < line_start tx k"
  proof -
    have "line_start tx k - 1 = nat i" using ls that by auto
    then show ?thesis using i ls that by auto
  qed
  show "tx ! j \<noteq> 10" if "line_start tx k \<le> j" "j < k" using i ls that by auto
qed

lemma line_start_unique:
  assumes "a \<le> c" "a = 0 \<or> tx ! (a - 1) = 10" "\<And>j. a \<le> j \<Longrightarrow> j < c \<Longrightarrow> tx ! j \<noteq> 10"
  shows "line_start tx c = a"
proof (rule ccontr)
  assume ne: "line_start tx c \<noteq> a"
  consider "line_start tx c < a" | "a < line_start tx c" using ne by linarith
  then show False
  proof cases
    case 1
    then have "line_start tx c \<le> a - 1" "a - 1 < c" "a \<noteq> 0" using assms(1) by linarith+
    then show False using assms(2) line_start_no [of tx c "a - 1"] by blast
  next
    case 2
    then show False using assms(3) [of "line_start tx c - 1"] line_start_nl [of tx c] line_start_le [of tx c] by auto
  qed
qed

lemma row_of_same: "a \<le> b \<Longrightarrow> (\<And>j. a \<le> j \<Longrightarrow> j < b \<Longrightarrow> tx ! j \<noteq> 10) \<Longrightarrow> b \<le> length tx \<Longrightarrow> row_of tx b = row_of tx a"
proof (induction b)
  case (Suc b)
  then show ?case by (cases "a = Suc b") (auto simp: row_of_def take_Suc_conv_app_nth)
qed (simp add: row_of_def)

lemma row_of_nl: "a < length tx \<Longrightarrow> tx ! a = 10 \<Longrightarrow> row_of tx (Suc a) = Suc (row_of tx a)"
  by (simp add: row_of_def take_Suc_conv_app_nth)

lemma row_line_start: "c \<le> length tx \<Longrightarrow> row_of tx (line_start tx c) = row_of tx c"
  using row_of_same [of "line_start tx c" c tx] line_start_le [of tx c] line_start_no [of tx c] by simp

text \<open>A position inside a line that begins at \<open>a\<close>.\<close>

lemma in_line:
  assumes "a \<le> c" "c \<le> length tx" "a = 0 \<or> tx ! (a - 1) = 10" "\<And>j. a \<le> j \<Longrightarrow> j < c \<Longrightarrow> tx ! j \<noteq> 10"
  shows "row_of tx c = row_of tx a" "col_of tx c = c - a"
  using row_of_same [of a c tx] line_start_unique [of a c tx] assms by (auto simp: col_of_def)

lemma until_spec:
  assumes "a \<le> j" "j \<le> len" "P (tx ! j)" "\<And>i. a \<le> i \<Longrightarrow> i < j \<Longrightarrow> \<not> P (tx ! i)"
  shows "until P tx a len = j"
proof -
  have "List.find (\<lambda>j. P (tx ! j)) [a..<Suc len] = Some j"
  proof -
    have "[a..<Suc len] ! k = a + k" if "a + k \<le> len" for k using that by (simp del: upt_Suc)
    then show ?thesis unfolding find_Some_iff using assms by (intro exI [of _ "j - a"]) (auto simp del: upt_Suc)
  qed
  then show ?thesis by (simp add: until_def)
qed

lemma move_up_spec:
  assumes "tb_wf t" and c: "c = nat (t_cursor t)" and r: "0 < row_of (t_text t) c"
  shows "\<exists>t' c'. move_up t = Some t' \<and> t' = t\<lparr>t_cursor := int c'\<rparr> \<and> c' \<le> c \<and> tb_wf t'
    \<and> row_of (t_text t) c' + 1 = row_of (t_text t) c
    \<and> col_of (t_text t) c' = min (col_of (t_text t) c) (line_start (t_text t) c - 1 - line_start (t_text t) (line_start (t_text t) c - 1))"
proof -
  let ?x = "t_text t"
  define a where "a = line_start ?x c"
  have len: "c < length ?x" "t_cursor t = int c" using assms by (auto simp: tb_wf_def)
  have a: "a \<le> c" "row_of ?x a = row_of ?x c" using line_start_le row_line_start len by (auto simp: a_def)
  have a0: "0 < a" using r a by (cases a) (auto simp: row_of_def)
  then have nl: "?x ! (a - 1) = 10" using line_start_nl a_def by auto
  define b where "b = line_start ?x (a - 1)"
  have b: "b \<le> a - 1" "b = 0 \<or> ?x ! (b - 1) = 10" "\<And>j. b \<le> j \<Longrightarrow> j < a - 1 \<Longrightarrow> ?x ! j \<noteq> 10"
    using line_start_le line_start_nl [of ?x "a - 1"] line_start_no [of ?x "a - 1"] by (auto simp: b_def)
  define c' where "c' = min (a - 1) (b + (c - a))"
  have c': "b \<le> c'" "c' \<le> a - 1" using b(1) by (auto simp: c'_def)
  have "row_of ?x c' = row_of ?x b" "col_of ?x c' = c' - b" "row_of ?x (a - 1) = row_of ?x b"
    using in_line [of b c' ?x] in_line [of b "a - 1" ?x] b c' a len by auto
  moreover have "row_of ?x a = Suc (row_of ?x (a - 1))" using row_of_nl [of "a - 1" ?x] nl a0 a len by simp
  moreover have ll: "line_loop ?x c 0 = (int a - 1, int c - int a)" "fst (line_loop ?x (a - 1) 0) = int b - 1" "nat (int a - 1) = a - 1"
    using line_loop_start [of ?x c] line_loop_start [of ?x "a - 1"] a0 by (simp_all add: a_def b_def)
  then have "move_up t = Some (t\<lparr>t_cursor := int c'\<rparr>)"
    using a0 a(1) b(1) by (auto simp: move_up_def c [symmetric] c'_def)
  moreover have "tb_wf (t\<lparr>t_cursor := int c'\<rparr>)" using assms(1) c' a(1) len by (auto simp: tb_wf_def)
  moreover have "c' - b = min (c - a) (a - 1 - b)" "c' \<le> c" using b(1) a(1) unfolding c'_def by linarith+
  moreover have "col_of ?x c = c - a" "line_start ?x (a - Suc 0) = b" by (simp_all add: col_of_def a_def b_def)
  ultimately show ?thesis using a
    by (intro exI [of _ "t\<lparr>t_cursor := int c'\<rparr>"] exI [of _ c']) (simp add: a_def [symmetric])
qed

lemma move_down_spec:
  assumes "tb_wf t" and c: "c = nat (t_cursor t)" and r: "row_of (t_text t) c < row_of (t_text t) (nat (t_textLength t))"
  shows "\<exists>t' c' e. move_down t = Some t' \<and> t' = t\<lparr>t_cursor := int c'\<rparr> \<and> c' \<le> nat (t_textLength t) \<and> tb_wf t'
    \<and> row_of (t_text t) c' = row_of (t_text t) c + 1 \<and> c' \<le> e \<and> e \<le> nat (t_textLength t) \<and> (t_text t ! e = 10 \<or> e = nat (t_textLength t))
    \<and> row_of (t_text t) e = row_of (t_text t) c' \<and> col_of (t_text t) c' = min (col_of (t_text t) c) (col_of (t_text t) e)"
proof -
  let ?x = "t_text t" and ?n = "nat (t_textLength t)"
  define a where "a = line_start ?x c"
  have len: "c \<le> ?n" "?n < length ?x" "t_cursor t = int c" "?x ! ?n = 0" "\<And>i. i < ?n \<Longrightarrow> ?x ! i \<noteq> 0"
    using assms by (auto simp: tb_wf_def)
  have a: "a \<le> c" "\<And>j. a \<le> j \<Longrightarrow> j < c \<Longrightarrow> ?x ! j \<noteq> 10" using line_start_le line_start_no by (auto simp: a_def)
  obtain k where "c \<le> k \<and> k < ?n \<and> ?x ! k = 10" using row_of_same [of c ?n ?x] r len by fastforce
  from ex_least_nat_le [of "\<lambda>j. c \<le> j \<and> j < ?n \<and> ?x ! j = 10", OF this]
  obtain j where j: "c \<le> j" "j < ?n" "?x ! j = 10" "\<And>i. c \<le> i \<Longrightarrow> i < j \<Longrightarrow> ?x ! i \<noteq> 10" by auto
  let ?P = "\<lambda>z. z = 10 \<or> z = 0"
  have uj: "until ?P ?x a ?n = j"
  proof (rule until_spec)
    show "\<not> ?P (?x ! i)" if "a \<le> i" "i < j" for i using that a j len(5) [of i] by (cases "i < c") auto
  qed (use a j in auto)
  have "j + 1 \<le> ?n \<and> ?P (?x ! ?n)" using j len(4) by simp
  from ex_least_nat_le [of "\<lambda>e. j + 1 \<le> e \<and> ?P (?x ! e)", OF this]
  obtain e where e: "j + 1 \<le> e" "e \<le> ?n" "?P (?x ! e)" "\<And>i. j + 1 \<le> i \<Longrightarrow> i < e \<Longrightarrow> \<not> ?P (?x ! i)" by blast
  have ue: "until ?P ?x (j + 1) ?n = e" using e by (intro until_spec) auto
  define c' where "c' = min e (j + 1 + (c - a))"
  have c': "j + 1 \<le> c'" "c' \<le> e" using e(1) by (auto simp: c'_def)
  have rows: "row_of ?x c' = row_of ?x (j + 1)" "col_of ?x c' = c' - (j + 1)" "row_of ?x e = row_of ?x (j + 1)" "col_of ?x e = e - (j + 1)"
    using in_line [of "j + 1" c' ?x] in_line [of "j + 1" e ?x] e c' j len by auto
  have "row_of ?x j = row_of ?x c" using row_of_same [of c j ?x] j len by auto
  then have "row_of ?x (j + 1) = row_of ?x c + 1" using row_of_nl [of j ?x] j len by simp
  moreover have "line_loop ?x c 0 = (int a - 1, int c - int a)" using line_loop_start [of ?x c] by (simp add: a_def)
  then have "move_down t = Some (t\<lparr>t_cursor := int c'\<rparr>)"
    using uj ue j a(1) len(5) [of j] by (auto simp: move_down_def c [symmetric] c'_def Let_def)
  moreover have "?x ! e = 10 \<or> e = ?n" using e len(5) [of e] by auto
  moreover have "tb_wf (t\<lparr>t_cursor := int c'\<rparr>)" using assms(1) c' e(2) by (auto simp: tb_wf_def)
  moreover have "c' - (j + 1) = min (c - a) (e - (j + 1))" using e(1) unfolding c'_def by linarith
  moreover have "col_of ?x c = c - a" by (simp add: col_of_def a_def)
  ultimately show ?thesis using rows c' e(2)
    by (intro exI [of _ "t\<lparr>t_cursor := int c'\<rparr>"] exI [of _ c'] exI [of _ e]) simp
qed

lemma row_of_mono: "a \<le> b \<Longrightarrow> row_of tx a \<le> row_of tx b"
proof -
  assume "a \<le> b"
  then have "take b tx = take a tx @ take (b - a) (drop a tx)" by (metis le_add_diff_inverse take_add)
  then show ?thesis by (simp add: row_of_def)
qed

lemma move_up_first:
  assumes "tb_wf t" "row_of (t_text t) (nat (t_cursor t)) = 0"
  shows "move_up t = None"
proof -
  let ?x = "t_text t" and ?c = "nat (t_cursor t)"
  have "line_start ?x ?c = 0"
  proof (rule ccontr)
    assume ne: "line_start ?x ?c \<noteq> 0"
    have "line_start ?x ?c - 1 < length ?x" using assms(1) line_start_le [of ?x ?c] ne by (auto simp: tb_wf_def)
    then have "0 < row_of ?x (line_start ?x ?c)"
      using row_of_nl [of "line_start ?x ?c - 1" ?x] line_start_nl [of ?x ?c] ne by simp
    moreover have "?c \<le> length ?x" using assms(1) by (auto simp: tb_wf_def)
    ultimately show False using row_line_start [of ?c ?x] assms(2) by simp
  qed
  then show ?thesis using line_loop_start [of ?x ?c] by (simp add: move_up_def)
qed

lemma move_down_last:
  assumes "tb_wf t" "row_of (t_text t) (nat (t_cursor t)) = row_of (t_text t) (nat (t_textLength t))"
  shows "move_down t = None"
proof -
  let ?x = "t_text t" and ?c = "nat (t_cursor t)" and ?n = "nat (t_textLength t)"
  have wf: "?c \<le> ?n" "?n < length ?x" "?x ! ?n = 0" "\<And>i. i < ?n \<Longrightarrow> ?x ! i \<noteq> 0" using assms(1) by (auto simp: tb_wf_def)
  have no: "?x ! i \<noteq> 10" if "?c \<le> i" "i < ?n" for i
  proof
    assume "?x ! i = 10"
    then have "row_of ?x (Suc i) = Suc (row_of ?x i)" using that wf by (intro row_of_nl) auto
    then show False using row_of_mono [of ?c i ?x] row_of_mono [of "Suc i" ?n ?x] that assms(2) by simp
  qed
  have "until (\<lambda>c. c = 10 \<or> c = 0) ?x (line_start ?x ?c) ?n = ?n"
  proof (rule until_spec)
    show "\<not> (?x ! i = 10 \<or> ?x ! i = 0)" if "line_start ?x ?c \<le> i" "i < ?n" for i
      using that no [of i] wf(4) [of i] line_start_no [of ?x ?c i] by (cases "i < ?c") auto
  qed (use wf line_start_le [of ?x ?c] in auto)
  then show ?thesis using line_loop_start [of ?x ?c] wf(3) by (simp add: move_down_def Let_def)
qed

lemma move_text_ok:
  assumes "tb_wf t"
  shows "\<exists>r. move_text t ch = Ok r \<and> (\<forall>t'. r = Some t' \<longrightarrow> tb_wf t' \<and> content t' = content t)"
proof -
  let ?x = "t_text t" and ?c = "nat (t_cursor t)" and ?n = "nat (t_textLength t)"
  have wf: "0 \<le> t_cursor t" "t_cursor t \<le> t_textLength t" "t_textLength t < int (length ?x)" "?x ! ?n = 0"
    using assms by (auto simp: tb_wf_def)
  have up: "tb_wf t' \<and> content t' = content t" if "move_up t = Some t'" for t'
    using that move_up_first [OF assms] move_up_spec [OF assms refl] by (cases "row_of ?x ?c = 0") (auto simp: content_def)
  have down: "tb_wf t' \<and> content t' = content t" if "move_down t = Some t'" for t'
  proof (cases "row_of ?x ?c = row_of ?x ?n")
    case True
    then show ?thesis using that move_down_last [OF assms] by simp
  next
    case False
    moreover have "?c \<le> ?n" using wf by simp
    ultimately have "row_of ?x ?c < row_of ?x ?n" using row_of_mono [of ?c ?n ?x] by linarith
    from move_down_spec [OF assms refl this] show ?thesis using that by (auto simp: content_def)
  qed
  have right: "tb_wf (t\<lparr>t_cursor := t_cursor t + 1\<rparr>)" if "?x ! ?c \<noteq> 0"
    using assms that wf by (cases "t_cursor t = t_textLength t") (auto simp: tb_wf_def)
  show ?thesis unfolding move_text_def using assms wf up down right by (auto simp: tb_wf_def content_def)
qed

section \<open>Keys keep the text box well formed\<close>

definition box_at :: "nat \<Rightarrow> nat \<Rightarrow> 'z gui_st_scheme \<Rightarrow> textBox" where
  "box_at p b s = u_textBox (uspace s p) b"

interpretation box_frame: redraw_frame "box_at p b"
  by unfold_locales (auto simp: box_at_def)

lemma set_and_redraw:
  assumes q: "queue s ws" and ne: "ws \<noteq> []" and c: "cur_proc s \<noteq> None" and r: "cr3 s = Some p"
  shows "kwp (kthen (set_box b t) updateLastWindow) (\<lambda>_ u. gframe s u \<and> box_at p b u = t) s"
proof -
  let ?s = "s\<lparr>uspace := (uspace s)(p := (uspace s p)\<lparr>u_textBox := (u_textBox (uspace s p))(b := t)\<rparr>)\<rparr>"
  have "set_box b t s = Ok ((), ?s)" using r by (simp add: set_box_def upd_space_def kdefs)
  moreover have "kwp updateLastWindow (\<lambda>_ u. gframe ?s u) ?s"
    using q c by (intro updateLastWindow_wp [OF _ ne]) (simp_all add: queue_def)
  then obtain u where u: "updateLastWindow ?s = Ok ((), u)" "gframe ?s u" by (auto simp: kwp_Ok)
  ultimately show ?thesis using kpresD [OF box_frame.redraw(2) u(1), of p b]
    by (simp add: kwp_Ok kthen_def kbind_def gframe_def box_at_def)
qed

lemma lift_res_wp [simp]: "kwp (lift_res (Ok x)) Q = Q x"
  by (rule ext) (simp add: kwp_def lift_res_def)

lemma get_box_wp: "cr3 s = Some p \<Longrightarrow> kwp (get_box b) Q s = Q (box_at p b s) s"
  by (simp add: get_box_def the_space_def box_at_def)

text \<open>When a key would still fit into the box.\<close>

definition room :: "textBox \<Rightarrow> u8 \<Rightarrow> bool" where
  "room t ch \<longleftrightarrow> ch \<noteq> 0 \<and> (225 \<le> ch \<or> ch = 8 \<or> t_textLength t + 1 < int MAX_STRING_NUM)"

lemma key_action_ok:
  assumes q: "queue s ws" and ne: "ws \<noteq> []" and c: "cur_proc s \<noteq> None" and r: "cr3 s = Some p"
    and t: "tb_wf (box_at p b s)" and room: "room (box_at p b s) ch"
  shows "kwp (key_action b ch) (\<lambda>_ u. gframe s u \<and> tb_wf (box_at p b u)) s"
proof -
  let ?t = "box_at p b s"
  have S: "kwp (set_box b t') (\<lambda>_. kwp updateLastWindow (\<lambda>_ u. gframe s u \<and> tb_wf (box_at p b u))) s" if "tb_wf t'" for t'
  proof -
    have "kwp (kthen (set_box b t') updateLastWindow) (\<lambda>_ u. gframe s u \<and> tb_wf (box_at p b u)) s"
      by (rule kwp_mono [OF set_and_redraw [OF q ne c r]]) (use that in auto)
    then show ?thesis by simp
  qed
  consider (ins) "ch < 225" "ch \<noteq> 8" | (del) "ch = 8" | (move) "ch = 226 \<or> ch = 227 \<or> ch = 228 \<or> ch = 229"
    | (other) "\<not> ch < 225" "ch \<noteq> 8" "\<not> (ch = 226 \<or> ch = 227 \<or> ch = 228 \<or> ch = 229)" by blast
  then show ?thesis
  proof cases
    case ins
    then have "ch \<noteq> 226" "ch \<noteq> 227" "ch \<noteq> 228" "ch \<noteq> 229" by auto
    moreover obtain t' where "insert_text ?t ch = Ok t'" "tb_wf t'"
      using insert_text_ok [OF t] room ins by (auto simp: room_def)
    ultimately show ?thesis using ins
      by (simp add: key_action_def insertCharacter_def get_box_wp [OF r] S)
  next
    case del
    have "0 \<le> t_cursor ?t" using t by (simp add: tb_wf_def)
    then show ?thesis using del t delete_text_ok [OF t]
      by (cases "t_cursor ?t = 0") (auto simp: key_action_def deleteCharacter_def get_box_wp [OF r] S, auto simp: gframe_def)
  next
    case move
    then have "\<not> (ch < 225 \<and> ch \<noteq> 8)" "ch \<noteq> 8" by auto
    then show ?thesis using move t move_text_ok [OF t, of ch]
      by (auto simp: key_action_def moveCursor_def get_box_wp [OF r] S split: option.split) (auto simp: gframe_def)
  next
    case other
    then show ?thesis using t by (auto simp: key_action_def gframe_def)
  qed
qed

section \<open>Properties\<close>

text \<open>
  C30: Inserting a character puts it into the text at the cursor and deleting takes
  out the character before the cursor: after an insertion that fits, a deletion
  gives the text and the cursor back, and the text box stays well formed.
\<close>

theorem insert_delete_roundtrip:
  assumes "tb_wf t" "t_textLength t + 1 < int MAX_STRING_NUM" "ch \<noteq> 0"
  shows "\<exists>t1 t2. insert_text t ch = Ok t1 \<and> content t1 = take (nat (t_cursor t)) (content t) @ ch # drop (nat (t_cursor t)) (content t)
    \<and> delete_text t1 = Ok t2 \<and> tb_wf t1 \<and> tb_wf t2 \<and> content t2 = content t \<and> t_cursor t2 = t_cursor t"
proof -
  obtain t1 where t1: "insert_text t ch = Ok t1" "tb_wf t1" "t_cursor t1 = t_cursor t + 1"
    "content t1 = take (nat (t_cursor t)) (content t) @ ch # drop (nat (t_cursor t)) (content t)"
    using insert_text_ok [OF assms] by blast
  have c: "0 \<le> t_cursor t" "nat (t_cursor t) \<le> length (content t)" using assms(1) by (auto simp: tb_wf_def content_def)
  then obtain t2 where t2: "delete_text t1 = Ok t2" "tb_wf t2" "t_cursor t2 = t_cursor t1 - 1"
    "content t2 = take (nat (t_cursor t1) - 1) (content t1) @ drop (nat (t_cursor t1)) (content t1)"
    using delete_text_ok [OF t1(2)] t1(3) by auto
  have "content t2 = content t" using t2(4) t1(3,4) c by (simp add: nat_add_distrib)
  then show ?thesis using t1 t2 by auto
qed

definition demo_box :: textBox where
  "demo_box = \<lparr>t_fixed = True, t_leftTopX = 0, t_leftTopY = 0, t_width = 300, t_height = 200, t_cursor = 4, t_textLength = 5,
     t_text = [97, 98, 99, 10, 100] @ replicate 251 0\<rparr>"

lemma demo_box_wf: "tb_wf demo_box"
proof -
  have "(\<forall>i < 5. P i) \<longleftrightarrow> (\<forall>i \<in> set [0..<5 :: nat]. P i)" for P by auto
  then show ?thesis by (simp add: tb_wf_def demo_box_def MAX_STRING_NUM_def upt_rec)
qed

theorem insert_delete_roundtrip_witness:
  "\<exists>t1 t2. insert_text demo_box 120 = Ok t1 \<and> content t1 = [97, 98, 99, 10, 120, 100] \<and> delete_text t1 = Ok t2
    \<and> content t2 = [97, 98, 99, 10, 100] \<and> t_cursor t2 = 4"
  using insert_delete_roundtrip [OF demo_box_wf, of 120] by (auto simp: demo_box_def content_def MAX_STRING_NUM_def)

text \<open>
  C33: Any key that fits leaves the keyboard handler returned, the text box of the
  top window well formed (terminated inside its array, the cursor inside the text)
  and the window queue as it was.
\<close>

theorem key_keeps_text_box:
  assumes q: "queue s ws" and ne: "ws \<noteq> []" and c: "cur_proc s \<noteq> None"
    and o: "q_proc (wq s (last ws)) = Some p" "q_window (wq s (last ws)) = Some a"
    and b: "first_box (widgets (u_window (uspace s p) a)) = Some b" and t: "tb_wf (box_at p b s)" "room (box_at p b s) ch"
  shows "\<exists>u. keyboardHandler ch s = Ok ((), u) \<and> tb_wf (box_at p b u) \<and> queue u ws"
proof -
  let ?s = "s\<lparr>cr3 := Some p\<rparr>"
  have l: "lastWindow s = last ws" using q ne by (simp add: queue_def queue_on_def)
  have "kwp (key_action b ch) (\<lambda>_ u. gframe ?s u \<and> tb_wf (box_at p b u)) ?s"
    using q c t by (intro key_action_ok [OF _ ne]) (simp_all add: queue_def box_at_def)
  then have "kwp (key_action b ch) (\<lambda>_. kwp restore_vm (\<lambda>_ u. gframe s u \<and> tb_wf (box_at p b u))) ?s"
    by (rule kwp_mono) (use c in \<open>auto simp: restore_vm_def switchuvm_def gframe_def box_at_def\<close>)
  then have "kwp (keyboardHandler ch) (\<lambda>_ u. gframe s u \<and> tb_wf (box_at p b u)) s"
    using o l c b by (auto simp: keyboardHandler_def node_def switchuvm_def last_win_def the_space_def)
  then show ?thesis using q by (auto simp: kwp_Ok queue_gframe)
qed

definition demo_kbd :: gui_st where
  "demo_kbd = (demo_gui [3])\<lparr>uspace := (\<lambda>_. demo_umem\<lparr>u_window := (\<lambda>_. demo_window\<lparr>widgets := [WLabel 4, WTextBox 8]\<rparr>),
     u_textBox := (\<lambda>_. demo_box)\<rparr>)\<rparr>"

theorem key_keeps_text_box_witness:
  "\<exists>u. keyboardHandler 226 demo_kbd = Ok ((), u) \<and> tb_wf (box_at 13 8 u) \<and> queue u [3]"
proof (rule key_keeps_text_box)
  show "queue demo_kbd [3]" using demo_gui_queue(2) by (simp add: demo_kbd_def queue_def)
qed (simp_all add: demo_kbd_def demo_gui_def demo_queue_def first_box_def box_at_def demo_box_wf room_def upt_rec MAX_WINDOW_NUM_def Let_def)

text \<open>
  The up and down keys move the cursor one line and keep the column, as far as
  the line it comes to is long enough.
\<close>

theorem cursor_up_down:
  assumes "tb_wf t" "c = nat (t_cursor t)"
  shows "(0 < row_of (t_text t) c \<longrightarrow> (\<exists>c'. move_up t = Some (t\<lparr>t_cursor := int c'\<rparr>) \<and> row_of (t_text t) c' + 1 = row_of (t_text t) c
      \<and> col_of (t_text t) c' = min (col_of (t_text t) c) (line_start (t_text t) c - 1 - line_start (t_text t) (line_start (t_text t) c - 1))))
    \<and> (row_of (t_text t) c < row_of (t_text t) (nat (t_textLength t)) \<longrightarrow> (\<exists>c' e. move_down t = Some (t\<lparr>t_cursor := int c'\<rparr>)
      \<and> row_of (t_text t) c' = row_of (t_text t) c + 1 \<and> c' \<le> e \<and> (t_text t ! e = 10 \<or> e = nat (t_textLength t))
      \<and> row_of (t_text t) e = row_of (t_text t) c' \<and> col_of (t_text t) c' = min (col_of (t_text t) c) (col_of (t_text t) e)))"
  using move_up_spec [OF assms] move_down_spec [OF assms] by blast

theorem cursor_up_down_witness:
  "tb_wf demo_box \<and> (\<exists>c'. move_up demo_box = Some (demo_box\<lparr>t_cursor := int c'\<rparr>) \<and> row_of (t_text demo_box) c' = 0 \<and> col_of (t_text demo_box) c' = 0)"
proof -
  have "row_of (t_text demo_box) 4 = 1" by (simp add: row_of_def demo_box_def)
  moreover have "line_start (t_text demo_box) 4 = 4" by (rule line_start_unique) (simp_all add: demo_box_def)
  moreover have "nat (t_cursor demo_box) = 4" by (simp add: demo_box_def)
  ultimately show ?thesis using cursor_up_down [OF demo_box_wf, of 4] demo_box_wf by (auto simp: col_of_def)
qed



text \<open>The scan codes of the letter keys, in the order of the alphabet.\<close>

definition letter_keys :: "u8 list" where
  "letter_keys = [0x1E, 0x30, 0x2E, 0x20, 0x12, 0x21, 0x22, 0x23, 0x17, 0x24, 0x25, 0x26, 0x32, 0x31, 0x18, 0x19, 0x10,
     0x13, 0x1F, 0x14, 0x16, 0x2F, 0x11, 0x2D, 0x15, 0x2C]"

text \<open>
  The letter keys. Without modifiers a key gives its small letter, with either
  shift or caps lock the capital, with both the small letter again, and with
  control the control character; the modifiers stay as they are.
\<close>

theorem letter_keys_decoded:
  "map (decode_key 0) letter_keys = map (\<lambda>k. (0, 97 + k)) (map of_nat [0..<26])
    \<and> map (decode_key SHIFT) letter_keys = map (\<lambda>k. (SHIFT, 65 + k)) (map of_nat [0..<26])
    \<and> map (decode_key CAPSLOCK) letter_keys = map (\<lambda>k. (CAPSLOCK, 65 + k)) (map of_nat [0..<26])
    \<and> map (decode_key (SHIFT OR CAPSLOCK)) letter_keys = map (\<lambda>k. (SHIFT OR CAPSLOCK, 97 + k)) (map of_nat [0..<26])
    \<and> map (decode_key CTL) letter_keys = map (\<lambda>k. (CTL, 1 + k)) (map of_nat [0..<26])"
  by code_simp

lemma and_not_disjoint:
  fixes a b c :: "'a :: len word"
  assumes "a AND b = 0"
  shows "a AND NOT b = a" "a AND NOT (c OR b) = a AND NOT c" "(a OR b) AND NOT b = a"
proof -
  have *: "\<not> (bit a n \<and> bit b n)" for n using arg_cong [OF assms, of "\<lambda>w. bit w n"] by (simp add: bit_and_iff)
  show "a AND NOT b = a" "a AND NOT (c OR b) = a AND NOT c" "(a OR b) AND NOT b = a"
    using * by (auto intro!: bit_word_eqI simp: bit_and_iff bit_or_iff bit_not_iff)
qed

lemma release_byte:
  assumes "(d :: u8) AND 0x80 = 0"
  shows "(d OR 0x80) AND 0x7F = d" "(d OR 0x80) AND 0x80 = 0x80"
proof -
  have m: "(0x7F :: u8) = NOT 0x80" by simp
  show "(d OR 0x80) AND 0x7F = d" unfolding m by (rule and_not_disjoint [OF assms])
  show "(d OR 0x80) AND 0x80 = 0x80" using assms by (simp add: bit.conj_disj_distrib2)
qed

lemma code_bits: "shiftcode d AND E0ESC = 0" "togglecode d AND E0ESC = 0"
  by (simp_all add: shiftcode_def togglecode_def CTL_def SHIFT_def ALT_def CAPSLOCK_def NUMLOCK_def SCROLLLOCK_def E0ESC_def)

text \<open>
  Modifier keys. Pressing a key and releasing it clears exactly its shift bit
  and flips its lock bit; the byte 0xE0 makes the next byte an extended code and is
  forgotten after it, on press as on release.
\<close>

theorem modifier_press_release:
  assumes "d AND 0x80 = 0" "d \<noteq> 0x60" "sh AND E0ESC = 0"
  shows "fst (decode_key (fst (decode_key sh d)) (d OR 0x80)) = ((sh OR shiftcode d) XOR togglecode d) AND NOT (shiftcode d)
    \<and> fst (decode_key (fst (decode_key sh 0xE0)) d) AND E0ESC = 0
    \<and> fst (decode_key (fst (decode_key sh 0xE0)) (d OR 0x80)) = sh AND NOT (shiftcode (d OR 0x80))"
proof -
  have e: "d \<noteq> 0xE0" "d OR 0x80 \<noteq> 0xE0" using assms release_byte [OF assms(1)] by auto
  have sh: "((sh OR shiftcode d) XOR togglecode d) AND E0ESC = 0" "(sh OR E0ESC) AND E0ESC = E0ESC" "E0ESC \<noteq> 0"
    using assms(3) code_bits by (auto simp: bit.conj_disj_distrib2 bit.conj_xor_distrib2 E0ESC_def)
  have u: "(sh OR E0ESC) AND NOT (x OR E0ESC) = sh AND NOT x" for x
  proof -
    have "(sh OR E0ESC) AND NOT (x OR E0ESC) = ((sh OR E0ESC) AND NOT E0ESC) AND NOT x"
      by (rule bit_word_eqI) (auto simp: bit_and_iff bit_or_iff bit_not_iff)
    then show ?thesis using and_not_disjoint(3) [OF assms(3)] by simp
  qed
  have 1: "fst (decode_key sh d) = (sh OR shiftcode d) XOR togglecode d" "fst (decode_key sh 0xE0) = sh OR E0ESC"
    using assms e by (simp_all add: decode_key_def Let_def)
  have 2: "fst (decode_key ((sh OR shiftcode d) XOR togglecode d) (d OR 0x80)) = ((sh OR shiftcode d) XOR togglecode d) AND NOT (shiftcode d)"
    using e release_byte [OF assms(1)] sh(1) and_not_disjoint(2) [OF sh(1), of "shiftcode d"] by (simp add: decode_key_def Let_def)
  have 3: "fst (decode_key (sh OR E0ESC) (d OR 0x80)) = sh AND NOT (shiftcode (d OR 0x80))"
    using e release_byte [OF assms(1)] sh u by (simp add: decode_key_def Let_def)
  have 4: "fst (decode_key (sh OR E0ESC) d) = (sh OR shiftcode (d OR 0x80)) XOR togglecode (d OR 0x80)"
    using e assms sh and_not_disjoint(3) [OF assms(3)] by (simp add: decode_key_def Let_def)
  show ?thesis
    using 1 2 3 4 assms(3) code_bits [of "d OR 0x80"] by (simp add: bit.conj_disj_distrib2 bit.conj_xor_distrib2)
qed

theorem modifier_press_release_witness:
  "fst (decode_key (fst (decode_key (SHIFT OR CTL) 0x2A)) 0xAA) = CTL \<and> fst (decode_key (fst (decode_key CTL 0x3A)) 0xBA) = CTL OR CAPSLOCK"
proof -
  have "(SHIFT OR CTL) AND E0ESC = 0" "CTL AND E0ESC = 0" by (simp_all add: SHIFT_def CTL_def E0ESC_def)
  then show ?thesis using modifier_press_release [of "0x2A" "SHIFT OR CTL"] modifier_press_release [of "0x3A" CTL]
    by (simp add: shiftcode_def togglecode_def SHIFT_def CTL_def CAPSLOCK_def)
qed

end
