(* ===== verification/Ring.thy ===== *)
theory Ring
  imports Prelude
begin

text \<open>
  Circular buffers with free-running 32-bit indices, as the pipe and the console
  input use them: element \<open>i\<close> is stored at \<open>i mod N\<close>, and the indices wrap at
  \<open>2 ^ 32\<close>, which the size \<open>N\<close> divides. The locale \<open>fifo\<close> is what their clients rely
  on; it shows that bytes come out in the order they went in.
\<close>

definition ring :: "nat \<Rightarrow> u8 list \<Rightarrow> u32 \<Rightarrow> u32 \<Rightarrow> u8 list" where
  "ring N d r w = map (\<lambda>k. d ! (unat (r + of_nat k) mod N)) [0..<unat (w - r)]"

lemma length_ring [simp]: "length (ring N d r w) = unat (w - r)"
  by (simp add: ring_def)

lemma ring_empty: "ring N d r w = [] \<longleftrightarrow> r = w"
proof -
  have "ring N d r w = [] \<longleftrightarrow> unat (w - r) = 0" by (metis length_0_conv length_ring)
  then show ?thesis by (auto simp: unat_eq_zero)
qed

lemma unat_add_mod: "N dvd 4294967296 \<Longrightarrow> unat ((r :: u32) + of_nat k) mod N = (unat r + k) mod N"
proof -
  assume N: "N dvd 4294967296"
  have "unat (r + of_nat k) = (unat r + k) mod 4294967296" by (simp add: unat_word_ariths unat_of_nat mod_simps)
  then show ?thesis using N by (simp add: mod_mod_cancel)
qed

lemma ring_get:
  assumes "r \<noteq> w"
  shows "ring N d r w = d ! (unat r mod N) # ring N d (r + 1) w"
proof -
  obtain n where n: "unat (w - r) = Suc n" using assms by (cases "unat (w - r)") (auto simp: unat_eq_zero)
  have "w - r = of_nat (unat (w - r))" by simp
  then have "w - r = of_nat (Suc n)" unfolding n .
  then have "w - (r + 1) = of_nat n" by (simp add: algebra_simps)
  moreover have "unat (w - r) < 2 ^ LENGTH(32)" by (rule unsigned_less)
  then have "n < 4294967296" using n by simp
  ultimately have u: "unat (w - r) = Suc (unat (w - (r + 1)))" using n by (simp add: unat_of_nat32)
  have "[0..<unat (w - r)] = 0 # map Suc [0..<unat (w - (r + 1))]" unfolding u by (simp add: upt_conv_Cons map_Suc_upt del: upt_Suc)
  then show ?thesis by (simp add: ring_def add.assoc)
qed

lemma ring_put:
  assumes N: "N dvd 4294967296" "length d = N" "0 < N" and f: "unat (w - r) < N" "N < 4294967296"
  shows "ring N (d[unat w mod N := b]) r (w + 1) = ring N d r w @ [b]"
proof -
  let ?m = "unat (w - r)"
  have "?m + 1 < 4294967296" using f by linarith
  then have m: "unat (w + 1 - r) = Suc ?m" using unat_plus32 [of "w - r" 1] by (simp add: algebra_simps)
  have w: "w = r + of_nat ?m" by simp
  have ne: "unat (r + of_nat k) mod N \<noteq> unat w mod N" if "k < ?m" for k
  proof
    assume eq: "unat (r + of_nat k) mod N = unat w mod N"
    have "(unat r + k) mod N = (unat r + ?m) mod N" using eq unat_add_mod [OF N(1), of r] w by metis
    then have "N dvd (unat r + ?m) - (unat r + k)" using that by (subst mod_eq_dvd_iff_nat [symmetric]) auto
    then show False using that f(1) by (auto dest: dvd_imp_le)
  qed
  have "ring N (d[unat w mod N := b]) r (w + 1) = map (\<lambda>k. d[unat w mod N := b] ! (unat (r + of_nat k) mod N)) ([0..<?m] @ [?m])"
    by (simp add: ring_def m)
  also have "\<dots> = map (\<lambda>k. d ! (unat (r + of_nat k) mod N)) [0..<?m] @ [b]" 
  proof -
    have "map (\<lambda>k. d[unat w mod N := b] ! (unat (r + of_nat k) mod N)) [0..<?m] = map (\<lambda>k. d ! (unat (r + of_nat k) mod N)) [0..<?m]"
      by (rule map_cong) (use ne in \<open>auto simp: nth_list_update_neq [OF not_sym]\<close>)
    then show ?thesis using w N by simp
  qed
  finally show ?thesis by (simp add: ring_def)
qed

lemma ring_append:
  assumes "unat (w - r) \<le> unat (e - r)"
  shows "ring N d r e = ring N d r w @ ring N d w e" "unat (e - w) = unat (e - r) - unat (w - r)"
proof -
  have "w - r \<le> e - r" using assms by (simp add: word_le_nat_alt)
  from unat_sub [OF this] show u: "unat (e - w) = unat (e - r) - unat (w - r)" by simp
  have "[0..<unat (e - r)] = [0..<unat (w - r)] @ map (\<lambda>k. k + unat (w - r)) [0..<unat (e - w)]"
    using assms upt_add_eq_append [of 0 "unat (w - r)" "unat (e - w)"] by (simp add: u map_add_upt)
  then show "ring N d r e = ring N d r w @ ring N d w e" by (simp add: ring_def add.commute)
qed

lemma ring_snoc:
  assumes "e \<noteq> w"
  shows "ring N d w e = ring N d w (e - 1) @ [d ! (unat (e - 1) mod N)]"
proof -
  have ne: "e - w \<noteq> 0" using assms by simp
  have "unat (e - w) = Suc (unat (e - w - 1))" using unat_minus_one [OF ne] ne unat_eq_0 [of "e - w"] by linarith
  then have u: "unat (e - w) = Suc (unat (e - 1 - w))" by (simp add: algebra_simps)
  have "w + of_nat (unat (e - 1 - w)) = e - 1" by simp
  then show ?thesis by (simp add: ring_def u)
qed

section \<open>Queues\<close>

text \<open>
  \<open>put\<close> and \<open>get\<close> of a buffer with room for \<open>cap\<close> bytes, and what they do to its
  contents.
\<close>

locale fifo =
  fixes wf :: "'s \<Rightarrow> bool" and stored :: "'s \<Rightarrow> u8 list" and cap :: nat
    and put :: "u8 \<Rightarrow> 's \<Rightarrow> 's" and get :: "'s \<Rightarrow> u8 \<times> 's"
  assumes put_law: "wf s \<Longrightarrow> length (stored s) < cap \<Longrightarrow> wf (put b s) \<and> stored (put b s) = stored s @ [b]"
    and get_law: "wf s \<Longrightarrow> stored s = b # bs \<Longrightarrow> \<exists>t. get s = (b, t) \<and> wf t \<and> stored t = bs"
begin

text \<open>Writing as much of \<open>bs\<close> as fits, and reading at most \<open>n\<close> bytes.\<close>

primrec put_all :: "u8 list \<Rightarrow> 's \<Rightarrow> u8 list \<times> 's" where
  "put_all [] s = ([], s)"
| "put_all (b # bs) s = (if length (stored s) < cap then put_all bs (put b s) else (b # bs, s))"

primrec get_all :: "nat \<Rightarrow> 's \<Rightarrow> u8 list \<times> 's" where
  "get_all 0 s = ([], s)"
| "get_all (Suc n) s = (if stored s = [] then ([], s) else let (b, t) = get s; (bs, u) = get_all n t in (b # bs, u))"

lemma put_all_spec:
  "wf s \<Longrightarrow> length (stored s) \<le> cap \<Longrightarrow> put_all bs s = (rest, t) \<Longrightarrow>
    wf t \<and> stored t = stored s @ take (cap - length (stored s)) bs \<and> rest = drop (cap - length (stored s)) bs"
proof (induction bs arbitrary: s)
  case Nil
  then show ?case by simp
next
  case (Cons b bs)
  show ?case
  proof (cases "length (stored s) < cap")
    case True
    then have p: "wf (put b s)" "stored (put b s) = stored s @ [b]" using put_law [OF Cons.prems(1)] by auto
    then have "wf t \<and> stored t = stored (put b s) @ take (cap - length (stored (put b s))) bs \<and> rest = drop (cap - length (stored (put b s))) bs"
      using Cons.prems True by (intro Cons.IH) auto
    moreover have "cap - length (stored s) = Suc (cap - length (stored (put b s)))" using True p by simp
    ultimately show ?thesis using p by simp
  next
    case False
    then show ?thesis using Cons.prems by simp
  qed
qed

lemma get_all_spec:
  "wf s \<Longrightarrow> get_all n s = (bs, t) \<Longrightarrow> wf t \<and> bs = take n (stored s) \<and> stored t = drop n (stored s)"
proof (induction n arbitrary: s bs t)
  case 0
  then show ?case by simp
next
  case (Suc n)
  show ?case
  proof (cases "stored s")
    case Nil
    then show ?thesis using Suc.prems by simp
  next
    case (Cons b cs)
    then obtain u where u: "get s = (b, u)" "wf u" "stored u = cs" using get_law [OF Suc.prems(1)] by blast
    obtain ds v where d: "get_all n u = (ds, v)" by fastforce
    then have "wf v \<and> ds = take n (stored u) \<and> stored v = drop n (stored u)" using Suc.IH u by blast
    then show ?thesis using Suc.prems Cons u d by auto
  qed
qed

end

end
