(* ===== verification/Pipe.thy ===== *)
theory Pipe
  imports Ring
begin

text \<open>
  Pipes (\<open>pipe.c\<close>). A call of \<open>pipewrite\<close> or \<open>piperead\<close> holds the lock of the pipe from
  one \<open>sleep\<close> to the next, so the parts between two sleeps are single steps:
  \<open>write_loop\<close> and \<open>piperead\<close> run to the end of the call or to the next sleep. The
  step relation interleaves a writer and a reader with their sleeps and wakeups.
  Shown here: bytes arrive in the order they were written, none is lost, the two
  never sleep at the same time, and a write is delivered to the end.
\<close>

section \<open>The buffer\<close>

definition PIPESIZE :: nat where "PIPESIZE = 512"

record pipe =
  p_data :: "u8 list"
  nread :: u32
  nwrite :: u32
  readopen :: bool
  writeopen :: bool

definition pipe_full :: "pipe \<Rightarrow> bool" where
  "pipe_full p \<longleftrightarrow> nwrite p = nread p + of_nat PIPESIZE"

definition pipe_put :: "u8 \<Rightarrow> pipe \<Rightarrow> pipe" where
  "pipe_put b p = p\<lparr>p_data := (p_data p)[unat (nwrite p) mod PIPESIZE := b], nwrite := nwrite p + 1\<rparr>"

definition pipe_get :: "pipe \<Rightarrow> u8 \<times> pipe" where
  "pipe_get p = (p_data p ! (unat (nread p) mod PIPESIZE), p\<lparr>nread := nread p + 1\<rparr>)"

section \<open>Writing and reading\<close>

text \<open>How a part of a call ends: it returns, fails with \<open>-1\<close>, or goes to sleep.\<close>

datatype pipe_end = Done | Failed | Asleep

text \<open>
  The loop of \<open>pipewrite\<close> over the bytes still to write, with \<open>proc->killed\<close>. The bytes
  left over tell where the call goes on after a sleep.
\<close>

fun write_loop :: "bool \<Rightarrow> u8 list \<Rightarrow> pipe \<Rightarrow> pipe \<times> u8 list \<times> pipe_end" where
  "write_loop killed [] p = (p, [], Done)"
| "write_loop killed (b # bs) p =
     (if pipe_full p then
        if \<not> readopen p \<or> killed then (p, b # bs, Failed) else (p, b # bs, Asleep)
      else write_loop killed bs (pipe_put b p))"

primrec read_loop :: "nat \<Rightarrow> pipe \<Rightarrow> u8 list \<times> pipe" where
  "read_loop 0 p = ([], p)"
| "read_loop (Suc n) p =
     (if nread p = nwrite p then ([], p)
      else let (b, p) = pipe_get p; (bs, p) = read_loop n p in (b # bs, p))"

definition piperead :: "bool \<Rightarrow> nat \<Rightarrow> pipe \<Rightarrow> pipe \<times> u8 list \<times> pipe_end" where
  "piperead killed n p =
     (if nread p = nwrite p \<and> writeopen p then
        if killed then (p, [], Failed) else (p, [], Asleep)
      else let (bs, p) = read_loop n p in (p, bs, Done))"

text \<open>A whole \<open>pipewrite\<close> that never has to sleep: \<open>-1\<close> or the number of bytes.\<close>

definition pipewrite :: "bool \<Rightarrow> u8 list \<Rightarrow> (pipe, int) km" where
  "pipewrite killed bs = (\<lambda>p. case write_loop killed bs p of
     (p, _, Done) \<Rightarrow> Ok (int (length bs), p) | (p, _, Failed) \<Rightarrow> Ok (-1, p) | (p, _, Asleep) \<Rightarrow> Sleep ''pipewrite'')"

section \<open>The buffer is a queue\<close>

definition pipe_wf :: "pipe \<Rightarrow> bool" where
  "pipe_wf p \<longleftrightarrow> length (p_data p) = PIPESIZE \<and> unat (nwrite p - nread p) \<le> PIPESIZE"

definition pipe_bytes :: "pipe \<Rightarrow> u8 list" where
  "pipe_bytes p = ring PIPESIZE (p_data p) (nread p) (nwrite p)"

lemma PIPESIZE_facts: "PIPESIZE dvd 4294967296" "0 < PIPESIZE" "PIPESIZE < 4294967296"
  by (simp_all add: PIPESIZE_def)

lemma pipe_full_iff: "pipe_wf p \<Longrightarrow> pipe_full p \<longleftrightarrow> length (pipe_bytes p) = PIPESIZE"
proof -
  have "nwrite p = nread p + of_nat PIPESIZE \<longleftrightarrow> nwrite p - nread p = of_nat PIPESIZE" by (auto simp: algebra_simps)
  also have "\<dots> \<longleftrightarrow> unat (nwrite p - nread p) = PIPESIZE"
    using unat_of_nat32 [of PIPESIZE] PIPESIZE_facts(3) by (metis word_unat_eq_iff)
  finally show ?thesis by (simp add: pipe_full_def pipe_bytes_def)
qed

interpretation pipe_fifo: fifo pipe_wf pipe_bytes PIPESIZE pipe_put pipe_get
proof
  show "pipe_wf (pipe_put b p) \<and> pipe_bytes (pipe_put b p) = pipe_bytes p @ [b]" if "pipe_wf p" "length (pipe_bytes p) < PIPESIZE" for p b
  proof -
    have u: "unat (nwrite p - nread p) < PIPESIZE" using that by (simp add: pipe_bytes_def)
    have "pipe_bytes (pipe_put b p) = pipe_bytes p @ [b]"
      using that u PIPESIZE_facts by (simp add: pipe_bytes_def pipe_put_def ring_put pipe_wf_def)
    then have "unat (nwrite (pipe_put b p) - nread (pipe_put b p)) = Suc (unat (nwrite p - nread p))"
      by (metis length_append_singleton length_ring pipe_bytes_def)
    then show ?thesis using \<open>pipe_bytes (pipe_put b p) = _\<close> that(1) u by (simp add: pipe_wf_def pipe_put_def)
  qed
  show "\<exists>t. pipe_get p = (b, t) \<and> pipe_wf t \<and> pipe_bytes t = bs" if "pipe_wf p" "pipe_bytes p = b # bs" for p b bs
  proof -
    have "nread p \<noteq> nwrite p" using that(2) ring_empty [of PIPESIZE "p_data p" "nread p" "nwrite p"] by (auto simp: pipe_bytes_def)
    then have r: "b # bs = p_data p ! (unat (nread p) mod PIPESIZE) # ring PIPESIZE (p_data p) (nread p + 1) (nwrite p)"
      using that(2) ring_get [of "nread p" "nwrite p" PIPESIZE "p_data p"] by (simp add: pipe_bytes_def)
    then have "length bs = unat (nwrite p - (nread p + 1))" by simp
    moreover have "Suc (length bs) \<le> PIPESIZE" using that by (metis length_Cons length_ring pipe_bytes_def pipe_wf_def)
    ultimately show ?thesis using that(1) r by (simp add: pipe_get_def pipe_wf_def pipe_bytes_def)
  qed
qed

lemma put_keeps: "readopen (pipe_put b p) = readopen p" "writeopen (pipe_put b p) = writeopen p"
  by (simp_all add: pipe_put_def)

text \<open>The loops of the code are those of the queue.\<close>

lemma write_loop_fifo:
  "pipe_wf p \<Longrightarrow> write_loop killed bs p = (let (rest, q) = pipe_fifo.put_all bs p in
     (q, rest, if rest = [] then Done else if \<not> readopen p \<or> killed then Failed else Asleep))"
proof (induction bs arbitrary: p)
  case Nil
  then show ?case by simp
next
  case (Cons b bs)
  have le: "length (pipe_bytes p) \<le> PIPESIZE" using Cons.prems by (simp add: pipe_wf_def pipe_bytes_def)
  show ?case
  proof (cases "pipe_full p")
    case True
    then show ?thesis using pipe_full_iff [OF Cons.prems] by simp
  next
    case False
    then have "length (pipe_bytes p) < PIPESIZE" using pipe_full_iff [OF Cons.prems] le by simp
    then show ?thesis using False Cons.IH [of "pipe_put b p"] pipe_fifo.put_law [OF Cons.prems]
      by (cases "pipe_fifo.put_all bs (pipe_put b p)") (simp add: put_keeps)
  qed
qed

lemma read_loop_fifo: "pipe_wf p \<Longrightarrow> read_loop n p = pipe_fifo.get_all n p"
proof (induction n arbitrary: p)
  case 0
  then show ?case by simp
next
  case (Suc n)
  have e: "nread p = nwrite p \<longleftrightarrow> pipe_bytes p = []" by (auto simp: pipe_bytes_def ring_empty)
  show ?case
  proof (cases "pipe_bytes p")
    case (Cons b bs)
    then obtain q where "pipe_get p = (b, q)" "pipe_wf q" using pipe_fifo.get_law [OF Suc.prems] by blast
    then show ?thesis using Suc.IH [of q] Cons e by simp
  qed (simp add: e)
qed

lemma loop_keeps: "write_loop k bs p = (q, rest, e) \<Longrightarrow> readopen q = readopen p \<and> writeopen q = writeopen p"
proof (induction k bs p rule: write_loop.induct)
  case (2 k b bs p)
  then show ?case by (auto simp: put_keeps split: if_splits)
qed auto

lemma read_keeps: "read_loop n p = (bs, q) \<Longrightarrow> readopen q = readopen p \<and> writeopen q = writeopen p"
  by (induction n arbitrary: p bs) (auto simp: pipe_get_def Let_def split: if_splits prod.splits)

lemma write_loop_spec:
  assumes "pipe_wf p" "write_loop False bs p = (q, rest, e)"
  shows "pipe_wf q" "pipe_bytes q @ rest = pipe_bytes p @ bs" "length (pipe_bytes q) \<le> PIPESIZE"
    "rest = [] \<longleftrightarrow> e = Done" "rest \<noteq> [] \<Longrightarrow> length (pipe_bytes q) = PIPESIZE" "e = Failed \<Longrightarrow> \<not> readopen p"
proof -
  obtain r q' where f: "pipe_fifo.put_all bs p = (r, q')" by fastforce
  then have eq: "q = q'" "rest = r" "e = (if r = [] then Done else if \<not> readopen p then Failed else Asleep)"
    using assms write_loop_fifo [of p False bs] by auto
  have le: "length (pipe_bytes p) \<le> PIPESIZE" using assms(1) by (simp add: pipe_wf_def pipe_bytes_def)
  note P = pipe_fifo.put_all_spec [OF assms(1) le f]
  show "pipe_wf q" "pipe_bytes q @ rest = pipe_bytes p @ bs" "length (pipe_bytes q) \<le> PIPESIZE"
    "rest = [] \<longleftrightarrow> e = Done" "e = Failed \<Longrightarrow> \<not> readopen p"
    using P eq le by (auto split: if_splits)
  show "length (pipe_bytes q) = PIPESIZE" if "rest \<noteq> []" using P eq le that by auto
qed

lemma piperead_spec:
  assumes "pipe_wf p" "piperead False n p = (q, bs, e)"
  shows "pipe_wf q" "bs @ pipe_bytes q = pipe_bytes p" "e \<noteq> Failed" "e = Asleep \<longleftrightarrow> pipe_bytes p = [] \<and> writeopen p"
    "e = Done \<Longrightarrow> bs = take n (pipe_bytes p)" "e = Asleep \<Longrightarrow> q = p \<and> bs = []"
proof -
  have e: "nread p = nwrite p \<longleftrightarrow> pipe_bytes p = []" by (auto simp: pipe_bytes_def ring_empty)
  obtain cs q' where r: "read_loop n p = (cs, q')" by fastforce
  have g: "pipe_wf q' \<and> cs = take n (pipe_bytes p) \<and> pipe_bytes q' = drop n (pipe_bytes p)"
    using pipe_fifo.get_all_spec [OF assms(1)] r read_loop_fifo [OF assms(1)] by metis
  show "pipe_wf q" "bs @ pipe_bytes q = pipe_bytes p" "e \<noteq> Failed" "e = Asleep \<longleftrightarrow> pipe_bytes p = [] \<and> writeopen p"
    "e = Done \<Longrightarrow> bs = take n (pipe_bytes p)" "e = Asleep \<Longrightarrow> q = p \<and> bs = []"
    using assms g r e by (auto simp: piperead_def split: if_splits)
qed

section \<open>A writer and a reader\<close>

text \<open>
  One call of \<open>pipewrite\<close> with the bytes it still has to write, a reader that calls
  \<open>piperead\<close> again and again, who of them sleeps, and what has been read. \<open>sleep\<close>
  gives up the lock; \<open>wakeup\<close> makes a sleeper run again, which then tests its
  condition anew.
\<close>

record psys =
  s_pipe :: pipe
  s_todo :: "u8 list"
  s_wsleep :: bool
  s_rsleep :: bool
  s_got :: "u8 list"

inductive pstep :: "psys \<Rightarrow> psys \<Rightarrow> bool" where
  w_step: "\<not> s_wsleep s \<Longrightarrow> s_todo s \<noteq> [] \<Longrightarrow> write_loop False (s_todo s) (s_pipe s) = (p, rest, e) \<Longrightarrow> e \<noteq> Failed \<Longrightarrow>
    pstep s (s\<lparr>s_pipe := p, s_todo := rest, s_wsleep := (e = Asleep), s_rsleep := False\<rparr>)"
| r_step: "\<not> s_rsleep s \<Longrightarrow> 0 < n \<Longrightarrow> piperead False n (s_pipe s) = (p, bs, Done) \<Longrightarrow>
    pstep s (s\<lparr>s_pipe := p, s_got := s_got s @ bs, s_wsleep := False\<rparr>)"
| r_sleep: "\<not> s_rsleep s \<Longrightarrow> 0 < n \<Longrightarrow> piperead False n (s_pipe s) = (p, bs, Asleep) \<Longrightarrow>
    pstep s (s\<lparr>s_rsleep := True\<rparr>)"

inductive_cases pstepE: "pstep s t"

definition new_pipe :: "u8 list \<Rightarrow> pipe" where
  "new_pipe d = \<lparr>p_data = d, nread = 0, nwrite = 0, readopen = True, writeopen = True\<rparr>"

definition psys_init :: "u8 list \<Rightarrow> u8 list \<Rightarrow> psys" where
  "psys_init d bs = \<lparr>s_pipe = new_pipe d, s_todo = bs, s_wsleep = False, s_rsleep = False, s_got = []\<rparr>"

definition psys_inv :: "u8 list \<Rightarrow> psys \<Rightarrow> bool" where
  "psys_inv bs s \<longleftrightarrow> pipe_wf (s_pipe s) \<and> readopen (s_pipe s) \<and> writeopen (s_pipe s)
     \<and> s_got s @ pipe_bytes (s_pipe s) @ s_todo s = bs
     \<and> (s_wsleep s \<longrightarrow> length (pipe_bytes (s_pipe s)) = PIPESIZE \<and> s_todo s \<noteq> [])
     \<and> (s_rsleep s \<longrightarrow> pipe_bytes (s_pipe s) = [])"

lemma psys_inv_init: "length d = PIPESIZE \<Longrightarrow> psys_inv bs (psys_init d bs)"
  by (simp add: psys_inv_def psys_init_def new_pipe_def pipe_wf_def pipe_bytes_def ring_def)

lemma psys_inv_step: "pstep s t \<Longrightarrow> psys_inv bs s \<Longrightarrow> psys_inv bs t"
proof (induction rule: pstep.induct)
  case (w_step s p rest e)
  have w: "pipe_wf (s_pipe s)" using w_step.prems by (simp add: psys_inv_def)
  note W = write_loop_spec [OF w w_step.hyps(3)] and K = loop_keeps [OF w_step.hyps(3)]
  show ?case using w_step.prems W K by (cases e) (auto simp: psys_inv_def)
next
  case (r_step s n p cs)
  have w: "pipe_wf (s_pipe s)" using r_step.prems by (simp add: psys_inv_def)
  note R = piperead_spec [OF w r_step.hyps(3)]
  have "readopen p = readopen (s_pipe s) \<and> writeopen p = writeopen (s_pipe s)"
    using r_step.hyps(3) read_keeps by (auto simp: piperead_def split: if_splits prod.splits)
  then show ?case using r_step.prems r_step.hyps(1) R(1,2) by (auto simp: psys_inv_def)
next
  case (r_sleep s n p cs)
  have w: "pipe_wf (s_pipe s)" using r_sleep.prems by (simp add: psys_inv_def)
  show ?case using r_sleep.prems piperead_spec(4) [OF w r_sleep.hyps(3)] by (auto simp: psys_inv_def)
qed

lemma psys_inv_reach: "pstep\<^sup>*\<^sup>* s t \<Longrightarrow> psys_inv bs s \<Longrightarrow> psys_inv bs t"
  by (induction rule: rtranclp_induct) (auto intro: psys_inv_step)

text \<open>Every step comes closer to the end.\<close>

definition psys_measure :: "psys \<Rightarrow> nat" where
  "psys_measure s = 3 * (2 * length (s_todo s) + length (pipe_bytes (s_pipe s))) + (if s_wsleep s then 0 else 1) + (if s_rsleep s then 0 else 1)"

lemma psys_step_less:
  assumes "pstep s t" "psys_inv bs s"
  shows "psys_measure t < psys_measure s"
  using assms
proof (induction rule: pstep.induct)
  case (w_step s p rest e)
  have w: "pipe_wf (s_pipe s)" using w_step.prems by (simp add: psys_inv_def)
  note W = write_loop_spec [OF w w_step.hyps(3)]
  have len: "length (pipe_bytes p) + length rest = length (pipe_bytes (s_pipe s)) + length (s_todo s)"
    using arg_cong [OF W(2), of length] by simp
  have le: "length (pipe_bytes (s_pipe s)) \<le> PIPESIZE" using w by (simp add: pipe_wf_def pipe_bytes_def)
  show ?case
  proof (cases "rest = []")
    case True
    moreover have "Suc 0 < 3 * length (s_todo s)" using w_step.hyps(2) by (cases "s_todo s") auto
    ultimately show ?thesis using len W(4) w_step.hyps(1) by (simp add: psys_measure_def)
  next
    case False
    then have a: "e = Asleep" "length (pipe_bytes p) = PIPESIZE" using W w_step.hyps(4) by (auto intro: pipe_end.exhaust)
    show ?thesis
    proof (cases "length (pipe_bytes (s_pipe s)) = PIPESIZE")
      case True
      then have "\<not> s_rsleep s" using w_step.prems PIPESIZE_facts(2) by (auto simp: psys_inv_def)
      then show ?thesis using True a len w_step.hyps(1) by (simp add: psys_measure_def)
    qed (use a len le w_step.hyps(1) in \<open>simp add: psys_measure_def\<close>)
  qed
next
  case (r_step s n p cs)
  have w: "pipe_wf (s_pipe s)" "writeopen (s_pipe s)" using r_step.prems by (simp_all add: psys_inv_def)
  note R = piperead_spec [OF w(1) r_step.hyps(3)]
  have "pipe_bytes (s_pipe s) \<noteq> []" using R(4) w by auto
  then have "cs \<noteq> []" using R(5) r_step.hyps(2) by simp
  then have "1 \<le> length cs" by (cases cs) auto
  moreover have "length cs + length (pipe_bytes p) = length (pipe_bytes (s_pipe s))" using arg_cong [OF R(2), of length] by simp
  ultimately have "length (pipe_bytes p) < length (pipe_bytes (s_pipe s))" by linarith
  then show ?case using r_step.hyps(1) by (simp add: psys_measure_def)
next
  case (r_sleep s n p cs)
  then show ?case by (simp add: psys_measure_def)
qed

section \<open>Properties\<close>

text \<open>
  C7: Whatever the interleaving of a writer and a reader, the bytes read so far, then
  those in the pipe, then those still to be written are the bytes of the call, in
  order: nothing is lost, doubled or reordered, also when the 32-bit indices wrap.
  And the two never sleep at the same time, so no wakeup is lost.
\<close>

theorem pipe_keeps_order:
  assumes "length d = PIPESIZE" "pstep\<^sup>*\<^sup>* (psys_init d bs) s"
  shows "s_got s @ pipe_bytes (s_pipe s) @ s_todo s = bs \<and> \<not> (s_wsleep s \<and> s_rsleep s)"
  using psys_inv_reach [OF assms(2) psys_inv_init [OF assms(1)]] PIPESIZE_facts(2) by (auto simp: psys_inv_def)

theorem pipe_keeps_order_witness:
  "\<exists>s. pstep\<^sup>*\<^sup>* (psys_init (replicate 512 0) [7, 8]) s \<and> s_todo s = [] \<and> pipe_bytes (s_pipe s) = [7, 8]"
proof -
  let ?i = "psys_init (replicate 512 0) [7, 8]"
  define s where "s = ?i\<lparr>s_pipe := pipe_put 8 (pipe_put 7 (s_pipe ?i)), s_todo := [], s_wsleep := False, s_rsleep := False\<rparr>"
  have "write_loop False [7, 8] (s_pipe ?i) = (pipe_put 8 (pipe_put 7 (s_pipe ?i)), [], Done)"
    by (simp add: pipe_full_def pipe_put_def psys_init_def new_pipe_def PIPESIZE_def)
  from pstep.w_step [of ?i, OF _ _ _ _] this have "pstep ?i s" by (simp add: s_def psys_init_def)
  then have r: "pstep\<^sup>*\<^sup>* ?i s" by blast
  have e: "s_got s = []" "s_todo s = []" by (simp_all add: s_def psys_init_def)
  have "s_got s @ pipe_bytes (s_pipe s) @ s_todo s = [7, 8]"
    using pipe_keeps_order [OF _ r] by (simp add: PIPESIZE_def)
  then show ?thesis using r e by auto
qed

text \<open>
  C8: Every run of a writer and a reader comes to an end, and it ends only when all
  bytes of the call have been read: no chain of steps is infinite, and a reachable
  state in which neither can take a step has delivered everything.
\<close>

theorem pipe_delivers:
  assumes "length d = PIPESIZE"
  shows "(\<nexists>f. f 0 = psys_init d bs \<and> (\<forall>i. pstep (f i) (f (Suc i))))
    \<and> (\<forall>s. pstep\<^sup>*\<^sup>* (psys_init d bs) s \<and> (\<nexists>t. pstep s t) \<longrightarrow> s_got s = bs)"
proof (intro conjI notI allI impI)
  assume "\<exists>f. f 0 = psys_init d bs \<and> (\<forall>i. pstep (f i) (f (Suc i)))"
  then obtain f where f: "f 0 = psys_init d bs" "\<And>i. pstep (f i) (f (Suc i))" by blast
  have inv: "psys_inv bs (f i)" for i
    by (induction i) (use f(1) psys_inv_init [OF assms] psys_inv_step [OF f(2)] in auto)
  have "psys_measure (f i) + i \<le> psys_measure (f 0)" for i
  proof (induction i)
    case (Suc i)
    then show ?case using psys_step_less [OF f(2) inv, of i] by simp
  qed simp
  from this [of "Suc (psys_measure (f 0))"] show False by simp
next
  fix s assume "pstep\<^sup>*\<^sup>* (psys_init d bs) s \<and> (\<nexists>t. pstep s t)"
  then have inv: "psys_inv bs s" and stuck: "\<And>t. \<not> pstep s t" using psys_inv_reach psys_inv_init [OF assms] by blast+
  have wf: "pipe_wf (s_pipe s)" "readopen (s_pipe s)" using inv by (simp_all add: psys_inv_def)
  have "s_todo s = [] \<or> s_wsleep s"
  proof (rule ccontr)
    assume a: "\<not> (s_todo s = [] \<or> s_wsleep s)"
    obtain p rest e where w: "write_loop False (s_todo s) (s_pipe s) = (p, rest, e)" by (metis prod_cases3)
    have "e \<noteq> Failed" using write_loop_spec(6) [OF wf(1) w] wf(2) by blast
    then show False using stuck pstep.w_step [OF _ _ w] a by blast
  qed
  moreover have "s_rsleep s"
  proof (rule ccontr)
    assume a: "\<not> s_rsleep s"
    obtain p cs e where r: "piperead False 1 (s_pipe s) = (p, cs, e)" by (metis prod_cases3)
    show False using stuck pstep.r_step [of s 1 p cs] pstep.r_sleep [of s 1 p cs] a r piperead_spec(3) [OF wf(1) r] by (cases e) auto
  qed
  ultimately show "s_got s = bs" using inv PIPESIZE_facts(2) by (auto simp: psys_inv_def)
qed

theorem pipe_delivers_witness:
  "length (replicate 512 (0 :: u8)) = PIPESIZE \<and> (\<nexists>f. f 0 = psys_init (replicate 512 0) [1, 2, 3] \<and> (\<forall>i. pstep (f i) (f (Suc i))))"
  using pipe_delivers [of "replicate 512 0" "[1, 2, 3]"] by (simp add: PIPESIZE_def)

end
