(* ===== verification/Ulib.thy ===== *)
theory Ulib
  imports Strings
begin

text \<open>
  The string routines of the user library (\<open>ulib.c\<close>). A string that is only read is
  the list of its characters, without the zero that ends it; a buffer that is
  written is the list of all its bytes, and a write past its end is a \<open>Fault\<close>. \<open>read\<close>
  of one byte from file 0 takes a byte from a list of the results of the calls,
  \<open>None\<close> for end of file. Shown here: copying and appending build the concatenation, comparison
  is the lexicographic order, and \<open>gets\<close> never overruns its buffer.
\<close>

section \<open>Operations\<close>

text \<open>\<open>while((*s++ = *t++) != 0)\<close> from offset \<open>k\<close> of a buffer.\<close>

fun copy_loop :: "u8 list \<Rightarrow> nat \<Rightarrow> u8 list \<Rightarrow> u8 list res" where
  "copy_loop buf k [] = (if k < length buf then Ok (buf[k := 0]) else Fault ''strcpy'')"
| "copy_loop buf k (c # t) = (if k < length buf then copy_loop (buf[k := c]) (Suc k) t else Fault ''strcpy'')"

definition strcpy :: "u8 list \<Rightarrow> u8 list \<Rightarrow> u8 list res" where
  "strcpy buf t = copy_loop buf 0 t"

text \<open>\<open>while (*s != 0) s++\<close>: the offset of the first zero byte.\<close>

fun end_loop :: "u8 list \<Rightarrow> nat option" where
  "end_loop [] = None"
| "end_loop (c # s) = (if c \<noteq> 0 then map_option Suc (end_loop s) else Some 0)"

definition strcat :: "u8 list \<Rightarrow> u8 list \<Rightarrow> u8 list res" where
  "strcat buf t = (case end_loop buf of None \<Rightarrow> Fault ''strcat'' | Some k \<Rightarrow> copy_loop buf k t)"

fun strcmp :: "u8 list \<Rightarrow> u8 list \<Rightarrow> int" where
  "strcmp [] [] = 0"
| "strcmp [] (b # q) = - uint b"
| "strcmp (a # p) [] = uint a"
| "strcmp (a # p) (b # q) = (if a = b then strcmp p q else uint a - uint b)"

text \<open>The offset of the character that \<open>strchr\<close> returns a pointer to.\<close>

fun strchr :: "u8 list \<Rightarrow> u8 \<Rightarrow> nat option" where
  "strchr [] c = None"
| "strchr (a # s) c = (if a = c then Some 0 else map_option Suc (strchr s c))"

text \<open>
  The loop of \<open>gets\<close> with \<open>i\<close> bytes stored: what it stores from there on, and the
  results of \<open>read\<close> it leaves.
\<close>

fun gets_loop :: "nat \<Rightarrow> int \<Rightarrow> u8 option list \<Rightarrow> u8 list \<times> u8 option list" where
  "gets_loop i mx [] = ([], [])"
| "gets_loop i mx (r # rs) =
     (if int i + 1 < mx then
        case r of
          None \<Rightarrow> ([], rs)
        | Some c \<Rightarrow>
            if c = 10 \<or> c = 13 then ([c], rs)
            else let (bs, rs) = gets_loop (Suc i) mx rs in (c # bs, rs)
      else ([], r # rs))"

definition gets :: "int \<Rightarrow> u8 option list \<Rightarrow> u8 list \<times> u8 option list" where
  "gets mx rs = (let (bs, rs) = gets_loop 0 mx rs in (bs @ [0], rs))"

text \<open>
  The library has its own \<open>memset\<close> and \<open>memmove\<close>, on the memory of \<open>Strings\<close>; the second
  always copies upwards.
\<close>

definition umemset :: "mem \<Rightarrow> u32 \<Rightarrow> u32 \<Rightarrow> u32 \<Rightarrow> mem" where
  "umemset m dst c n = stosb m dst (ucast c) (unat n)"

definition umemmove :: "mem \<Rightarrow> u32 \<Rightarrow> u32 \<Rightarrow> int \<Rightarrow> mem" where
  "umemmove m vdst vsrc n = copy_up m vdst vsrc (nat n)"

section \<open>Copying\<close>

text \<open>The kernel's word-wise \<open>memset\<close> and the one of the library have the same effect.\<close>

lemma umemset_memset: "unat dst + unat n < 2 ^ 32 \<Longrightarrow> umemset m dst c n = memset m dst c n"
proof (rule ext)
  fix x assume "unat dst + unat n < 2 ^ 32"
  then have "unat n \<le> 4294967296" by simp
  then show "umemset m dst c n x = memset m dst c n x" by (simp add: umemset_def memset_eq stosb_eq)
qed

lemma umemmove_disjoint:
  "\<not> (src < dst \<and> src + n > dst) \<Longrightarrow> umemmove m dst src (uint n) = memmove m dst src n"
  by (auto simp: umemmove_def memmove_def)

text \<open>
  Unlike the kernel's \<open>memmove\<close>, the one of the library destroys a source that the
  destination overlaps from above.
\<close>

lemma umemmove_overlap:
  "umemmove ((\<lambda>_. 0)(100 := 1, 101 := 2)) 101 100 2 102 = 1 \<and> memmove ((\<lambda>_. 0)(100 := 1, 101 := 2)) 101 100 2 102 = 2"
proof -
  have two: "nat 2 = Suc (Suc 0)" "unat (2 :: u32) = Suc (Suc 0)" by simp_all
  show ?thesis unfolding umemmove_def memmove_def two by simp
qed

lemma copy_loop_ok: "k + length t < length buf \<Longrightarrow> copy_loop buf k t = Ok (take k buf @ t @ 0 # drop (Suc (k + length t)) buf)"
proof (induction t arbitrary: buf k)
  case Nil
  then show ?case by (simp add: upd_conv_take_nth_drop)
next
  case (Cons c t)
  then have "copy_loop (buf[k := c]) (Suc k) t = Ok (take (Suc k) (buf[k := c]) @ t @ 0 # drop (Suc (Suc k + length t)) (buf[k := c]))"
    by (intro Cons.IH) simp
  then show ?case using Cons.prems by (simp add: take_Suc_conv_app_nth)
qed

lemma copy_loop_fault: "length buf \<le> k + length t \<Longrightarrow> copy_loop buf k t = Fault ''strcpy''"
  by (induction t arbitrary: buf k) auto

lemma end_loop_string: "0 \<notin> set s \<Longrightarrow> end_loop (s @ 0 # r) = Some (length s)"
  by (induction s) auto

text \<open>
  \<open>strcpy\<close> and then \<open>strcat\<close> leave the concatenation of the two strings in the
  buffer, ended by a zero, when it fits; when it does not, the call that writes too
  far overruns the buffer, for neither takes its size.
\<close>

theorem strcpy_strcat:
  assumes "0 \<notin> set s" "length s < length buf"
  shows "\<exists>b. strcpy buf s = Ok b \<and> take (Suc (length s)) b = s @ [0]
    \<and> (if length s + length t < length buf
       then \<exists>b'. strcat b t = Ok b' \<and> length b' = length buf \<and> take (Suc (length s + length t)) b' = s @ t @ [0]
       else strcat b t = Fault ''strcpy'')"
proof -
  define b where "b = s @ 0 # drop (Suc (length s)) buf"
  have b: "strcpy buf s = Ok b" using copy_loop_ok [of 0 s buf] assms(2) by (simp add: strcpy_def b_def)
  have len: "length b = length buf" using assms(2) by (simp add: b_def)
  have e: "strcat b t = copy_loop b (length s) t" using end_loop_string [OF assms(1)] by (simp add: strcat_def b_def)
  show ?thesis
  proof (cases "length s + length t < length buf")
    case True
    then have "strcat b t = Ok (take (length s) b @ t @ 0 # drop (Suc (length s + length t)) b)" using copy_loop_ok [of "length s" t b] len e by simp
    then show ?thesis using b True len assms(2) by (simp add: b_def)
  next
    case False
    then have "strcat b t = Fault ''strcpy''" using copy_loop_fault [of b "length s" t] len e by simp
    then show ?thesis using b False by (simp add: b_def)
  qed
qed

theorem strcpy_strcat_witness:
  "\<exists>b. strcpy [1, 1, 1, 1, 1] [97] = Ok b \<and> take (Suc (length [97 :: u8])) b = [97] @ [0]
    \<and> (\<exists>b'. strcat b [98, 99] = Ok b' \<and> length b' = length [1 :: u8, 1, 1, 1, 1]
       \<and> take (Suc (length [97 :: u8] + length [98 :: u8, 99])) b' = [97] @ [98, 99] @ [0])"
proof -
  have h: "0 \<notin> set [97 :: u8]" "length [97 :: u8] < length [1 :: u8, 1, 1, 1, 1]"
    and fits: "length [97 :: u8] + length [98 :: u8, 99] < length [1 :: u8, 1, 1, 1, 1]" by simp_all
  show ?thesis using strcpy_strcat [OF h, of "[98, 99]"] unfolding if_P [OF fits] .
qed

section \<open>Comparing and searching\<close>

lemma strcmp_0: "0 \<notin> set p \<Longrightarrow> 0 \<notin> set q \<Longrightarrow> strcmp p q = 0 \<longleftrightarrow> p = q"
  by (induction p q rule: strcmp.induct) (auto simp: uint_0_iff dest: word_uint_eqI)

lemma strcmp_anti: "strcmp q p = - strcmp p q"
  by (induction p q rule: strcmp.induct) auto

lemma strchr_some: "strchr s c = Some k \<longleftrightarrow> k < length s \<and> s ! k = c \<and> (\<forall>i < k. s ! i \<noteq> c)"
proof (induction s arbitrary: k)
  case (Cons a s)
  show ?case by (cases k) (auto simp: Cons.IH less_Suc_eq_0_disj)
qed simp

lemma lexord_strcmp: "0 \<notin> set p \<Longrightarrow> 0 \<notin> set q \<Longrightarrow> strcmp p q < 0 \<longleftrightarrow> (p, q) \<in> lexord {(a, b). a < b}"
proof (induction p q rule: strcmp.induct)
  case (2 b q)
  then have "uint b \<noteq> 0" by (simp add: uint_0_iff)
  then show ?case using unsigned_greater_eq [of b, where 'a = int] by (simp add: order_less_le)
next
  case (4 a p b q)
  then show ?case by (auto simp: word_less_def)
qed auto

text \<open>
  \<open>strcmp\<close> is negative, zero or positive as the first string comes before, equals
  or comes after the second in the lexicographic order of unsigned bytes; and
  \<open>strchr\<close> finds the first occurrence.
\<close>

theorem strcmp_strchr:
  assumes "0 \<notin> set p" "0 \<notin> set q"
  shows "(strcmp p q < 0 \<longleftrightarrow> (p, q) \<in> lexord {(a, b). a < b}) \<and> (strcmp p q = 0 \<longleftrightarrow> p = q)
    \<and> (0 < strcmp p q \<longleftrightarrow> (q, p) \<in> lexord {(a, b). a < b})
    \<and> (strchr p c = Some k \<longleftrightarrow> k < length p \<and> p ! k = c \<and> c \<notin> set (take k p))"
proof -
  have "(\<forall>i < k. p ! i \<noteq> c) \<longleftrightarrow> c \<notin> set (take k p)" if "k < length p" using that by (auto simp: in_set_conv_nth)
  then show ?thesis
    using lexord_strcmp [OF assms] lexord_strcmp [OF assms(2,1)] strcmp_0 [OF assms] strcmp_anti [of q p] strchr_some [of p c k] by auto
qed

theorem strcmp_strchr_witness:
  "strcmp [97, 98] [97, 200] < 0 \<and> strchr [97, 98] 98 = Some 1"
  using strcmp_strchr [of "[97, 98]" "[97, 200]" 98 1] by (simp add: lexord_cons_cons)

section \<open>Reading a line\<close>

lemma gets_loop_spec:
  "gets_loop i mx rs = (bs, rest) \<Longrightarrow>
    (bs = [] \<or> int i + int (length bs) < mx) \<and> (\<forall>c \<in> set (butlast bs). c \<noteq> 10 \<and> c \<noteq> 13) \<and> map Some bs = take (length bs) rs"
proof (induction i mx rs arbitrary: bs rule: gets_loop.induct)
  case (2 i mx r rs)
  show ?case
  proof (cases "int i + 1 < mx \<and> r \<noteq> None \<and> r \<noteq> Some 10 \<and> r \<noteq> Some 13")
    case True
    then obtain c where c: "r = Some c" "c \<noteq> 10" "c \<noteq> 13" by auto
    obtain cs1 rest1 where l: "gets_loop (Suc i) mx rs = (cs1, rest1)" by fastforce
    have "(cs1 = [] \<or> int (Suc i) + int (length cs1) < mx) \<and> (\<forall>c \<in> set (butlast cs1). c \<noteq> 10 \<and> c \<noteq> 13) \<and> map Some cs1 = take (length cs1) rs"
      using 2 True c l by auto
    moreover have "bs = c # cs1" using 2(2) True c l by simp
    ultimately show ?thesis using True c by auto
  next
    case False
    then show ?thesis using 2(2) by (cases r) (auto split: if_splits)
  qed
qed auto

text \<open>
  \<open>gets\<close> stores at most \<open>max\<close> bytes including the zero that ends the string, never
  reads past the end of a line, and the string it stores is what was read.
\<close>

theorem gets_bounded:
  assumes "1 \<le> mx" "gets mx rs = (buf, rest)"
  shows "int (length buf) \<le> mx \<and> (\<exists>bs. buf = bs @ [0] \<and> map Some bs = take (length bs) rs \<and> (\<forall>c \<in> set (butlast bs). c \<noteq> 10 \<and> c \<noteq> 13))"
proof -
  obtain bs where b: "gets_loop 0 mx rs = (bs, rest)" "buf = bs @ [0]" using assms(2) by (auto simp: gets_def split: prod.splits)
  then show ?thesis using gets_loop_spec [OF b(1)] assms(1) by auto
qed

theorem gets_bounded_witness:
  "gets 3 [Some 97, Some 98, Some 99] = ([97, 98, 0], [Some 99]) \<and> int (length [97 :: u8, 98, 0]) \<le> 3"
proof -
  have e: "gets 3 [Some 97, Some 98, Some 99] = ([97, 98, 0], [Some 99])" by (simp add: gets_def)
  show ?thesis using e gets_bounded [OF _ e] by auto
qed

end
