(* ===== verification/Console.thy ===== *)
theory Console
  imports Inode Ring Print
begin

text \<open>
  The console (\<open>console.c\<close>) and the serial line it echoes to (\<open>uart.c\<close>): characters on
  the CGA screen with cursor and scrolling, the line discipline that collects typed
  characters until a line is complete, and the driver routines \<open>consoleread\<close> and
  \<open>consolewrite\<close> behind the device table. The two halves of the cursor position are
  the registers 14 and 15 of the CRT controller. Shown here: output never leaves the
  first 24 rows of the screen, the three indices of the input buffer implement a
  committed line and a line being edited, and a line typed is a line read.
\<close>

section \<open>State\<close>

definition INPUT_BUF :: nat where "INPUT_BUF = 128"
definition BACKSPACE :: int where "BACKSPACE = 256"
definition CONSOLE :: nat where "CONSOLE = 1"

text \<open>\<open>C(x)\<close>, the code of Control-\<open>x\<close>.\<close>

definition C :: "int \<Rightarrow> int" where
  "C x = x - 64"

record input =
  in_buf :: "u8 list"
  in_r :: u32
  in_w :: u32
  in_e :: u32

record con_st = fs_st +
  crt :: "u16 list"
  crt14 :: u8
  crt15 :: u8
  uart :: bool
  uart_sent :: "u8 list"
  panicked :: bool
  input :: input

section \<open>Output\<close>

text \<open>\<open>uartputc\<close> waits for at most 128 delays before it sends, ready or not.\<close>

definition uartputc :: "int \<Rightarrow> ('z con_st_scheme, unit) km" where
  "uartputc c = kmod (\<lambda>s. if uart s then s\<lparr>uart_sent := uart_sent s @ [of_int c]\<rparr> else s)"

definition crt_store :: "nat \<Rightarrow> u16 \<Rightarrow> ('z con_st_scheme, unit) km" where
  "crt_store i v = kbind (kget crt) (\<lambda>m.
     if i < length m then kmod (\<lambda>s. s\<lparr>crt := (crt s)[i := v]\<rparr>) else kfault ''crt'')"

text \<open>The character itself, and where the cursor goes.\<close>

definition cga_char :: "int \<Rightarrow> nat \<Rightarrow> ('z con_st_scheme, nat) km" where
  "cga_char c pos =
     (if c = 10 then kret (pos + (80 - pos mod 80))
      else if c = BACKSPACE then kret (if 0 < pos then pos - 1 else pos)
      else kthen (crt_store pos ((of_int c AND 255) OR 0x0700)) (kret (pos + 1)))"

definition cga_scroll :: "nat \<Rightarrow> ('z con_st_scheme, nat) km" where
  "cga_scroll pos = kbind (kget crt) (\<lambda>m.
     if 24 \<le> pos div 80 then
       if length m < 24 * 80 \<or> 24 * 80 < pos - 80 then kfault ''crt'' else
       let m = slice m 80 (23 * 80) @ drop (23 * 80) m; pos = pos - 80;
           m = take pos m @ replicate (24 * 80 - pos) 0 @ drop (24 * 80) m
       in kthen (kmod (\<lambda>s. s\<lparr>crt := m\<rparr>)) (kret pos)
     else kret pos)"

definition cgaputc :: "int \<Rightarrow> ('z con_st_scheme, unit) km" where
  "cgaputc c = kbind (kget (\<lambda>s. unat (crt14 s) * 256 + unat (crt15 s))) (\<lambda>pos.
     kbind (cga_char c pos) (\<lambda>pos.
     kbind (cga_scroll pos) (\<lambda>pos.
     kthen (kmod (\<lambda>s. s\<lparr>crt14 := of_nat (pos div 256), crt15 := of_nat pos\<rparr>))
           (crt_store pos 0x0720))))"

text \<open>After a panic \<open>consputc\<close> never returns.\<close>

definition consputc :: "int \<Rightarrow> ('z con_st_scheme, unit) km" where
  "consputc c = kbind (kget panicked) (\<lambda>p.
     if p then kpanic ''panicked''
     else kthen (if c = BACKSPACE then kthen (uartputc 8) (kthen (uartputc 32) (uartputc 8)) else uartputc c)
                (cgaputc c))"

section \<open>Input\<close>

definition input_last :: "input \<Rightarrow> u8" where
  "input_last i = in_buf i ! (unat (in_e i - 1) mod INPUT_BUF)"

text \<open>
  The loop that kills a line takes back at most \<open>e - w\<close> characters, which is what the
  first argument counts down.
\<close>

primrec kill_loop :: "nat \<Rightarrow> ('z con_st_scheme, unit) km" where
  "kill_loop 0 = kret ()"
| "kill_loop (Suc n) = kbind (kget input) (\<lambda>i.
     if in_e i \<noteq> in_w i \<and> input_last i \<noteq> 10 then
       kthen (kmod (\<lambda>s. s\<lparr>input := (input s)\<lparr>in_e := in_e (input s) - 1\<rparr>\<rparr>))
       (kthen (consputc BACKSPACE) (kill_loop n))
     else kret ())"

definition input_put :: "u8 \<Rightarrow> input \<Rightarrow> input" where
  "input_put b i = i\<lparr>in_buf := (in_buf i)[unat (in_e i) mod INPUT_BUF := b], in_e := in_e i + 1\<rparr>"

text \<open>
  One character of \<open>consoleintr\<close>; \<open>dump\<close> is the process listing. The wakeup after a
  commit does not show in this state: a sleeping reader tests its condition again.
\<close>

definition console_key :: "('z con_st_scheme, unit) km \<Rightarrow> int \<Rightarrow> ('z con_st_scheme, unit) km" where
  "console_key dump c =
     (if c = C 80 then dump
      else if c = C 85 then kbind (kget input) (\<lambda>i. kill_loop (unat (in_e i - in_w i)))
      else if c = C 72 \<or> c = 127 then
        kbind (kget input) (\<lambda>i.
        if in_e i \<noteq> in_w i then
          kthen (kmod (\<lambda>s. s\<lparr>input := (input s)\<lparr>in_e := in_e (input s) - 1\<rparr>\<rparr>)) (consputc BACKSPACE)
        else kret ())
      else kbind (kget input) (\<lambda>i.
        if c \<noteq> 0 \<and> in_e i - in_r i < of_nat INPUT_BUF then
          let c = (if c = 13 then 10 else c) in
          kthen (kmod (\<lambda>s. s\<lparr>input := input_put (of_int c) (input s)\<rparr>))
          (kthen (consputc c)
          (kbind (kget input) (\<lambda>i.
           if c = 10 \<or> c = C 68 \<or> in_e i = in_r i + of_nat INPUT_BUF then
             kmod (\<lambda>s. s\<lparr>input := (input s)\<lparr>in_w := in_e (input s)\<rparr>\<rparr>)
           else kret ())))
        else kret ()))"

text \<open>\<open>consoleintr\<close> handles the characters that \<open>getc\<close> delivers before it returns \<open>-1\<close>.\<close>

definition consoleintr :: "('z con_st_scheme, unit) km \<Rightarrow> int list \<Rightarrow> ('z con_st_scheme, unit) km" where
  "consoleintr dump keys = kfor keys (console_key dump)"

text \<open>
  The serial line as a source of characters, with the line status and the data read
  from its ports: what it delivers is \<open>-1\<close> or a byte.
\<close>

definition uartgetc :: "bool \<Rightarrow> u8 \<Rightarrow> u8 \<Rightarrow> int" where
  "uartgetc present status data =
     (if \<not> present then -1 else if status AND 1 = 0 then -1 else uint data)"

lemma uartgetc_range: "uartgetc p st d = -1 \<or> 0 \<le> uartgetc p st d \<and> uartgetc p st d < 256"
  using uint_lt2p [of d] by (simp add: uartgetc_def)

section \<open>The driver\<close>

datatype read_end = Finished | Killed | Waiting

definition input_get :: "input \<Rightarrow> u8 \<times> input" where
  "input_get i = (in_buf i ! (unat (in_r i) mod INPUT_BUF), i\<lparr>in_r := in_r i + 1\<rparr>)"

text \<open>The loop of \<open>consoleread\<close> up to its end or the next sleep; \<open>n\<close> counts down from \<open>target\<close>.\<close>

primrec cread_loop :: "bool \<Rightarrow> nat \<Rightarrow> nat \<Rightarrow> input \<Rightarrow> u8 list \<times> read_end \<times> input" where
  "cread_loop killed target 0 i = ([], Finished, i)"
| "cread_loop killed target (Suc n) i =
     (if in_r i = in_w i then ([], if killed then Killed else Waiting, i)
      else let (c, j) = input_get i in
        if c = of_int (C 68) then ([], Finished, if Suc n < target then j\<lparr>in_r := in_r j - 1\<rparr> else j)
        else if c = 10 then ([c], Finished, j)
        else let (bs, e, k) = cread_loop killed target n j in (c # bs, e, k))"

definition consoleread :: "bool \<Rightarrow> nat \<Rightarrow> u32 \<Rightarrow> ('z con_st_scheme, int \<times> u8 list) km" where
  "consoleread killed ip n =
     kthen (iunlock ip)
     (kbind (kget input) (\<lambda>i.
      let m = nat (sint n) in
      case cread_loop killed m m i of
        (bs, Waiting, i) \<Rightarrow> ksleep ''input''
      | (bs, Killed, i) \<Rightarrow> kthen (kmod (\<lambda>s. s\<lparr>input := i\<rparr>)) (kthen (ilock ip) (kret (-1, bs)))
      | (bs, Finished, i) \<Rightarrow> kthen (kmod (\<lambda>s. s\<lparr>input := i\<rparr>)) (kthen (ilock ip) (kret (int (length bs), bs)))))"

definition consolewrite :: "nat \<Rightarrow> u8 list \<Rightarrow> u32 \<Rightarrow> ('z con_st_scheme, int) km" where
  "consolewrite ip buf n =
     kthen (iunlock ip)
     (kthen (kfor (take (nat (sint n)) buf) (\<lambda>b. consputc (uint b)))
     (kthen (ilock ip) (kret (sint n))))"

text \<open>What \<open>consoleinit\<close> enters into the device table.\<close>

definition console_devsw :: "bool \<Rightarrow> nat \<Rightarrow> 'z con_st_scheme devsw" where
  "console_devsw killed = (\<lambda>_. \<lparr>dev_read = None, dev_write = None\<rparr>)
     (CONSOLE := \<lparr>dev_read = Some (consoleread killed), dev_write = Some consolewrite\<rparr>)"

section \<open>Output stays on the screen\<close>

definition cursor :: "'z con_st_scheme \<Rightarrow> nat" where
  "cursor s = unat (crt14 s) * 256 + unat (crt15 s)"

text \<open>The screen is there, the cursor is in the first 24 rows, nobody has panicked.\<close>

definition crt_wf :: "'z con_st_scheme \<Rightarrow> bool" where
  "crt_wf s \<longleftrightarrow> 24 * 80 \<le> length (crt s) \<and> cursor s < 24 * 80 \<and> \<not> panicked s"

lemma cursor_regs:
  assumes "pos < 65536"
  shows "unat (of_nat (pos div 256) :: u8) * 256 + unat (of_nat pos :: u8) = pos"
proof -
  have "pos div 256 < 256" using assms by (simp add: less_mult_imp_div_less)
  then show ?thesis by (simp add: unat_of_nat take_bit_eq_mod)
qed

text \<open>What an output operation may change: screen, cursor and serial line.\<close>

definition con_rest :: "'z con_st_scheme \<Rightarrow> 'z con_st_scheme" where
  "con_rest s = s\<lparr>crt := [], crt14 := 0, crt15 := 0, uart_sent := []\<rparr>"

lemma con_rest_simps [simp]:
  "con_rest (s\<lparr>crt := a\<rparr>) = con_rest s" "con_rest (s\<lparr>crt14 := b\<rparr>) = con_rest s"
  "con_rest (s\<lparr>crt15 := c\<rparr>) = con_rest s" "con_rest (s\<lparr>uart_sent := d\<rparr>) = con_rest s"
  "input (con_rest s) = input s" "icache (con_rest s) = icache s" "panicked (con_rest s) = panicked s"
  "uart (con_rest s) = uart s"
  by (simp_all add: con_rest_def)

definition cga_rest :: "'z con_st_scheme \<Rightarrow> 'z con_st_scheme" where
  "cga_rest s = s\<lparr>crt := [], crt14 := 0, crt15 := 0\<rparr>"

lemma cga_rest_simps [simp]:
  "cga_rest (s\<lparr>crt := a\<rparr>) = cga_rest s" "cga_rest (s\<lparr>crt14 := b\<rparr>) = cga_rest s" "cga_rest (s\<lparr>crt15 := c\<rparr>) = cga_rest s"
  "panicked (cga_rest s) = panicked s" "uart_sent (cga_rest s) = uart_sent s" "uart (cga_rest s) = uart s"
  by (simp_all add: cga_rest_def)

lemma con_rest_uart: "con_rest t = con_rest s \<Longrightarrow> uart t = uart s"
  by (metis con_rest_simps(8))

lemma con_rest_eqD: "con_rest t = con_rest s \<Longrightarrow> input t = input s \<and> icache t = icache s"
  by (metis con_rest_simps(5,6))

lemma uartputc_rest [simp]: "kwp (uartputc c) Q s = Q () (if uart s then s\<lparr>uart_sent := uart_sent s @ [of_int c]\<rparr> else s)"
  by (simp add: uartputc_def)

lemma cga_char_wp:
  assumes "crt_wf s"
  shows "kwp (cga_char c (cursor s)) (\<lambda>pos t. pos \<le> 24 * 80 \<and> length (crt t) = length (crt s) \<and> cga_rest t = cga_rest s) s"
proof -
  define q r where "q = cursor s div 80" and "r = cursor s mod 80"
  have "cursor s = q * 80 + r" "r < 80" by (simp_all add: q_def r_def)
  then have "cursor s + (80 - r) = 80 * (q + 1)" by simp
  then have "cursor s + (80 - cursor s mod 80) = 80 * (cursor s div 80 + 1)" by (simp only: q_def r_def)
  moreover have "cursor s div 80 < 24" using assms by (intro less_mult_imp_div_less) (simp add: crt_wf_def)
  ultimately show ?thesis using assms by (auto simp: cga_char_def crt_store_def crt_wf_def)
qed

lemma cga_scroll_wp:
  assumes "24 * 80 \<le> length (crt s)" "pos \<le> 24 * 80"
  shows "kwp (cga_scroll pos) (\<lambda>p t. p < 24 * 80 \<and> length (crt t) = length (crt s) \<and> cga_rest t = cga_rest s) s"
  using assms by (auto simp: cga_scroll_def Let_def slice_def not_le div_less_iff_less_mult)

lemma cgaputc_wp:
  assumes "crt_wf s"
  shows "kwp (cgaputc c) (\<lambda>_ t. crt_wf t \<and> length (crt t) = length (crt s) \<and> cga_rest t = cga_rest s) s"
proof -
  have "kwp (cga_char c (cursor s)) (\<lambda>pos. kwp (cga_scroll pos) (\<lambda>p t. p < 24 * 80 \<and> length (crt t) = length (crt s) \<and> cga_rest t = cga_rest s)) s"
    by (rule kwp_mono [OF cga_char_wp [OF assms]], rule kwp_mono [OF cga_scroll_wp]) (use assms in \<open>auto simp: crt_wf_def\<close>)
  then have "kwp (cga_char c (cursor s)) (\<lambda>pos. kwp (cga_scroll pos) (\<lambda>p t. kwp
      (kthen (kmod (\<lambda>s. s\<lparr>crt14 := of_nat (p div 256), crt15 := of_nat p\<rparr>)) (crt_store p 0x0720))
      (\<lambda>_ t. crt_wf t \<and> length (crt t) = length (crt s) \<and> cga_rest t = cga_rest s) t)) s"
  proof (elim kwp_mono, goal_cases)
    case (1 pos u p t)
    then have "panicked t = panicked s" by (metis cga_rest_simps(4))
    moreover have "cursor (t\<lparr>crt14 := of_nat (p div 256), crt15 := of_nat p\<rparr>) = p" using 1 cursor_regs [of p] by (simp add: cursor_def)
    ultimately show ?case using 1 assms by (simp add: crt_store_def crt_wf_def cursor_def)
  qed
  then show ?thesis by (simp add: cgaputc_def cursor_def)
qed

lemma cga_rest_con: "cga_rest t = cga_rest s \<Longrightarrow> con_rest t = con_rest s"
  by (simp add: con_rest_def cga_rest_def)

lemma cgaputc_sent:
  assumes "crt_wf s"
  shows "kwp (cgaputc c) (\<lambda>_ t. crt_wf t \<and> length (crt t) = length (crt s) \<and> con_rest t = con_rest s \<and> uart_sent t = x) (s\<lparr>uart_sent := x\<rparr>)"
proof -
  have w: "crt_wf (s\<lparr>uart_sent := x\<rparr>)" using assms by (simp add: crt_wf_def cursor_def)
  show ?thesis
  proof (rule kwp_mono [OF cgaputc_wp [OF w]], goal_cases)
    case (1 y t)
    moreover from 1 have "uart_sent t = uart_sent (s\<lparr>uart_sent := x\<rparr>)" by (metis cga_rest_simps(5))
    moreover from 1 have "con_rest t = con_rest (s\<lparr>uart_sent := x\<rparr>)" using cga_rest_con by blast
    ultimately show ?case by simp
  qed
qed

lemma consputc_wp [kwp_intros]:
  assumes "crt_wf s"
  shows "kwp (consputc c) (\<lambda>_ t. crt_wf t \<and> length (crt t) = length (crt s) \<and> con_rest t = con_rest s
    \<and> (c \<noteq> BACKSPACE \<longrightarrow> uart_sent t = uart_sent s @ (if uart s then [of_int c] else []))) s"
proof -
  let ?Q = "\<lambda>_ t. crt_wf t \<and> length (crt t) = length (crt s) \<and> con_rest t = con_rest s
    \<and> (c \<noteq> BACKSPACE \<longrightarrow> uart_sent t = uart_sent s @ (if uart s then [of_int c] else []))"
  have p: "\<not> panicked s" using assms by (simp add: crt_wf_def)
  have k: "kwp (cgaputc c) ?Q (s\<lparr>uart_sent := x\<rparr>)" if "c \<noteq> BACKSPACE \<longrightarrow> x = uart_sent s @ (if uart s then [of_int c] else [])" for x
    by (rule kwp_mono [OF cgaputc_sent [OF assms]]) (use that in auto)
  show ?thesis using p k [of "uart_sent s"] k by (cases "c = BACKSPACE"; cases "uart s") (simp_all add: consputc_def)
qed

section \<open>The line discipline\<close>

text \<open>
  The committed characters, which a reader may take, and the line that is still being
  edited.
\<close>

definition committed :: "input \<Rightarrow> u8 list" where
  "committed i = ring INPUT_BUF (in_buf i) (in_r i) (in_w i)"

definition edited :: "input \<Rightarrow> u8 list" where
  "edited i = ring INPUT_BUF (in_buf i) (in_w i) (in_e i)"

definition in_wf :: "input \<Rightarrow> bool" where
  "in_wf i \<longleftrightarrow> length (in_buf i) = INPUT_BUF \<and> unat (in_w i - in_r i) \<le> unat (in_e i - in_r i)
     \<and> unat (in_e i - in_r i) \<le> INPUT_BUF \<and> 10 \<notin> set (edited i)"

lemma INPUT_BUF_facts: "INPUT_BUF dvd 4294967296" "0 < INPUT_BUF" "INPUT_BUF < 4294967296"
  by (simp_all add: INPUT_BUF_def)

lemma in_lengths:
  assumes "in_wf i"
  shows "length (committed i) + length (edited i) = unat (in_e i - in_r i)"
    "ring INPUT_BUF (in_buf i) (in_r i) (in_e i) = committed i @ edited i"
  using assms ring_append(1) [of "in_w i" "in_r i" "in_e i" INPUT_BUF "in_buf i"] ring_append(2) [of "in_w i" "in_r i" "in_e i"]
  by (auto simp: in_wf_def committed_def edited_def)

lemma in_room:
  "in_wf i \<Longrightarrow> in_e i - in_r i < of_nat INPUT_BUF \<longleftrightarrow> length (committed i @ edited i) < INPUT_BUF"
  using in_lengths(1) [of i] unat_of_nat32 [of INPUT_BUF] INPUT_BUF_facts by (simp add: word_less_nat_alt)

lemma in_full:
  assumes "in_wf i"
  shows "in_e i = in_r i + of_nat INPUT_BUF \<longleftrightarrow> length (committed i @ edited i) = INPUT_BUF"
proof -
  have "in_e i = in_r i + of_nat INPUT_BUF \<longleftrightarrow> in_e i - in_r i = of_nat INPUT_BUF" by (auto simp: algebra_simps)
  also have "\<dots> \<longleftrightarrow> unat (in_e i - in_r i) = INPUT_BUF"
    using unat_of_nat32 [of INPUT_BUF] INPUT_BUF_facts(3) by (metis word_unat_eq_iff)
  finally show ?thesis using in_lengths(1) [OF assms] by simp
qed

lemma input_put_abs:
  assumes wf: "in_wf i" and room: "length (committed i @ edited i) < INPUT_BUF"
  shows "committed (input_put b i) = committed i" "edited (input_put b i) = edited i @ [b]"
    "b \<noteq> 10 \<Longrightarrow> in_wf (input_put b i)" "unat (in_e (input_put b i) - in_r i) = Suc (unat (in_e i - in_r i))"
proof -
  let ?d = "(in_buf i)[unat (in_e i) mod INPUT_BUF := b]"
  note L = in_lengths [OF wf]
  have u: "unat (in_e i - in_r i) < INPUT_BUF" "length (in_buf i) = INPUT_BUF" "unat (in_e i - in_w i) < INPUT_BUF"
    using L room wf by (simp_all add: in_wf_def edited_def)
  have e: "ring INPUT_BUF ?d (in_r i) (in_e i + 1) = (committed i @ edited i) @ [b]"
    using ring_put [OF INPUT_BUF_facts(1) u(2) INPUT_BUF_facts(2) u(1) INPUT_BUF_facts(3)] L by simp
  have le: "unat (in_e i + 1 - in_r i) = Suc (unat (in_e i - in_r i))"
    using arg_cong [OF e, of length] L by simp
  then show "unat (in_e (input_put b i) - in_r i) = Suc (unat (in_e i - in_r i))" by (simp add: input_put_def)
  show ed: "edited (input_put b i) = edited i @ [b]"
    using ring_put [OF INPUT_BUF_facts(1) u(2) INPUT_BUF_facts(2) u(3) INPUT_BUF_facts(3)] by (simp add: edited_def input_put_def)
  have "ring INPUT_BUF ?d (in_r i) (in_e i + 1) = ring INPUT_BUF ?d (in_r i) (in_w i) @ ring INPUT_BUF ?d (in_w i) (in_e i + 1)"
    using ring_append(1) [of "in_w i" "in_r i" "in_e i + 1"] wf le by (simp add: in_wf_def)
  then show "committed (input_put b i) = committed i" using e ed by (simp add: committed_def edited_def input_put_def)
  show "in_wf (input_put b i)" if "b \<noteq> 10"
    using wf that le ed u(1) by (auto simp: in_wf_def input_put_def)
qed

lemma input_back_abs:
  assumes wf: "in_wf i" and ne: "in_e i \<noteq> in_w i"
  shows "committed (i\<lparr>in_e := in_e i - 1\<rparr>) = committed i" "edited (i\<lparr>in_e := in_e i - 1\<rparr>) = butlast (edited i)"
    "in_wf (i\<lparr>in_e := in_e i - 1\<rparr>)" "input_last i = last (edited i)" "edited i \<noteq> []"
proof -
  note L = in_lengths [OF wf]
  have s: "edited i = ring INPUT_BUF (in_buf i) (in_w i) (in_e i - 1) @ [input_last i]"
    using ring_snoc [OF ne] by (simp add: edited_def input_last_def)
  then show "edited i \<noteq> []" "input_last i = last (edited i)" by simp_all
  show ed: "edited (i\<lparr>in_e := in_e i - 1\<rparr>) = butlast (edited i)" using s by (simp add: edited_def)
  show "committed (i\<lparr>in_e := in_e i - 1\<rparr>) = committed i" by (simp add: committed_def)
  have z: "in_e i - in_r i \<noteq> 0" using L s by auto
  have "unat (in_e i - in_r i - 1) = unat (in_e i - in_r i) - 1" using unat_minus_one [OF z] by simp
  then have "unat (in_e i - 1 - in_r i) = unat (in_e i - in_r i) - 1" by (simp add: algebra_simps)
  moreover have "length (committed i) + 1 \<le> unat (in_e i - in_r i)" using L arg_cong [OF s, of length] by simp
  ultimately show "in_wf (i\<lparr>in_e := in_e i - 1\<rparr>)"
    using wf ed by (auto simp: in_wf_def committed_def dest: in_set_butlastD)
qed

lemma input_commit_abs:
  assumes a: "length (in_buf i) = INPUT_BUF" "unat (in_w i - in_r i) \<le> unat (in_e i - in_r i)" "unat (in_e i - in_r i) \<le> INPUT_BUF"
  shows "committed (i\<lparr>in_w := in_e i\<rparr>) = committed i @ edited i" "edited (i\<lparr>in_w := in_e i\<rparr>) = []" "in_wf (i\<lparr>in_w := in_e i\<rparr>)"
proof -
  show "committed (i\<lparr>in_w := in_e i\<rparr>) = committed i @ edited i"
    using ring_append(1) [OF a(2)] by (simp add: committed_def edited_def)
  show "edited (i\<lparr>in_w := in_e i\<rparr>) = []" by (simp add: edited_def ring_def)
  then show "in_wf (i\<lparr>in_w := in_e i\<rparr>)" using a by (simp add: in_wf_def)
qed

lemma input_get_abs:
  assumes wf: "in_wf i" and ne: "in_r i \<noteq> in_w i"
  shows "\<exists>c j. input_get i = (c, j) \<and> j = i\<lparr>in_r := in_r i + 1\<rparr> \<and> committed i = c # committed j \<and> edited j = edited i \<and> in_wf j"
proof -
  define c where "c = in_buf i ! (unat (in_r i) mod INPUT_BUF)"
  have com: "committed i = c # committed (i\<lparr>in_r := in_r i + 1\<rparr>)"
    using ring_get [OF ne] by (simp add: committed_def c_def)
  have z: "in_w i - in_r i \<noteq> 0" "in_e i - in_r i \<noteq> 0" using ne wf by (auto simp: in_wf_def unat_eq_0)
  have "unat (in_w i - (in_r i + 1)) = unat (in_w i - in_r i) - 1" "unat (in_e i - (in_r i + 1)) = unat (in_e i - in_r i) - 1"
    using unat_minus_one [OF z(1)] unat_minus_one [OF z(2)] by (simp_all add: algebra_simps)
  then have "in_wf (i\<lparr>in_r := in_r i + 1\<rparr>)" using wf by (auto simp: in_wf_def edited_def)
  then show ?thesis using com by (simp add: input_get_def c_def edited_def)
qed

text \<open>What a key does, told on the two lists.\<close>

definition in_abs :: "input \<Rightarrow> u8 list \<times> u8 list" where
  "in_abs i = (committed i, edited i)"

fun abs_key :: "int \<Rightarrow> u8 list \<times> u8 list \<Rightarrow> u8 list \<times> u8 list" where
  "abs_key c (com, ed) =
     (if c = 21 then (com, [])
      else if c = 8 \<or> c = 127 then (com, butlast ed)
      else if c = 0 \<or> INPUT_BUF \<le> length com + length ed then (com, ed)
      else let b = (if c = 13 then 10 else of_int c) in
        if b = 10 \<or> b = 4 \<or> length com + length ed + 1 = INPUT_BUF then (com @ ed @ [b], [])
        else (com, ed @ [b]))"

definition con_ok :: "'z con_st_scheme \<Rightarrow> bool" where
  "con_ok s \<longleftrightarrow> crt_wf s \<and> in_wf (input s)"

lemma con_ok_input [simp]: "crt_wf (s\<lparr>input := i\<rparr>) = crt_wf s"
  by (simp add: crt_wf_def cursor_def)

lemma consputc_keeps:
  assumes "crt_wf s"
  shows "kwp (consputc c) (\<lambda>_ t. crt_wf t \<and> input t = i \<and> icache t = icache s) (s\<lparr>input := i\<rparr>)"
proof -
  have w: "crt_wf (s\<lparr>input := i\<rparr>)" using assms by simp
  show ?thesis
  proof (rule kwp_mono [OF consputc_wp [OF w]], goal_cases)
    case (1 x t)
    then have "con_rest t = con_rest (s\<lparr>input := i\<rparr>)" by blast
    from con_rest_eqD [OF this] 1 show ?case by simp
  qed
qed

lemma consputc_input:
  assumes "crt_wf s" "in_wf i"
  shows "kwp (consputc c) (\<lambda>_ t. con_ok t \<and> input t = i \<and> icache t = icache s) (s\<lparr>input := i\<rparr>)"
  by (rule kwp_mono [OF consputc_keeps [OF assms(1)]]) (use assms in \<open>auto simp: con_ok_def\<close>)

lemma in_eq_iff: "in_e i = in_w i \<longleftrightarrow> edited i = []"
  by (auto simp: edited_def ring_empty)

lemma kill_loop_wp:
  "con_ok s \<Longrightarrow> length (edited (input s)) \<le> n \<Longrightarrow>
    kwp (kill_loop n) (\<lambda>_ t. con_ok t \<and> in_abs (input t) = (committed (input s), []) \<and> icache t = icache s) s"
proof (induction n arbitrary: s)
  case 0
  then show ?case by (simp add: in_abs_def)
next
  case (Suc n)
  have wf: "crt_wf s" "in_wf (input s)" using Suc.prems by (auto simp: con_ok_def)
  show ?case
  proof (cases "in_e (input s) = in_w (input s)")
    case True
    then show ?thesis using Suc.prems by (simp add: in_abs_def in_eq_iff)
  next
    case False
    let ?i = "(input s)\<lparr>in_e := in_e (input s) - 1\<rparr>"
    note B = input_back_abs [OF wf(2) False]
    have "input_last (input s) \<noteq> 10" using B(4,5) wf(2) by (auto simp: in_wf_def dest: last_in_set)
    moreover have "kwp (consputc BACKSPACE) (\<lambda>_. kwp (kill_loop n) (\<lambda>_ t. con_ok t \<and> in_abs (input t) = (committed (input s), []) \<and> icache t = icache s)) (s\<lparr>input := ?i\<rparr>)"
    proof (rule kwp_mono [OF consputc_input [OF wf(1) B(3)]], goal_cases)
      case (1 x t)
      then have k: "con_ok t" and l: "length (edited (input t)) \<le> n" using B Suc.prems by auto
      show ?case by (rule kwp_mono [OF Suc.IH [OF k l]]) (use 1 B in auto)
    qed
    ultimately show ?thesis using False by simp
  qed
qed

text \<open>A character that is entered, with the commit that may follow.\<close>

definition enter_key :: "int \<Rightarrow> ('z con_st_scheme, unit) km" where
  "enter_key c = kthen (kmod (\<lambda>s. s\<lparr>input := input_put (of_int c) (input s)\<rparr>))
          (kthen (consputc c)
          (kbind (kget input) (\<lambda>i.
           if c = 10 \<or> c = C 68 \<or> in_e i = in_r i + of_nat INPUT_BUF then
             kmod (\<lambda>s. s\<lparr>input := (input s)\<lparr>in_w := in_e (input s)\<rparr>\<rparr>)
           else kret ())))"

lemma byte_int: "0 \<le> c \<Longrightarrow> c < 256 \<Longrightarrow> 0 \<le> k \<Longrightarrow> k < 256 \<Longrightarrow> (of_int c :: u8) = of_int k \<longleftrightarrow> c = k"
  by (auto simp: word_of_int_eq_iff take_bit_eq_mod)

lemma enter_key_wp:
  assumes ok: "con_ok s" and c: "0 \<le> c" "c < 256" and room: "length (committed (input s) @ edited (input s)) < INPUT_BUF"
  shows "kwp (enter_key c) (\<lambda>_ t. con_ok t \<and> icache t = icache s \<and> in_abs (input t) =
     (let com = committed (input s); ed = edited (input s); b = of_int c in
      if c = 10 \<or> c = 4 \<or> length com + length ed + 1 = INPUT_BUF then (com @ ed @ [b], []) else (com, ed @ [b]))) s"
proof -
  let ?i = "input_put (of_int c) (input s)" and ?b = "of_int c :: u8"
  have wf: "crt_wf s" "in_wf (input s)" using ok by (auto simp: con_ok_def)
  note P = input_put_abs [OF wf(2) room, of ?b]
  have r: "in_r ?i = in_r (input s)" "in_w ?i = in_w (input s)" "length (in_buf ?i) = INPUT_BUF"
    using wf(2) by (simp_all add: input_put_def in_wf_def)
  have u: "unat (in_e ?i - in_r ?i) = Suc (length (committed (input s)) + length (edited (input s)))"
    using P(4) r in_lengths(1) [OF wf(2)] by simp
  have le: "unat (in_w ?i - in_r ?i) \<le> unat (in_e ?i - in_r ?i)" using P(4) r wf(2) by (simp add: in_wf_def)
  have full: "in_e ?i = in_r ?i + of_nat INPUT_BUF \<longleftrightarrow> length (committed (input s)) + length (edited (input s)) + 1 = INPUT_BUF"
  proof -
    have "in_e ?i = in_r ?i + of_nat INPUT_BUF \<longleftrightarrow> in_e ?i - in_r ?i = of_nat INPUT_BUF" by (auto simp: algebra_simps)
    also have "\<dots> \<longleftrightarrow> unat (in_e ?i - in_r ?i) = INPUT_BUF"
      using unat_of_nat32 [of INPUT_BUF] INPUT_BUF_facts(3) by (metis word_unat_eq_iff)
    finally show ?thesis using u by simp
  qed
  have com: "committed (?i\<lparr>in_w := in_e ?i\<rparr>) = committed (input s) @ edited (input s) @ [?b]"
      "edited (?i\<lparr>in_w := in_e ?i\<rparr>) = []" "in_wf (?i\<lparr>in_w := in_e ?i\<rparr>)"
    using input_commit_abs [OF r(3) le] P(1,2) u room by auto
  have cons: "kwp (consputc c) (\<lambda>_ t. crt_wf t \<and> input t = ?i \<and> icache t = icache s) (s\<lparr>input := ?i\<rparr>)"
    by (rule consputc_keeps [OF wf(1)])
  have nl: "?b \<noteq> 10" if "c \<noteq> 10" using that byte_int [OF c, of 10] by simp
  show ?thesis unfolding enter_key_def kwp_then kwp_mod kwp_bind kwp_get
    by (rule kwp_mono [OF cons]) (use full com P nl in \<open>auto simp: con_ok_def in_abs_def C_def Let_def\<close>)
qed

lemma console_key_enter:
  "c \<noteq> C 80 \<Longrightarrow> c \<noteq> C 85 \<Longrightarrow> c \<noteq> C 72 \<Longrightarrow> c \<noteq> 127 \<Longrightarrow> console_key dump c = kbind (kget input) (\<lambda>i.
     if c \<noteq> 0 \<and> in_e i - in_r i < of_nat INPUT_BUF then enter_key (if c = 13 then 10 else c) else kret ())"
  unfolding console_key_def enter_key_def Let_def by simp

lemma console_key_wp:
  assumes ok: "con_ok s" and c: "0 \<le> c" "c < 256" "c \<noteq> C 80"
  shows "kwp (console_key dump c) (\<lambda>_ t. con_ok t \<and> icache t = icache s \<and> in_abs (input t) = abs_key c (in_abs (input s))) s"
proof -
  have wf: "crt_wf s" "in_wf (input s)" using ok by (auto simp: con_ok_def)
  consider (kill) "c = C 85" | (erase) "c = C 72 \<or> c = 127" | (other) "c \<noteq> C 85" "c \<noteq> C 72" "c \<noteq> 127" by blast
  then show ?thesis
  proof cases
    case kill
    then have e: "console_key dump c = kbind (kget input) (\<lambda>i. kill_loop (unat (in_e i - in_w i)))" by (simp add: console_key_def C_def)
    show ?thesis unfolding e kwp_bind kwp_get
      by (rule kwp_mono [OF kill_loop_wp [OF ok]]) (use kill in \<open>auto simp: edited_def in_abs_def C_def\<close>)
  next
    case erase
    then have a: "abs_key c (in_abs (input s)) = (committed (input s), butlast (edited (input s)))" by (auto simp: in_abs_def C_def)
    show ?thesis
    proof (cases "in_e (input s) = in_w (input s)")
      case True
      then show ?thesis using erase ok a by (auto simp: console_key_def C_def in_abs_def in_eq_iff)
    next
      case False
      note B = input_back_abs [OF wf(2) False]
      have "kwp (consputc BACKSPACE) (\<lambda>_ t. con_ok t \<and> icache t = icache s \<and> in_abs (input t) = (committed (input s), butlast (edited (input s))))
         (s\<lparr>input := (input s)\<lparr>in_e := in_e (input s) - 1\<rparr>\<rparr>)"
        by (rule kwp_mono [OF consputc_input [OF wf(1) B(3)]]) (use B in \<open>auto simp: in_abs_def\<close>)
      then show ?thesis using erase False a by (auto simp: console_key_def C_def)
    qed
  next
    case other
    note e = console_key_enter [OF c(3) other, of dump]
    show ?thesis
    proof (cases "c \<noteq> 0 \<and> in_e (input s) - in_r (input s) < of_nat INPUT_BUF")
      case False
      then show ?thesis unfolding e using ok other c in_room [OF wf(2)] by (auto simp: in_abs_def C_def)
    next
      case True
      let ?c = "if c = 13 then 10 else c"
      have room: "length (committed (input s) @ edited (input s)) < INPUT_BUF" using True in_room [OF wf(2)] by simp
      have b4: "(of_int c :: u8) = 4 \<longleftrightarrow> c = 4" "(of_int c :: u8) = 10 \<longleftrightarrow> c = 10" using byte_int [OF c(1,2), of 4] byte_int [OF c(1,2), of 10] by auto
      have "kwp (enter_key ?c) (\<lambda>_ t. con_ok t \<and> icache t = icache s \<and> in_abs (input t) = abs_key c (in_abs (input s))) s"
        by (rule kwp_mono [OF enter_key_wp [OF ok _ _ room]]) (use c other True room b4 in \<open>auto simp: in_abs_def C_def Let_def\<close>)
      then show ?thesis unfolding e using True by simp
    qed
  qed
qed

lemma consoleintr_wp:
  "con_ok s \<Longrightarrow> \<forall>c \<in> set keys. 0 \<le> c \<and> c < 256 \<and> c \<noteq> C 80 \<Longrightarrow>
    kwp (consoleintr dump keys) (\<lambda>_ t. con_ok t \<and> icache t = icache s \<and> in_abs (input t) = foldl (\<lambda>a c. abs_key c a) (in_abs (input s)) keys) s"
proof (induction keys arbitrary: s)
  case (Cons c keys)
  have c: "0 \<le> c" "c < 256" "c \<noteq> C 80" using Cons.prems by auto
  have "kwp (console_key dump c) (\<lambda>_. kwp (consoleintr dump keys) (\<lambda>_ t. con_ok t \<and> icache t = icache s
      \<and> in_abs (input t) = foldl (\<lambda>a c. abs_key c a) (abs_key c (in_abs (input s))) keys)) s"
  proof (rule kwp_mono [OF console_key_wp [OF Cons.prems(1) c]], goal_cases)
    case (1 x t)
    then show ?case using Cons.prems(2) Cons.IH [of t] by (auto elim!: kwp_mono)
  qed
  then show ?case by (simp add: consoleintr_def)
qed (simp add: consoleintr_def)

section \<open>Reading\<close>

text \<open>
  What a read of at most \<open>n\<close> bytes takes from the committed characters: up to and
  including the end of the line, or up to an end of file, which is only taken when
  nothing comes before it. \<open>None\<close>: it has to wait for more.
\<close>

definition read_spec :: "bool \<Rightarrow> nat \<Rightarrow> u8 list \<Rightarrow> (u8 list \<times> u8 list) option" where
  "read_spec first n com =
     (let ln = takeWhile (\<lambda>c. c \<noteq> 4 \<and> c \<noteq> 10) com in
      if n \<le> length ln then Some (take n com, drop n com)
      else case drop (length ln) com of
        [] \<Rightarrow> None
      | c # rest \<Rightarrow> if c = 10 then Some (ln @ [10], rest) else Some (ln, if ln = [] \<and> first then rest else c # rest))"

lemma read_spec_0: "read_spec f 0 com = Some ([], com)"
  by (simp add: read_spec_def)

lemma read_spec_Cons:
  "c \<noteq> 4 \<Longrightarrow> c \<noteq> 10 \<Longrightarrow> read_spec f (Suc n) (c # com) = map_option (\<lambda>(bs, r). (c # bs, r)) (read_spec False n com)"
  by (auto simp: read_spec_def Let_def split: list.split)

lemma cread_loop_spec:
  "in_wf i \<Longrightarrow> n \<le> target \<Longrightarrow> (case read_spec (n = target) n (committed i) of
     Some (bs, rest) \<Rightarrow> \<exists>j. cread_loop killed target n i = (bs, Finished, j) \<and> in_wf j \<and> committed j = rest \<and> edited j = edited i
   | None \<Rightarrow> \<exists>j. cread_loop killed target n i = (committed i, if killed then Killed else Waiting, j) \<and> in_wf j \<and> committed j = [] \<and> edited j = edited i)"
proof (induction n arbitrary: i)
  case 0
  then show ?case by (simp add: read_spec_0)
next
  case (Suc n)
  have emp: "in_r i = in_w i \<longleftrightarrow> committed i = []" by (auto simp: committed_def ring_empty)
  show ?case
  proof (cases "in_r i = in_w i")
    case True
    then show ?thesis using Suc.prems emp by (simp add: read_spec_def)
  next
    case False
    then obtain c j where g: "input_get i = (c, j)" "j = i\<lparr>in_r := in_r i + 1\<rparr>" "committed i = c # committed j" "edited j = edited i" "in_wf j"
      using input_get_abs [OF Suc.prems(1)] by blast
    show ?thesis
    proof (cases "c = 4 \<or> c = 10")
      case True
      have "j\<lparr>in_r := in_r j - 1\<rparr> = i" using g(2) by simp
      then show ?thesis using True False g Suc.prems by (auto simp: read_spec_def C_def)
    next
      case c: False
      have "read_spec (n = target) n (committed j) = read_spec False n (committed j)" using Suc.prems(2) by (simp add: not_le)
      with Suc.IH [OF g(5)] Suc.prems(2) show ?thesis
        using c False g read_spec_Cons [of c "Suc n = target" n "committed j"] by (auto simp: C_def split: option.splits)
    qed
  qed
qed

text \<open>The inode is unlocked while the reader may sleep, and locked again.\<close>

definition dev_locked :: "nat \<Rightarrow> 'z fs_st_scheme \<Rightarrow> bool" where
  "dev_locked ip s \<longleftrightarrow> i_flags (icache s ip) = I_BUSY OR I_VALID \<and> 1 \<le> i_ref (icache s ip)"

lemma relock:
  assumes "dev_locked ip s"
  shows "kwp (iunlock ip) (\<lambda>_ t. t = s\<lparr>icache := (icache s)(ip := (icache s ip)\<lparr>i_flags := I_VALID\<rparr>)\<rparr>) s"
    "icache t = (icache s)(ip := (icache s ip)\<lparr>i_flags := I_VALID\<rparr>) \<Longrightarrow> kwp (ilock ip) (\<lambda>_ u. u = t\<lparr>icache := icache s\<rparr>) t"
proof -
  have a: "I_BUSY \<noteq> 0" "(I_BUSY OR I_VALID) AND NOT I_BUSY = I_VALID" "(I_BUSY OR I_VALID) AND I_BUSY \<noteq> 0"
      "I_VALID AND I_BUSY = 0" "I_VALID AND I_VALID \<noteq> 0" "I_VALID OR I_BUSY = I_BUSY OR I_VALID"
    by (simp_all add: I_BUSY_def I_VALID_def)
  show "kwp (iunlock ip) (\<lambda>_ t. t = s\<lparr>icache := (icache s)(ip := (icache s ip)\<lparr>i_flags := I_VALID\<rparr>)\<rparr>) s"
    using assms a by (simp add: iunlock_def dev_locked_def get_inode_def upd_inode_def)
  assume t: "icache t = (icache s)(ip := (icache s ip)\<lparr>i_flags := I_VALID\<rparr>)"
  then have "(icache t)(ip := (icache t ip)\<lparr>i_flags := i_flags (icache t ip) OR I_BUSY\<rparr>) = icache s"
    using assms a by (auto simp: dev_locked_def fun_eq_iff)
  then show "kwp (ilock ip) (\<lambda>_ u. u = t\<lparr>icache := icache s\<rparr>) t"
    using assms a t by (simp add: ilock_def dev_locked_def get_inode_def upd_inode_def)
qed

section \<open>Properties\<close>

text \<open>
  C12: Whatever is typed (Control-P aside, which lists the processes), the interrupt handler
  returns and the three indices of the input buffer, which wrap at 32 bits, act as two
  lists: keys extend the line being edited, backspace takes its last character back and
  Control-U all of it, a full buffer ignores keys, and a newline, Control-D or a full
  buffer commits the line. Echoing keeps the cursor on the screen.
\<close>

theorem console_line_discipline:
  assumes "con_ok s" "\<forall>c \<in> set keys. 0 \<le> c \<and> c < 256 \<and> c \<noteq> C 80"
  shows "\<exists>t. consoleintr dump keys s = Ok ((), t) \<and> con_ok t
    \<and> in_abs (input t) = foldl (\<lambda>a c. abs_key c a) (in_abs (input s)) keys"
  using consoleintr_wp [OF assms, of dump] by (auto simp: kwp_Ok)

definition demo_input :: input where
  "demo_input = \<lparr>in_buf = replicate 128 0, in_r = 0, in_w = 0, in_e = 0\<rparr>"

definition demo_tty :: inode where
  "demo_tty = \<lparr>i_dev = 1, i_inum = 5, i_ref = 1, i_flags = 3, i_type = 3, i_major = 1, i_minor = 1, i_nlink = 1,
     i_size = 0, i_addrs = replicate 13 0\<rparr>"

definition demo_con :: "con_st" where
  "demo_con = fs_st.extend (demo_ist\<lparr>icache := \<lambda>_. demo_tty\<rparr>) (con_st.fields (replicate 2000 0) 0 0 True [] False demo_input)"

lemma demo_con_simps:
  "crt demo_con = replicate 2000 0" "crt14 demo_con = 0" "crt15 demo_con = 0" "uart demo_con" "uart_sent demo_con = []"
  "\<not> panicked demo_con" "input demo_con = demo_input" "icache demo_con = (\<lambda>_. demo_tty)"
  by (simp_all add: demo_con_def fs_st.extend_def con_st.fields_def)

lemma demo_con_ok: "con_ok demo_con" "in_abs (input demo_con) = ([], [])" "dev_locked 0 demo_con"
  by (simp_all add: con_ok_def crt_wf_def cursor_def in_wf_def demo_con_simps demo_input_def INPUT_BUF_def edited_def committed_def
      in_abs_def ring_def dev_locked_def demo_tty_def I_BUSY_def I_VALID_def)

theorem console_line_discipline_witness:
  "\<exists>t. consoleintr (kret ()) [97, 98, 8, 10] demo_con = Ok ((), t) \<and> in_abs (input t) = ([97, 10], [])"
proof -
  have "foldl (\<lambda>a c. abs_key c a) (in_abs (input demo_con)) [97, 98, 8, 10] = ([97, 10], [])"
    by (simp add: demo_con_ok INPUT_BUF_def)
  then show ?thesis using console_line_discipline [OF demo_con_ok(1), of "[97, 98, 8, 10]" "kret ()"] by (auto simp: C_def)
qed

text \<open>A key that stands for a character and has no other meaning.\<close>

definition plain_key :: "int \<Rightarrow> bool" where
  "plain_key c \<longleftrightarrow> 0 < c \<and> c < 256 \<and> c \<notin> {4, 8, 10, 13, 16, 21, 127}"

lemma plain_keyD:
  assumes "plain_key c"
  shows "0 \<le> c" "c < 256" "c \<noteq> C 80" "(of_int c :: u8) \<noteq> 10" "(of_int c :: u8) \<noteq> 4"
    "c \<noteq> 0" "c \<noteq> 8" "c \<noteq> 13" "c \<noteq> 21" "c \<noteq> 127"
  using assms byte_int [of c 10] byte_int [of c 4] by (simp_all add: plain_key_def C_def)

lemma abs_plain:
  "\<forall>c \<in> set line. plain_key c \<Longrightarrow> length ed + length line < INPUT_BUF \<Longrightarrow>
    foldl (\<lambda>a c. abs_key c a) ([], ed) line = ([], ed @ map of_int line)"
proof (induction line arbitrary: ed)
  case (Cons c line)
  have "plain_key c" using Cons.prems by simp
  then have "abs_key c ([], ed) = ([], ed @ [of_int c])" using Cons.prems(2) by (simp add: plain_keyD Let_def)
  then show ?case using Cons.IH [of "ed @ [of_int c]"] Cons.prems by simp
qed simp

text \<open>
  C14: A line that is typed is what a program reads: after the characters of a line and the
  enter key, reading the console through the device table returns exactly that line
  with its newline, leaves nothing behind, and the inode is locked again.
\<close>

theorem typed_line_read:
  assumes ok: "con_ok s" "in_abs (input s) = ([], [])"
    and ip: "dev_locked ip s" "i_type (icache s ip) = T_DEV" "i_major (icache s ip) = of_nat CONSOLE"
    and line: "\<forall>c \<in> set line. plain_key c" "length line < INPUT_BUF" "int (length line) < sint n"
  shows "\<exists>t u. consoleintr dump (line @ [13]) s = Ok ((), t)
    \<and> readi (console_devsw killed) ip off n t = Ok ((int (length line) + 1, map of_int line @ [10]), u)
    \<and> in_abs (input u) = ([], []) \<and> icache u = icache s"
proof -
  have keys: "\<forall>c \<in> set (line @ [13]). 0 \<le> c \<and> c < 256 \<and> c \<noteq> C 80" using line(1) by (auto simp: plain_keyD) (simp add: C_def)
  let ?l = "map of_int line :: u8 list"
  have "foldl (\<lambda>a c. abs_key c a) (in_abs (input s)) (line @ [13]) = (?l @ [10], [])"
    using abs_plain [OF line(1), of "[]"] line(2) ok(2) by simp
  with consoleintr_wp [OF ok(1) keys, of dump]
  obtain t where t: "consoleintr dump (line @ [13]) s = Ok ((), t)" "con_ok t" "icache t = icache s" "in_abs (input t) = (?l @ [10], [])"
    by (auto simp: kwp_Ok)
  have "takeWhile (\<lambda>c. c \<noteq> 4 \<and> c \<noteq> 10) (?l @ [10]) = ?l" using line(1) by (subst takeWhile_append2) (auto simp: plain_keyD)
  moreover have "\<not> nat (sint n) \<le> length line" using line(3) by linarith
  ultimately have sp: "read_spec (nat (sint n) = nat (sint n)) (nat (sint n)) (committed (input t)) = Some (?l @ [10], [])"
    using t(4) by (simp add: read_spec_def in_abs_def Let_def)
  obtain j where j: "cread_loop killed (nat (sint n)) (nat (sint n)) (input t) = (?l @ [10], Finished, j)" "in_abs j = ([], [])"
    using cread_loop_spec [of "input t" "nat (sint n)" "nat (sint n)" killed] sp t(2,4) by (auto simp: con_ok_def in_abs_def)
  have dl: "dev_locked ip t" using ip(1) t(3) by (simp add: dev_locked_def)
  let ?t = "t\<lparr>icache := (icache t)(ip := (icache t ip)\<lparr>i_flags := I_VALID\<rparr>), input := j\<rparr>"
  have l: "kwp (ilock ip) (\<lambda>_ u. in_abs (input u) = ([], []) \<and> icache u = icache t) ?t"
    by (rule kwp_mono [OF relock(2) [OF dl]]) (simp_all add: j(2))
  have "kwp (consoleread killed ip n) (\<lambda>r u. r = (int (length line) + 1, ?l @ [10]) \<and> in_abs (input u) = ([], []) \<and> icache u = icache t) t"
    unfolding consoleread_def kwp_then
  proof (rule kwp_mono [OF relock(1) [OF dl]], goal_cases)
    case (1 x u)
    then show ?case using j(1) l by simp
  qed
  moreover have "readi (console_devsw killed) ip off n t = consoleread killed ip n t"
    using ip t(3) by (simp add: readi_def get_inode_def kbind_def kget_def console_devsw_def CONSOLE_def NDEV_def)
  ultimately show ?thesis using t by (auto simp: kwp_Ok)
qed

theorem typed_line_read_witness:
  "\<exists>t u. consoleintr (kret ()) [104, 105, 13] demo_con = Ok ((), t) \<and> readi (console_devsw False) 0 0 100 t = Ok ((3, [104, 105, 10]), u)"
proof -
  have "\<exists>t u. consoleintr (kret ()) ([104, 105] @ [13]) demo_con = Ok ((), t)
    \<and> readi (console_devsw False) 0 0 100 t = Ok ((int (length [104 :: int, 105]) + 1, map of_int [104, 105] @ [10]), u)
    \<and> in_abs (input u) = ([], []) \<and> icache u = icache demo_con"
    by (rule typed_line_read [OF demo_con_ok]) (simp_all add: demo_con_simps demo_tty_def T_DEV_def CONSOLE_def INPUT_BUF_def plain_key_def)
  then show ?thesis by auto
qed

lemma consputs_wp:
  "crt_wf s \<Longrightarrow> kwp (kfor bs (\<lambda>b. consputc (uint b))) (\<lambda>_ t. crt_wf t \<and> length (crt t) = length (crt s) \<and> con_rest t = con_rest s
    \<and> uart_sent t = uart_sent s @ (if uart s then bs else [])) s"
proof (induction bs arbitrary: s)
  case (Cons b bs)
  have nb: "uint b \<noteq> BACKSPACE" using uint_lt2p [of b] by (simp add: BACKSPACE_def)
  show ?case unfolding kfor.simps kwp_then
  proof (rule kwp_mono [OF consputc_wp [OF Cons.prems]], goal_cases)
    case (1 x t)
    then have "uart t = uart s" by (metis con_rest_uart)
    with 1 nb show ?case by (intro kwp_mono [OF Cons.IH [of t]]) auto
  qed
qed simp



end
