(* ===== verification/File.thy ===== *)
theory File
  imports Console Pipe Dir
begin

text \<open>
  The table of open files (\<open>file.c\<close>) and the life cycle of pipes (\<open>pipealloc\<close> and
  \<open>pipeclose\<close> of \<open>pipe.c\<close>), on top of inodes, log, pipes, console and page allocator. A
  file is a number below \<open>NFILE\<close>. A pipe lives in a page of its own, whose address
  names it. \<open>en\<close> is the linker's \<open>end\<close>, \<open>dv\<close> the device table, \<open>killed\<close> the flag of
  the calling process. Shown here: a pipe carries bytes from its write end to its
  read end and its page is freed exactly when both are closed.
\<close>

section \<open>Operations\<close>

definition NFILE :: nat where "NFILE = 100"

datatype fdtype = FD_NONE | FD_PIPE | FD_INODE

record open_file =
  f_type :: fdtype
  f_ref :: int
  f_readable :: bool
  f_writable :: bool
  f_pipe :: u32
  f_ip :: nat
  f_off :: u32

record file_st = con_st +
  ftable :: "nat \<Rightarrow> open_file"
  pipes :: "u32 \<Rightarrow> pipe"

definition get_file :: "nat \<Rightarrow> ('z file_st_scheme, open_file) km" where
  "get_file f = kget (\<lambda>s. ftable s f)"

definition upd_file :: "nat \<Rightarrow> (open_file \<Rightarrow> open_file) \<Rightarrow> ('z file_st_scheme, unit) km" where
  "upd_file f g = kmod (\<lambda>s. s\<lparr>ftable := (ftable s)(f := g (ftable s f))\<rparr>)"

definition filealloc :: "('z file_st_scheme, nat option) km" where
  "filealloc = kbind (kget ftable) (\<lambda>ft.
     case List.find (\<lambda>f. f_ref (ft f) = 0) [0..<NFILE] of
       None \<Rightarrow> kret None
     | Some f \<Rightarrow> kthen (upd_file f (\<lambda>x. x\<lparr>f_ref := 1\<rparr>)) (kret (Some f)))"

definition filedup :: "nat \<Rightarrow> ('z file_st_scheme, nat) km" where
  "filedup f = kbind (get_file f) (\<lambda>x.
     if f_ref x < 1 then kpanic ''filedup''
     else kthen (upd_file f (\<lambda>x. x\<lparr>f_ref := f_ref x + 1\<rparr>)) (kret f))"

definition pipeclose :: "u32 \<Rightarrow> u32 \<Rightarrow> bool \<Rightarrow> ('z file_st_scheme, unit) km" where
  "pipeclose en p writable =
     kthen (kmod (\<lambda>s. s\<lparr>pipes := (pipes s)(p :=
        if writable then (pipes s p)\<lparr>writeopen := False\<rparr> else (pipes s p)\<lparr>readopen := False\<rparr>)\<rparr>))
     (kbind (kget (\<lambda>s. pipes s p)) (\<lambda>q.
      if \<not> readopen q \<and> \<not> writeopen q then kfree en p else kret ()))"

definition fileclose :: "u32 \<Rightarrow> nat \<Rightarrow> ('z file_st_scheme, unit) km" where
  "fileclose en f = kbind (get_file f) (\<lambda>x.
     if f_ref x < 1 then kpanic ''fileclose''
     else kthen (upd_file f (\<lambda>x. x\<lparr>f_ref := f_ref x - 1\<rparr>))
      (kbind (get_file f) (\<lambda>ff.
       if 0 < f_ref ff then kret ()
       else kthen (upd_file f (\<lambda>x. x\<lparr>f_ref := 0, f_type := FD_NONE\<rparr>))
        (if f_type ff = FD_PIPE then pipeclose en (f_pipe ff) (f_writable ff)
         else if f_type ff = FD_INODE then kthen begin_op (kthen (iput (f_ip ff)) end_op)
         else kret ()))))"

definition filestat :: "nat \<Rightarrow> ('z file_st_scheme, int \<times> stat option) km" where
  "filestat f = kbind (get_file f) (\<lambda>x.
     if f_type x = FD_INODE then
       kthen (ilock (f_ip x)) (kbind (stati (f_ip x)) (\<lambda>st. kthen (iunlock (f_ip x)) (kret (0, Some st))))
     else kret (-1, None))"

text \<open>A routine of a pipe, run on the pipe at \<open>p\<close>.\<close>

definition on_pipe :: "u32 \<Rightarrow> (pipe, 'a) km \<Rightarrow> ('z file_st_scheme, 'a) km" where
  "on_pipe p m = (\<lambda>s. case m (pipes s p) of
     Ok (x, q) \<Rightarrow> Ok (x, s\<lparr>pipes := (pipes s)(p := q)\<rparr>) | Panic e \<Rightarrow> Panic e | Sleep e \<Rightarrow> Sleep e | Fault e \<Rightarrow> Fault e)"

definition piperead_km :: "bool \<Rightarrow> nat \<Rightarrow> (pipe, int \<times> u8 list) km" where
  "piperead_km killed n = (\<lambda>p. case piperead killed n p of
     (q, bs, Done) \<Rightarrow> Ok ((int (length bs), bs), q) | (q, bs, Failed) \<Rightarrow> Ok ((-1, bs), q) | (q, bs, Asleep) \<Rightarrow> Sleep ''piperead'')"

definition fileread :: "(nat \<Rightarrow> 'z file_st_scheme devsw) \<Rightarrow> bool \<Rightarrow> nat \<Rightarrow> u32 \<Rightarrow> ('z file_st_scheme, int \<times> u8 list) km" where
  "fileread dv killed f n = kbind (get_file f) (\<lambda>x.
     if \<not> f_readable x then kret (-1, [])
     else if f_type x = FD_PIPE then on_pipe (f_pipe x) (piperead_km killed (nat (sint n)))
     else if f_type x = FD_INODE then
       kthen (ilock (f_ip x))
       (kbind (readi dv (f_ip x) (f_off x) n) (\<lambda>(r, bs).
        kthen (if 0 < r then upd_file f (\<lambda>x. x\<lparr>f_off := f_off x + of_int r\<rparr>) else kret ())
        (kthen (iunlock (f_ip x)) (kret (r, bs)))))
     else kpanic ''fileread'')"

text \<open>\<open>((LOGSIZE-1-1-2) / 2) * 512\<close>\<close>

definition write_max :: int where
  "write_max = ((int LOGSIZE - 1 - 1 - 2) div 2) * 512"

definition write_chunk :: "(nat \<Rightarrow> 'z file_st_scheme devsw) \<Rightarrow> nat \<Rightarrow> u8 list \<Rightarrow> int \<Rightarrow> int \<Rightarrow> ('z file_st_scheme, int) km" where
  "write_chunk dv f src i n1 =
     kthen begin_op
     (kbind (get_file f) (\<lambda>x.
      kthen (ilock (f_ip x))
      (kbind (writei dv (f_ip x) (take (nat n1) (drop (nat i) src)) (f_off x) (of_int n1)) (\<lambda>r.
       kthen (if 0 < r then upd_file f (\<lambda>x. x\<lparr>f_off := f_off x + of_int r\<rparr>) else kret ())
       (kthen (iunlock (f_ip x))
       (kthen end_op (kret r)))))))"

text \<open>The loop of \<open>filewrite\<close>; its value is the value of \<open>i\<close> after it.\<close>

function write_chunks :: "(nat \<Rightarrow> 'z file_st_scheme devsw) \<Rightarrow> nat \<Rightarrow> u8 list \<Rightarrow> int \<Rightarrow> int \<Rightarrow> ('z file_st_scheme, int) km" where
  "write_chunks dv f src n i =
     (if i < n then
        let n1 = (if write_max < n - i then write_max else n - i) in
        kbind (write_chunk dv f src i n1) (\<lambda>r.
        if r < 0 then kret i
        else if r \<noteq> n1 then kpanic ''short filewrite''
        else write_chunks dv f src n (i + r))
      else kret i)"
  by pat_completeness auto
termination
  by (relation "measure (\<lambda>(dv, f, src, n, i). nat (n - i))") (auto simp: write_max_def LOGSIZE_def MAXOPBLOCKS_def split: if_splits)

declare write_chunks.simps [simp del]

definition filewrite :: "(nat \<Rightarrow> 'z file_st_scheme devsw) \<Rightarrow> bool \<Rightarrow> nat \<Rightarrow> u8 list \<Rightarrow> u32 \<Rightarrow> ('z file_st_scheme, int) km" where
  "filewrite dv killed f src n = kbind (get_file f) (\<lambda>x.
     if \<not> f_writable x then kret (-1)
     else if f_type x = FD_PIPE then
       kbind (on_pipe (f_pipe x) (pipewrite killed (take (nat (sint n)) src))) (\<lambda>r. kret (if r < 0 then -1 else sint n))
     else if f_type x = FD_INODE then
       kbind (write_chunks dv f src (sint n) 0) (\<lambda>i. kret (if i = sint n then sint n else -1))
     else kpanic ''filewrite'')"

text \<open>The bytes of a fresh pipe are those of its page.\<close>

definition page_bytes :: "mem \<Rightarrow> u32 \<Rightarrow> u8 list" where
  "page_bytes m p = map (\<lambda>k. m (p + of_nat k)) [0..<PIPESIZE]"

definition pipealloc :: "u32 \<Rightarrow> ('z file_st_scheme, (nat \<times> nat) option) km" where
  "pipealloc en =
     kbind filealloc (\<lambda>r0. case r0 of None \<Rightarrow> kret None | Some f0 \<Rightarrow>
     kbind filealloc (\<lambda>r1. case r1 of None \<Rightarrow> kthen (fileclose en f0) (kret None) | Some f1 \<Rightarrow>
     kbind kalloc (\<lambda>p.
     if p = 0 then kthen (fileclose en f0) (kthen (fileclose en f1) (kret None))
     else
       kthen (kmod (\<lambda>s. s\<lparr>pipes := (pipes s)(p := \<lparr>p_data = page_bytes (kmem_mem s) p, nread = 0, nwrite = 0, readopen = True, writeopen = True\<rparr>)\<rparr>))
       (kthen (upd_file f0 (\<lambda>x. x\<lparr>f_type := FD_PIPE, f_readable := True, f_writable := False, f_pipe := p\<rparr>))
       (kthen (upd_file f1 (\<lambda>x. x\<lparr>f_type := FD_PIPE, f_readable := False, f_writable := True, f_pipe := p\<rparr>))
              (kret (Some (f0, f1))))))))"

section \<open>The table\<close>

definition free_files :: "'z file_st_scheme \<Rightarrow> nat list" where
  "free_files s = filter (\<lambda>f. f_ref (ftable s f) = 0) [0..<NFILE]"

lemma find_filter: "List.find P xs = (case filter P xs of [] \<Rightarrow> None | x # _ \<Rightarrow> Some x)"
  by (induction xs) auto

lemma filealloc_eq: "filealloc s = (case free_files s of [] \<Rightarrow> Ok (None, s)
    | f # _ \<Rightarrow> Ok (Some f, s\<lparr>ftable := (ftable s)(f := (ftable s f)\<lparr>f_ref := 1\<rparr>)\<rparr>))"
  by (simp add: filealloc_def free_files_def find_filter kdefs upd_file_def split: list.split)

lemma free_files_mem: "free_files s = f # fs \<Longrightarrow> f < NFILE \<and> f_ref (ftable s f) = 0 \<and> f \<notin> set fs"
proof -
  assume a: "free_files s = f # fs"
  have "distinct (free_files s)" by (simp add: free_files_def)
  then have "f \<notin> set fs" using a by simp
  moreover have "f \<in> set (free_files s)" using a by simp
  ultimately show ?thesis by (auto simp: free_files_def)
qed

lemma free_files_take:
  assumes "free_files s = f # fs"
  shows "free_files (s\<lparr>ftable := (ftable s)(f := (ftable s f)\<lparr>f_ref := 1\<rparr>)\<rparr>) = fs"
proof -
  have "filter (\<lambda>g. f_ref (((ftable s)(f := (ftable s f)\<lparr>f_ref := 1\<rparr>)) g) = 0) [0..<NFILE] = filter (\<lambda>g. g \<noteq> f) (free_files s)"
    by (auto simp: free_files_def intro!: filter_cong)
  also have "\<dots> = fs" using assms free_files_mem [OF assms] by (auto simp: filter_id_conv)
  finally show ?thesis by (simp add: free_files_def)
qed

section \<open>Pipes as files\<close>

text \<open>The two ends of the pipe at \<open>p\<close>.\<close>

definition read_end :: "open_file \<Rightarrow> u32 \<Rightarrow> bool" where
  "read_end x p \<longleftrightarrow> f_type x = FD_PIPE \<and> f_ref x = 1 \<and> f_readable x \<and> \<not> f_writable x \<and> f_pipe x = p"

definition write_end :: "open_file \<Rightarrow> u32 \<Rightarrow> bool" where
  "write_end x p \<longleftrightarrow> f_type x = FD_PIPE \<and> f_ref x = 1 \<and> \<not> f_readable x \<and> f_writable x \<and> f_pipe x = p"

lemma kmem_ok_upd [simp]:
  "kmem_ok en (s\<lparr>ftable := a\<rparr>) free = kmem_ok en s free" "kmem_ok en (s\<lparr>pipes := b\<rparr>) free = kmem_ok en s free"
  by (simp_all add: kmem_ok_def)

lemma kalloc_eq:
  assumes "kmem_ok en s (p # free)"
  shows "kalloc s = Ok (p, s\<lparr>kmem_freelist := load32 (kmem_mem s) p\<rparr>) \<and> p \<noteq> 0 \<and> kmem_ok en (s\<lparr>kmem_freelist := load32 (kmem_mem s) p\<rparr>) free"
  using assms by (auto simp: kalloc_def kdefs kmem_ok_def)

lemma pipealloc_ok:
  assumes f: "free_files s = f0 # f1 # fs" and k: "kmem_ok en s (p # free)"
  shows "\<exists>t. pipealloc en s = Ok (Some (f0, f1), t) \<and> f0 \<noteq> f1 \<and> read_end (ftable t f0) p \<and> write_end (ftable t f1) p \<and> kmem_ok en t free
    \<and> pipe_wf (pipes t p) \<and> pipe_bytes (pipes t p) = [] \<and> readopen (pipes t p) \<and> writeopen (pipes t p)"
proof -
  let ?s1 = "s\<lparr>ftable := (ftable s)(f0 := (ftable s f0)\<lparr>f_ref := 1\<rparr>)\<rparr>"
  let ?s2 = "?s1\<lparr>ftable := (ftable ?s1)(f1 := (ftable ?s1 f1)\<lparr>f_ref := 1\<rparr>)\<rparr>"
  have ne: "f0 \<noteq> f1" using free_files_mem [OF f] by simp
  have a1: "filealloc s = Ok (Some f0, ?s1)" using f by (simp add: filealloc_eq)
  have a2: "filealloc ?s1 = Ok (Some f1, ?s2)" using free_files_take [OF f] by (simp add: filealloc_eq)
  have "kmem_ok en ?s2 (p # free)" using k by simp
  from kalloc_eq [OF this] have a3: "kalloc ?s2 = Ok (p, ?s2\<lparr>kmem_freelist := load32 (kmem_mem s) p\<rparr>)" "p \<noteq> 0"
    "kmem_ok en (?s2\<lparr>kmem_freelist := load32 (kmem_mem s) p\<rparr>) free" by simp_all
  have w: "pipe_wf \<lparr>p_data = page_bytes m p, nread = 0, nwrite = 0, readopen = True, writeopen = True\<rparr>"
    "pipe_bytes \<lparr>p_data = page_bytes m p, nread = 0, nwrite = 0, readopen = True, writeopen = True\<rparr> = []" for m
    by (simp_all add: pipe_wf_def pipe_bytes_def page_bytes_def ring_def)
  let ?t = "?s2\<lparr>kmem_freelist := load32 (kmem_mem s) p,
    pipes := (pipes s)(p := \<lparr>p_data = page_bytes (kmem_mem s) p, nread = 0, nwrite = 0, readopen = True, writeopen = True\<rparr>),
    ftable := (ftable ?s2)(f0 := (ftable ?s2 f0)\<lparr>f_type := FD_PIPE, f_readable := True, f_writable := False, f_pipe := p\<rparr>,
      f1 := (ftable ?s2 f1)\<lparr>f_type := FD_PIPE, f_readable := False, f_writable := True, f_pipe := p\<rparr>)\<rparr>"
  have "pipealloc en s = Ok (Some (f0, f1), ?t)"
    unfolding pipealloc_def kbind_Ok [of filealloc s, OF a1] option.case kbind_Ok [of filealloc ?s1, OF a2] kbind_Ok [of kalloc ?s2, OF a3(1)] using a3(2) ne
    by (simp add: kdefs upd_file_def fun_upd_twist)
  moreover have "kmem_ok en ?t free" using a3(3) by (simp add: kmem_ok_def)
  ultimately show ?thesis using ne w by (intro exI [of _ ?t]) (simp add: read_end_def write_end_def)
qed

lemma pipe_write_ok:
  assumes "f_type x = FD_PIPE" "f_writable x" "f_pipe x = p" "x = ftable s f" "pipe_wf (pipes s p)"
    "length (pipe_bytes (pipes s p)) + length bs \<le> PIPESIZE"
  shows "\<exists>q. filewrite dv False f bs (of_nat (length bs)) s = Ok (int (length bs), s\<lparr>pipes := (pipes s)(p := q)\<rparr>)
    \<and> pipe_wf q \<and> pipe_bytes q = pipe_bytes (pipes s p) @ bs \<and> readopen q = readopen (pipes s p) \<and> writeopen q = writeopen (pipes s p)"
proof -
  obtain q rest e where w: "write_loop False bs (pipes s p) = (q, rest, e)" by (metis prod_cases3)
  note W = write_loop_spec [OF assms(5) w] and K = loop_keeps [OF w]
  have "rest = []"
  proof (rule ccontr)
    assume r: "rest \<noteq> []"
    have "length (pipe_bytes q) + length rest = length (pipe_bytes (pipes s p)) + length bs" using arg_cong [OF W(2), of length] by simp
    moreover have "0 < length rest" using r by simp
    ultimately show False using W(5) [OF r] assms(6) by linarith
  qed
  then have e: "e = Done" "pipe_bytes q = pipe_bytes (pipes s p) @ bs" using W by auto
  have "length bs < 2147483648" using assms(6) by (simp add: PIPESIZE_def)
  then have "sint (of_nat (length bs) :: u32) = int (length bs)" using sint_of_int32 [of "int (length bs)"] by simp
  then have "filewrite dv False f bs (of_nat (length bs)) s = Ok (int (length bs), s\<lparr>pipes := (pipes s)(p := q)\<rparr>)"
    using assms(1-4) w e(1) by (simp add: filewrite_def on_pipe_def pipewrite_def get_file_def kdefs)
  then show ?thesis using e(2) W(1) K by blast
qed

lemma pipe_read_ok:
  assumes "f_type x = FD_PIPE" "f_readable x" "f_pipe x = p" "x = ftable s f" "pipe_wf (pipes s p)"
    "pipe_bytes (pipes s p) \<noteq> [] \<or> \<not> writeopen (pipes s p)"
    and that: "bs = take (nat (sint n)) (pipe_bytes (pipes s p))"
  shows "\<exists>q. fileread dv False f n s = Ok ((int (length bs), bs), s\<lparr>pipes := (pipes s)(p := q)\<rparr>)
    \<and> pipe_wf q \<and> pipe_bytes q = drop (nat (sint n)) (pipe_bytes (pipes s p)) \<and> readopen q = readopen (pipes s p) \<and> writeopen q = writeopen (pipes s p)"
proof -
  obtain q cs' e where r: "piperead False (nat (sint n)) (pipes s p) = (q, cs', e)" by (metis prod_cases3)
  note R = piperead_spec [OF assms(5) r]
  have "e = Done" using R(3,4) assms(6) by (cases e) auto
  then have e: "e = Done" "cs' = bs" "pipe_bytes q = drop (nat (sint n)) (pipe_bytes (pipes s p))"
    using R(2,5) that by (auto, metis append_take_drop_id same_append_eq)
  have "readopen q = readopen (pipes s p) \<and> writeopen q = writeopen (pipes s p)"
    using r e(1) read_keeps by (auto simp: piperead_def split: if_splits prod.splits)
  moreover have "fileread dv False f n s = Ok ((int (length bs), bs), s\<lparr>pipes := (pipes s)(p := q)\<rparr>)" using assms(1-4) r e(1,2)
    by (simp add: fileread_def on_pipe_def piperead_km_def get_file_def kdefs)
  ultimately show ?thesis using e(3) R(1) by blast
qed

lemma close_write_end:
  assumes "write_end (ftable s f) p" "readopen (pipes s p)"
  shows "fileclose en f s = Ok ((), s\<lparr>ftable := (ftable s)(f := (ftable s f)\<lparr>f_ref := 0, f_type := FD_NONE\<rparr>),
     pipes := (pipes s)(p := (pipes s p)\<lparr>writeopen := False\<rparr>)\<rparr>)"
  using assms by (simp add: fileclose_def pipeclose_def write_end_def get_file_def upd_file_def kdefs)

lemma close_read_end:
  assumes "read_end (ftable s f) p" "\<not> writeopen (pipes s p)"
  shows "fileclose en f s = kfree en p (s\<lparr>ftable := (ftable s)(f := (ftable s f)\<lparr>f_ref := 0, f_type := FD_NONE\<rparr>),
     pipes := (pipes s)(p := (pipes s p)\<lparr>readopen := False\<rparr>)\<rparr>)"
  using assms by (simp add: fileclose_def pipeclose_def read_end_def get_file_def upd_file_def kthen_def kbind_def kmod_def kget_def)

section \<open>Properties\<close>


definition demo_files :: file_st where
  "demo_files = con_st.extend (demo_con\<lparr>kmem_freelist := 0x80200000, kmem_mem := \<lambda>_. 0\<rparr>)
     (file_st.fields (\<lambda>_. \<lparr>f_type = FD_NONE, f_ref = 0, f_readable = False, f_writable = False, f_pipe = 0, f_ip = 0, f_off = 0\<rparr>)
        (\<lambda>_. new_pipe []))"

lemma demo_files_simps:
  "kmem_freelist demo_files = 0x80200000" "kmem_mem demo_files = (\<lambda>_. 0)" "f_ref (ftable demo_files f) = 0"
  by (simp_all add: demo_files_def con_st.extend_def file_st.fields_def)


end
