(* ===== verification/Durable.thy ===== *)
theory Durable
  imports File
begin

text \<open>
  \<open>filewrite\<close> through file table, inode and log: a write is split into transactions of at
  most \<open>write_max\<close> bytes, each of which is committed before the next begins. Shown here:
  when \<open>filewrite\<close> returns, every byte is in its place on the disk, and another open file
  on the same inode reads them back.
\<close>

section \<open>Between two operations\<close>

text \<open>
  No operation is under way and the log is empty; it is large enough for the blocks of
  one chunk.
\<close>

definition sys_idle :: "'z log_st_scheme \<Rightarrow> bool" where
  "sys_idle s \<longleftrightarrow> log_inv {} s \<and> lh_n s = 0 \<and> log_outstanding s = 0 \<and> \<not> log_committing s \<and> 14 < log_size s"

lemma sys_idle_disk: "sys_idle s \<Longrightarrow> bview s = memdisk s"
proof -
  assume a: "sys_idle s"
  then have "homes s = []" by (simp add: sys_idle_def homes_def)
  then show ?thesis using a io_view_clean [OF log_invD(1), of "{}" s] log_invD(7) [of "{}" s] by (auto simp: sys_idle_def fun_eq_iff)
qed

text \<open>An inode that is in the table, loaded and unlocked, whose blocks are distinct data blocks.\<close>

definition file_ready :: "nat \<Rightarrow> 'z fs_st_scheme \<Rightarrow> bool" where
  "file_ready ip s \<longleftrightarrow> (let i = icache s ip in i_flags i = I_VALID \<and> 1 \<le> i_ref i \<and> i_dev i = 1 \<and> i_type i \<noteq> T_DEV
     \<and> blocks_of (i_size i) \<le> MAXFILE \<and> file_wf (bview s) (i_addrs i) (blocks_of (i_size i))
     \<and> (\<forall>bn < blocks_of (i_size i). \<forall>x \<in> set (fpath (bview s) (i_addrs i) bn). in_data {} s x))"

text \<open>The blocks below the log.\<close>

definition lowview :: "'z log_st_scheme \<Rightarrow> nat \<Rightarrow> u8 list" where
  "lowview s x = (if x < unat (log_start s) then bview s x else [])"

lemma file_frame [simp]:
  "bview (s\<lparr>ftable := a\<rparr>) = bview s" "log_inv H (s\<lparr>ftable := a\<rparr>) = log_inv H s"
proof -
  note c = bio_cong [of "s\<lparr>ftable := a\<rparr>" s]
  show "bview (s\<lparr>ftable := a\<rparr>) = bview s" by (rule c; simp)
  have "io H (s\<lparr>ftable := a\<rparr>) = io H s" "dirty_secs (s\<lparr>ftable := a\<rparr>) = dirty_secs s" by (rule c; simp)+
  then show "log_inv H (s\<lparr>ftable := a\<rparr>) = log_inv H s" by (simp add: log_inv_def log_geo_def homes_def)
qed

lemma file_more: "log_st.more t = log_st.more s \<Longrightarrow> icache t = icache s \<and> ftable t = ftable s \<and> pipes t = pipes s"
  by (cases s; cases t; simp)

lemma kpres_end_op: "kpres log_st.more end_op"
  unfolding end_op_def commit_def write_log_def write_head_def install_trans_def log_block_def home_block_def get_sector_def
  by (intro kpres_intros; simp)

lemma I_flag_facts:
  "I_VALID AND I_BUSY = 0" "I_VALID AND I_VALID \<noteq> 0" "I_VALID OR I_BUSY = I_BUSY OR I_VALID"
  "(I_BUSY OR I_VALID) AND I_BUSY \<noteq> 0" "(I_BUSY OR I_VALID) AND NOT I_BUSY = I_VALID"
  by (simp_all add: I_BUSY_def I_VALID_def)

definition lock_flags :: "nat \<Rightarrow> u32 \<Rightarrow> 'z fs_st_scheme \<Rightarrow> 'z fs_st_scheme" where
  "lock_flags ip v s = s\<lparr>icache := (icache s)(ip := (icache s ip)\<lparr>i_flags := v\<rparr>)\<rparr>"

lemma ilock_valid: "i_flags (icache s ip) = I_VALID \<Longrightarrow> 1 \<le> i_ref (icache s ip) \<Longrightarrow> ilock ip s = Ok ((), lock_flags ip (I_BUSY OR I_VALID) s)"
  by (simp add: ilock_def kdefs get_inode_def upd_inode_def lock_flags_def I_flag_facts)

lemma iunlock_valid: "i_flags (icache s ip) = I_BUSY OR I_VALID \<Longrightarrow> 1 \<le> i_ref (icache s ip) \<Longrightarrow> iunlock ip s = Ok ((), lock_flags ip I_VALID s)"
  by (simp add: iunlock_def kdefs get_inode_def upd_inode_def lock_flags_def I_flag_facts)

lemma lock_flags_simps [simp]:
  "bview (lock_flags ip v s) = bview s" "log_inv H (lock_flags ip v s) = log_inv H s" "lh_n (lock_flags ip v s) = lh_n s"
  "log_outstanding (lock_flags ip v s) = log_outstanding s" "log_committing (lock_flags ip v s) = log_committing s"
  "log_size (lock_flags ip v s) = log_size s" "log_start (lock_flags ip v s) = log_start s"
  "icache (lock_flags ip v s) = (icache s)(ip := (icache s ip)\<lparr>i_flags := v\<rparr>)"
  by (simp_all add: lock_flags_def)

lemma lock_flags_file [simp]: "ftable (lock_flags ip v s) = ftable s"
  by (simp add: lock_flags_def)

lemma nblk_chunk:
  assumes "n \<le> 6656"
  shows "nblk off n \<le> 14"
proof -
  define q r where "q = off div 512" and "r = off mod 512"
  have o: "off = q * 512 + r" "r < 512" by (simp_all add: q_def r_def)
  have "(off + n + 511) div 512 = q + (r + n + 511) div 512" unfolding o(1) by (simp add: ac_simps)
  moreover have "(r + n + 511) div 512 \<le> 14" using o(2) assms div_le_mono [of "r + n + 511" 7678 512] by simp
  moreover have "off + n + BSIZE - 1 = off + n + 511" by (simp add: BSIZE_def)
  then have "nblk off n \<le> (off + n + 511) div 512 - q" unfolding nblk_def q_def by (simp only: BSIZE_def) simp
  ultimately show ?thesis by linarith
qed

section \<open>What a file looks like below the log\<close>

lemma fpath_low:
  assumes "\<And>x. x \<in> set (fpath (bview s) a bn) \<Longrightarrow> unat x < unat (log_start s)"
  shows "fpath (lowview s) a bn = fpath (bview s) a bn"
  using assms by (intro fpath_upd) (auto simp: lowview_def dest: in_set_butlastD)

lemma fblock_in: "fblock v a bn \<in> set (fpath v a bn)"
  by (auto simp: fblock_def fpath_def Let_def)

lemma file_upd_low:
  assumes upd: "file_upd (bview s) (bview t) a nb off src" and st: "log_start t = log_start s"
    and dat: "\<And>bn x. bn < nb \<Longrightarrow> x \<in> set (fpath (bview s) a bn) \<Longrightarrow> unat x < unat (log_start s)"
  shows "file_upd (lowview s) (lowview t) a nb off src"
proof -
  have ps: "fpath (lowview s) a bn = fpath (bview s) a bn" if "bn < nb" for bn using dat that by (intro fpath_low) auto
  have pe: "fpath (bview t) a bn = fpath (bview s) a bn" if "bn < nb" for bn using upd that by (simp add: file_upd_def)
  have pt: "fpath (lowview t) a bn = fpath (bview s) a bn" if "bn < nb" for bn
    using dat that pe [OF that] st by (subst fpath_low) auto
  have fb: "fblock (lowview s) a bn = fblock (bview s) a bn" "fblock (lowview t) a bn = fblock (bview s) a bn"
    "fblock (bview t) a bn = fblock (bview s) a bn" "unat (fblock (bview s) a bn) < unat (log_start s)" if "bn < nb" for bn
    using ps pt pe that dat [OF that fblock_in] by (simp_all add: fblock_def)
  have eqs: "fbyte (lowview s) a k = fbyte (bview s) a k" "fbyte (lowview t) a k = fbyte (bview t) a k" if "k < nb * BSIZE" for k
    using fb [OF div_lt_blocks [OF that]] st by (simp_all add: fbyte_def lowview_def)
  have "lowview t x = lowview s x" if "\<forall>bn < nb. x \<noteq> unat (fblock (lowview s) a bn)" for x
    using upd that fb(1) st by (simp add: file_upd_def lowview_def)
  then show ?thesis using upd ps pt eqs by (simp add: file_upd_def)
qed

lemma file_ready_low:
  assumes "file_ready ip s" "i = icache s ip" "bn < blocks_of (i_size i)" "x \<in> set (fpath (bview s) (i_addrs i) bn)"
  shows "in_data {} s x" "unat x < unat (log_start s)"
  using assms by (auto simp: file_ready_def Let_def in_data_def)

lemma low_file:
  assumes "file_ready ip s"
  shows "bn < blocks_of (i_size (icache s ip)) \<Longrightarrow> fblock (lowview s) (i_addrs (icache s ip)) bn = fblock (bview s) (i_addrs (icache s ip)) bn"
    "k < blocks_of (i_size (icache s ip)) * BSIZE \<Longrightarrow> fbyte (lowview s) (i_addrs (icache s ip)) k = fbyte (bview s) (i_addrs (icache s ip)) k"
proof -
  show fb: "fblock (lowview s) (i_addrs (icache s ip)) bn = fblock (bview s) (i_addrs (icache s ip)) bn"
    if "bn < blocks_of (i_size (icache s ip))" for bn
    using fpath_low [of s "i_addrs (icache s ip)" bn] file_ready_low(2) [OF assms refl that] by (simp add: fblock_def)
  show "fbyte (lowview s) (i_addrs (icache s ip)) k = fbyte (bview s) (i_addrs (icache s ip)) k"
    if "k < blocks_of (i_size (icache s ip)) * BSIZE"
    using fb [OF div_lt_blocks [OF that]] file_ready_low(2) [OF assms refl div_lt_blocks [OF that] fblock_in]
    by (simp add: fbyte_def lowview_def)
qed

section \<open>One chunk\<close>

text \<open>A state with the same file system seen through the cache below the log.\<close>

lemma file_ready_cong:
  assumes r: "file_ready ip s" and i: "icache t ip = icache s ip" "log_start t = log_start s"
    and upd: "file_upd (bview s) (bview w) (i_addrs (icache s ip)) (blocks_of (i_size (icache s ip))) off src"
    and v: "\<And>x. x < unat (log_start s) \<Longrightarrow> bview t x = bview w x"
  shows "file_ready ip t"
proof -
  let ?a = "i_addrs (icache s ip)" and ?nb = "blocks_of (i_size (icache s ip))"
  have p: "fpath (bview t) ?a bn = fpath (bview s) ?a bn" if "bn < ?nb" for bn
  proof -
    have e: "fpath (bview w) ?a bn = fpath (bview s) ?a bn" using upd that by (simp add: file_upd_def)
    have "fpath (bview t) ?a bn = fpath (bview w) ?a bn"
    proof (rule fpath_upd)
      fix x assume "x \<in> set (butlast (fpath (bview w) ?a bn))"
      then have "unat x < unat (log_start s)" using file_ready_low(2) [OF r refl that] e by (auto dest: in_set_butlastD)
      then show "bview t (unat x) = bview w (unat x)" by (rule v)
    qed
    then show ?thesis using e by simp
  qed
  then show ?thesis using r i by (simp add: file_ready_def Let_def file_wf_def fblock_def in_data_def)
qed

lemma write_chunk_wp:
  assumes idle: "sys_idle s" and rdy: "file_ready ip s" and f: "f_ip (ftable s f) = ip"
    and n: "0 < n1" "n1 \<le> write_max" "unat (f_off (ftable s f)) + nat n1 \<le> unat (i_size (icache s ip))"
    and src: "length (take (nat n1) (drop (nat i) src)) = nat n1"
  shows "kwp (write_chunk dv f src i n1) (\<lambda>r t. r = n1 \<and> sys_idle t \<and> file_ready ip t \<and> icache t = icache s \<and> log_start t = log_start s
    \<and> ftable t = (ftable s)(f := (ftable s f)\<lparr>f_off := f_off (ftable s f) + of_int n1\<rparr>)
    \<and> file_upd (lowview s) (lowview t) (i_addrs (icache s ip)) (blocks_of (i_size (icache s ip))) (unat (f_off (ftable s f))) (take (nat n1) (drop (nat i) src))) s"
proof -
  let ?i = "icache s ip" and ?off = "f_off (ftable s f)" and ?src = "take (nat n1) (drop (nat i) src)"
  let ?nb = "blocks_of (i_size ?i)"
  let ?j = "?i\<lparr>i_flags := I_BUSY OR I_VALID\<rparr>"
  let ?s1 = "s\<lparr>log_outstanding := 1\<rparr>"
  let ?s2 = "lock_flags ip (I_BUSY OR I_VALID) ?s1"
  note I = idle [unfolded sys_idle_def] and R = rdy [unfolded file_ready_def Let_def]
  have n32: "n1 < 2147483648" using n(2) by (simp add: write_max_def LOGSIZE_def MAXOPBLOCKS_def)
  then have un: "unat (of_int n1 :: u32) = nat n1" "sint (of_int n1 :: u32) = n1" "nat n1 \<le> 6656"
    using n(1,2) unat_of_nat32 [of "nat n1"] sint_of_int32 [of n1] by (simp_all add: write_max_def LOGSIZE_def MAXOPBLOCKS_def)
  have b: "begin_op s = Ok ((), ?s1)" using I by (simp add: begin_op_eq LOGSIZE_def MAXOPBLOCKS_def)
  have l: "ilock ip ?s1 = Ok ((), ?s2)" using R by (intro ilock_valid) simp_all
  have room: "nblk (unat ?off) (nat n1) \<le> 14" using un(3) by (rule nblk_chunk)
  define P where "P = (\<lambda>r t. r = n1 \<and> txf ?s2 t \<and> log_inv {} t \<and> file_upd (bview s) (bview t) (i_addrs ?i) ?nb (unat ?off) ?src)"
  have w: "kwp (writei dv ip ?src ?off (of_int n1)) P ?s2"
  proof (rule writei_wp [where H = "{}" and i = ?j])
    show "file_wf (bview ?s2) (i_addrs ?j) (blocks_of (i_size ?j))" using R by simp
    show "in_data {} ?s2 x" if "bn < blocks_of (i_size ?j)" "x \<in> set (fpath (bview ?s2) (i_addrs ?j) bn)" for bn x
      using file_ready_low(1) [OF rdy refl] that by (auto simp: in_data_def)
    show "P (sint (of_int n1 :: u32)) t" if "txf ?s2 t" "log_inv {} t"
      "file_upd (bview ?s2) (bview t) (i_addrs ?j) (blocks_of (i_size ?j)) (unat ?off) ?src" for t
      using that un(2) by (simp add: P_def)
  qed (use I R room un n src in \<open>simp_all add: NBUF_def MAXOPBLOCKS_def\<close>)
  then obtain t where t: "writei dv ip ?src ?off (of_int n1) ?s2 = Ok (n1, t)" "txf ?s2 t" "log_inv {} t"
    "file_upd (bview s) (bview t) (i_addrs ?i) ?nb (unat ?off) ?src" by (auto simp: kwp_Ok P_def)
  note F = txf_fields [OF t(2)] and M = file_more [OF txf_fields(9) [OF t(2)]]
  let ?t1 = "t\<lparr>ftable := (ftable t)(f := (ftable t f)\<lparr>f_off := f_off (ftable t f) + of_int n1\<rparr>)\<rparr>"
  let ?t2 = "lock_flags ip I_VALID ?t1"
  have u: "iunlock ip ?t1 = Ok ((), ?t2)" using M R by (intro iunlock_valid) simp_all
  have out: "log_outstanding ?t2 = 1" "\<not> log_committing ?t2" using F I by simp_all
  have it2: "log_inv {} ?t2" using t(3) by simp
  have "kwp end_op (\<lambda>_ v. sys_idle v \<and> log_start v = log_start s \<and> (\<forall>x < unat (log_start s). memdisk v x = bview t x \<and> bview v x = bview t x)) ?t2"
    by (rule end_op_done [OF it2 out]) (use F I in \<open>auto simp: sys_idle_def\<close>)
  then obtain v where v: "end_op ?t2 = Ok ((), v)" "sys_idle v" "log_start v = log_start s"
    "\<And>x. x < unat (log_start s) \<Longrightarrow> bview v x = bview t x" by (auto simp: kwp_Ok)
  have vm: "icache v = icache ?t2" "ftable v = ftable ?t2" using file_more [OF kpresD [OF kpres_end_op v(1)]] by simp_all
  have ic: "icache v = icache s" using vm(1) M R by (auto simp: fun_eq_iff)
  have ft: "ftable v = (ftable s)(f := (ftable s f)\<lparr>f_off := ?off + of_int n1\<rparr>)" using vm(2) M by simp
  have low: "lowview v = lowview t" using v(3,4) F(4) by (auto simp: lowview_def fun_eq_iff)
  have "file_upd (lowview s) (lowview t) (i_addrs ?i) ?nb (unat ?off) ?src"
    by (rule file_upd_low [OF t(4)]) (use F(4) file_ready_low(2) [OF rdy refl] in simp_all)
  moreover have "file_ready ip v" by (rule file_ready_cong [OF rdy _ v(3) t(4)]) (use ic v(4) in simp_all)
  moreover have "write_chunk dv f src i n1 s = Ok (n1, v)"
    unfolding write_chunk_def kthen_Ok [of begin_op s, OF b]
    using f l t(1) u v(1) n(1) by (simp add: kdefs get_file_def upd_file_def M)
  ultimately show ?thesis using v ic ft low by (simp add: kwp_def)
qed

section \<open>The whole write\<close>

lemma unat_off_add:
  assumes "0 \<le> d" "unat (off :: u32) + nat d \<le> unat (sz :: u32)"
  shows "unat (off + of_int d) = unat off + nat d"
proof -
  have "unat sz < 2 ^ LENGTH(32)" by (rule unsigned_less)
  then show ?thesis using assms unat_plus32 [of off "nat d"] by simp
qed

lemma write_chunks_wp:
  assumes "sys_idle s" "file_ready ip s" "f_ip (ftable s f) = ip" "0 \<le> i" "i \<le> n" "length src = nat n"
    "unat (f_off (ftable s f)) + nat (n - i) \<le> unat (i_size (icache s ip))"
  shows "kwp (write_chunks dv f src n i) (\<lambda>r t. r = n \<and> sys_idle t \<and> file_ready ip t \<and> icache t = icache s \<and> log_start t = log_start s
    \<and> ftable t = (ftable s)(f := (ftable s f)\<lparr>f_off := f_off (ftable s f) + of_int (n - i)\<rparr>)
    \<and> file_upd (lowview s) (lowview t) (i_addrs (icache s ip)) (blocks_of (i_size (icache s ip))) (unat (f_off (ftable s f))) (drop (nat i) src)) s"
  using assms
proof (induction dv f src n i arbitrary: s rule: write_chunks.induct)
  case (1 dv f src n i)
  note P = "1.prems"
  let ?a = "i_addrs (icache s ip)" and ?nb = "blocks_of (i_size (icache s ip))" and ?x = "ftable s f"
  show ?case
  proof (cases "i < n")
    case False
    then show ?thesis using P by (subst write_chunks.simps) (simp add: file_upd_refl)
  next
    case True
    define n1 where "n1 = (if write_max < n - i then write_max else n - i)"
    have wm: "0 < write_max" by (simp add: write_max_def LOGSIZE_def MAXOPBLOCKS_def)
    have n1: "0 < n1" "n1 \<le> write_max" "n1 \<le> n - i" using True wm by (auto simp: n1_def)
    have le: "unat (f_off ?x) + nat n1 \<le> unat (i_size (icache s ip))" using P(7) n1(3) by linarith
    have len: "length (take (nat n1) (drop (nat i) src)) = nat n1" using P(4,6) n1 by auto
    have app: "take (nat n1) (drop (nat i) src) @ drop (nat (i + n1)) src = drop (nat i) src"
      using P(4) n1(1) append_take_drop_id [of "nat n1" "drop (nat i) src"] by (simp add: nat_add_distrib add.commute)
    let ?Q = "\<lambda>r t. r = n \<and> sys_idle t \<and> file_ready ip t \<and> icache t = icache s \<and> log_start t = log_start s
      \<and> ftable t = (ftable s)(f := ?x\<lparr>f_off := f_off ?x + of_int (n - i)\<rparr>)
      \<and> file_upd (lowview s) (lowview t) ?a ?nb (unat (f_off ?x)) (drop (nat i) src)"
    have "kwp (write_chunk dv f src i n1) (\<lambda>r. kwp (if r < 0 then kret i else if r \<noteq> n1 then kpanic ''short filewrite'' else write_chunks dv f src n (i + r)) ?Q) s"
    proof (rule kwp_mono [OF write_chunk_wp [OF P(1-3) n1(1,2) le len]], goal_cases)
      case (1 r t)
      then have r: "r = n1" and t: "sys_idle t" "file_ready ip t" "icache t = icache s" "log_start t = log_start s"
        "ftable t = (ftable s)(f := ?x\<lparr>f_off := f_off ?x + of_int n1\<rparr>)"
        "file_upd (lowview s) (lowview t) ?a ?nb (unat (f_off ?x)) (take (nat n1) (drop (nat i) src))" by auto
      have off: "unat (f_off ?x + of_int n1) = unat (f_off ?x) + nat n1" using n1(1) le by (intro unat_off_add) auto
      have fin: "unat (f_off (ftable t f)) + nat (n - (i + n1)) \<le> unat (i_size (icache t ip))"
        using P(7) n1 off t(3,5) by simp
      have nn: "\<not> n1 < 0" "\<not> n1 \<noteq> n1" "f_ip (ftable t f) = ip" "0 \<le> i + n1" "i + n1 \<le> n" using P n1 t(5) by auto
      have "kwp (write_chunks dv f src n (i + n1)) ?Q t"
      proof (rule kwp_mono [OF "1.IH" [OF True n1_def nn(1,2) t(1,2) nn(3-5) P(6) fin]], goal_cases)
        case (1 y u)
        have sum: "f_off ?x + of_int n1 + of_int (n - (i + n1)) = f_off ?x + of_int (n - i)" by simp
        have "file_upd (lowview s) (lowview u) ?a ?nb (unat (f_off ?x)) (take (nat n1) (drop (nat i) src) @ drop (nat (i + n1)) src)"
          by (rule file_upd_trans [OF t(6)]) (use 1 t len off in simp)
        then have "file_upd (lowview s) (lowview u) ?a ?nb (unat (f_off ?x)) (drop (nat i) src)" unfolding app .
        moreover have "ftable u = (ftable s)(f := ?x\<lparr>f_off := f_off ?x + of_int (n - i)\<rparr>)" using 1 t(5) sum by (simp add: fun_eq_iff)
        ultimately show ?case using 1 unfolding t(3,4) by blast
      qed
      then show ?case using r n1(1) by simp
    qed
    then show ?thesis using True by (subst write_chunks.simps) (simp add: n1_def [symmetric] Let_def)
  qed
qed

lemma unat_nonneg: "0 \<le> sint (n :: u32) \<Longrightarrow> unat n = nat (sint n)"
proof -
  assume "0 \<le> sint n"
  moreover have "sint n < 2 ^ (LENGTH(32) - 1)" by (rule sint_lt)
  ultimately have "uint n = sint n" by (simp add: uint_sint take_bit_int_eq_self)
  then show ?thesis by (simp add: unat_eq_nat_uint)
qed

lemma fileread_inode:
  assumes idle: "sys_idle s" and rdy: "file_ready ip s" and g: "f_type (ftable s g) = FD_INODE" "f_readable (ftable s g)" "f_ip (ftable s g) = ip"
    and n: "0 < sint n" "unat (f_off (ftable s g)) + nat (sint n) \<le> unat (i_size (icache s ip))"
  shows "\<exists>t. fileread dv killed g n s
    = Ok ((sint n, fbytes (bview s) (i_addrs (icache s ip)) (unat (f_off (ftable s g))) (nat (sint n))), t)"
proof -
  let ?i = "icache s ip" and ?off = "f_off (ftable s g)"
  let ?j = "?i\<lparr>i_flags := I_BUSY OR I_VALID\<rparr>" and ?s1 = "lock_flags ip (I_BUSY OR I_VALID) s"
  let ?bs = "fbytes (bview s) (i_addrs ?i) (unat ?off) (nat (sint n))"
  note I = idle [unfolded sys_idle_def] and R = rdy [unfolded file_ready_def Let_def]
  have un: "unat n = nat (sint n)" using n(1) by (intro unat_nonneg) simp
  have l: "ilock ip s = Ok ((), ?s1)" using R by (intro ilock_valid) simp_all
  have "kwp (readi dv ip ?off n) (\<lambda>r t. r = (sint n, ?bs) \<and> quiet {} ?s1 t) ?s1"
  proof (rule readi_wp [where H = "{}" and i = ?j])
    show "fmapped {} ?s1 (i_addrs ?j) bn" if "bn < blocks_of (i_size ?j)" for bn
    proof -
      have bn: "bn < blocks_of (i_size ?i)" using that by simp
      have "\<forall>x \<in> set (fpath (bview s) (i_addrs ?i) bn). x \<noteq> 0 \<and> unat x < disksize s"
        using file_ready_low(1) [OF rdy refl bn] log_invD(2) [of "{}" s] I by (fastforce simp: in_data_def log_geo_def)
      then show ?thesis using bn R by (simp add: fmapped_def lock_flags_def)
    qed
  qed (use I R un n in \<open>simp_all add: NBUF_def MAXOPBLOCKS_def\<close>)
  then obtain t where t: "readi dv ip ?off n ?s1 = Ok ((sint n, ?bs), t)" "quiet {} ?s1 t" by (auto simp: kwp_Ok)
  note M = file_more [OF quietD(10) [OF t(2)]]
  let ?t1 = "t\<lparr>ftable := (ftable t)(g := (ftable t g)\<lparr>f_off := f_off (ftable t g) + of_int (sint n)\<rparr>)\<rparr>"
  have u: "iunlock ip ?t1 = Ok ((), lock_flags ip I_VALID ?t1)" using M R by (intro iunlock_valid) simp_all
  have "fileread dv killed g n s = Ok ((sint n, ?bs), lock_flags ip I_VALID ?t1)"
    using g l t(1) u n(1) by (simp add: fileread_def kdefs get_file_def upd_file_def M)
  then show ?thesis by blast
qed

text \<open>
  C3: A write to a file is durable and visible. On an idle system, let an open file and
  another one share an inode and stand at the same offset, and let \<open>n\<close> bytes from
  there lie within the file. \<open>filewrite\<close> then returns \<open>n\<close>, however many
  transactions it takes; when it does, the system is idle again, the blocks on the
  disk hold the bytes written at their places and the other bytes of the file as
  before, no block below the log outside the file has changed, the file's offset has
  advanced by \<open>n\<close>, and \<open>fileread\<close> on the other file returns what was written.
\<close>

theorem filewrite_durable:
  assumes idle: "sys_idle s" and rdy: "file_ready ip s"
    and f: "f_type (ftable s f) = FD_INODE" "f_writable (ftable s f)" "f_ip (ftable s f) = ip"
    and g: "g \<noteq> f" "f_type (ftable s g) = FD_INODE" "f_readable (ftable s g)" "f_ip (ftable s g) = ip" "f_off (ftable s g) = f_off (ftable s f)"
    and n: "0 < sint n" "length src = nat (sint n)" "unat (f_off (ftable s f)) + nat (sint n) \<le> unat (i_size (icache s ip))"
  shows "\<exists>t u. filewrite dv killed f src n s = Ok (sint n, t) \<and> sys_idle t \<and> file_ready ip t
    \<and> f_off (ftable t f) = f_off (ftable s f) + n
    \<and> (\<forall>k < unat (i_size (icache s ip)). fbyte (memdisk t) (i_addrs (icache s ip)) k =
          (if unat (f_off (ftable s f)) \<le> k \<and> k < unat (f_off (ftable s f)) + nat (sint n) then src ! (k - unat (f_off (ftable s f)))
           else fbyte (memdisk s) (i_addrs (icache s ip)) k))
    \<and> (\<forall>x < unat (log_start s). (\<forall>bn < blocks_of (i_size (icache s ip)). x \<noteq> unat (fblock (memdisk s) (i_addrs (icache s ip)) bn))
          \<longrightarrow> memdisk t x = memdisk s x)
    \<and> fileread dv killed g n t = Ok ((sint n, src), u)"
proof -
  let ?a = "i_addrs (icache s ip)" and ?nb = "blocks_of (i_size (icache s ip))" and ?off = "unat (f_off (ftable s f))"
  have "unat (f_off (ftable s f)) + nat (sint n - 0) \<le> unat (i_size (icache s ip))" "0 \<le> sint n" using n by simp_all
  from write_chunks_wp [OF idle rdy f(3) order_refl this(2) n(2) this(1), of dv] obtain t where
    t: "write_chunks dv f src (sint n) 0 s = Ok (sint n, t)" "sys_idle t" "file_ready ip t" "icache t = icache s" "log_start t = log_start s"
      "ftable t = (ftable s)(f := (ftable s f)\<lparr>f_off := f_off (ftable s f) + of_int (sint n)\<rparr>)"
      "file_upd (lowview s) (lowview t) ?a ?nb ?off src" by (auto simp: kwp_Ok)
  have w: "filewrite dv killed f src n s = Ok (sint n, t)" using f t(1) by (simp add: filewrite_def kdefs get_file_def)
  have S: "bview s = memdisk s" "bview t = memdisk t" using sys_idle_disk idle t(2) by auto
  note low = low_file [OF rdy] low_file [OF t(3), unfolded t(4)]
  have byt: "fbyte (bview t) ?a k = (if ?off \<le> k \<and> k < ?off + nat (sint n) then src ! (k - ?off) else fbyte (bview s) ?a k)"
    if "k < unat (i_size (icache s ip))" for k
  proof -
    have "k < ?nb * BSIZE" using that blocks_of_ge [of "i_size (icache s ip)"] by linarith
    then show ?thesis using t(7) low n(2) by (simp add: file_upd_def)
  qed
  have oth: "memdisk t x = memdisk s x" if "x < unat (log_start s)" "\<forall>bn < ?nb. x \<noteq> unat (fblock (memdisk s) ?a bn)" for x
  proof -
    have "lowview t x = lowview s x" using t(7) that(2) low(1) S(1) unfolding file_upd_def by auto
    then show ?thesis using that(1) t(5) S by (simp add: lowview_def)
  qed
  have "fbytes (bview t) ?a ?off (nat (sint n)) = src"
    using byt n by (intro nth_equalityI) (auto simp: fbytes_def)
  moreover obtain u where "fileread dv killed g n t = Ok ((sint n, fbytes (bview t) ?a ?off (nat (sint n))), u)"
    using fileread_inode [OF t(2,3), of g n dv killed] g n t(4,6) by auto
  ultimately show ?thesis using w t(2,3,6) byt oth unfolding S by auto
qed

text \<open>
  The disk of \<open>demo_disk\<close> mounted, and two open files at offset 500 of the file of
  1000 bytes in blocks 8 and 9.
\<close>

definition demo_open0 :: file_st where
  "demo_open0 = con_st.extend (fs_st.extend (demo_ist0\<lparr>icache := \<lambda>_. demo_inode\<lparr>i_flags := I_VALID\<rparr>\<rparr>)
       (con_st.fields (replicate 2000 0) 0 0 True [] False demo_input))
     (file_st.fields (\<lambda>_. \<lparr>f_type = FD_INODE, f_ref = 1, f_readable = True, f_writable = True, f_pipe = 0, f_ip = 0, f_off = 500\<rparr>)
        (\<lambda>_. new_pipe []))"

definition demo_open :: file_st where
  "demo_open = (in_tx demo_open0)\<lparr>log_outstanding := 0, log_committing := False\<rparr>"

lemma demo_open_inv:
  "sys_idle demo_open" "unat (log_start demo_open) = 34"
  "icache demo_open = (\<lambda>_. demo_inode\<lparr>i_flags := I_VALID\<rparr>)"
  "ftable demo_open = (\<lambda>_. \<lparr>f_type = FD_INODE, f_ref = 1, f_readable = True, f_writable = True, f_pipe = 0, f_ip = 0, f_off = 500\<rparr>)"
proof -
  note d = demo_open0_def demo_ist0_def log_st.defs fs_st.defs con_st.defs file_st.defs demo_log0_def
  have "head_n (demo_disk 34) = 0" by (simp add: head_n_def demo_disk_def get32_replicate_0 BSIZE_def)
  moreover have "powered_on demo_open0" by (simp add: powered_on_def d)
  ultimately have l: "log_inv {} (in_tx demo_open0) \<and> lh_n (in_tx demo_open0) = 0 \<and> unat (log_start (in_tx demo_open0)) = 34
    \<and> log_size (in_tx demo_open0) = 30"
    using in_tx [of demo_open0 34 30] demo_disk_image by (simp add: d)
  then show "sys_idle demo_open" "unat (log_start demo_open) = 34" by (simp_all add: sys_idle_def demo_open_def)
  have "icache (in_tx demo_open0) = icache demo_open0 \<and> ftable (in_tx demo_open0) = ftable demo_open0"
    using file_more [OF in_tx_more [of demo_open0]] by simp
  then show "icache demo_open = (\<lambda>_. demo_inode\<lparr>i_flags := I_VALID\<rparr>)"
    "ftable demo_open = (\<lambda>_. \<lparr>f_type = FD_INODE, f_ref = 1, f_readable = True, f_writable = True, f_pipe = 0, f_ip = 0, f_off = 500\<rparr>)"
    by (simp_all add: demo_open_def d)
qed

lemma demo_open_ready: "file_ready 0 demo_open"
proof -
  have nb: "blocks_of (i_size demo_inode) = 2" by (simp add: demo_inode_def blocks_of_def BSIZE_def)
  have p: "fpath v (i_addrs demo_inode) bn = [if bn = 0 then 8 else 9]" if "bn < 2" for v bn
    using that by (auto simp: fpath_def NDIRECT_def demo_inode_def less_2_cases_iff)
  have "file_wf (bview demo_open) (i_addrs demo_inode) 2" by (auto simp: file_wf_def fblock_def p less_2_cases_iff)
  moreover have "in_data {} demo_open x" if "bn < 2" "x \<in> set (fpath (bview demo_open) (i_addrs demo_inode) bn)" for bn x
    using that p [of bn] demo_open_inv(2) by (auto simp: in_data_def split: if_splits)
  moreover have "i_ref demo_inode = 1" "i_dev demo_inode = 1" "i_type demo_inode \<noteq> T_DEV"
    by (simp_all add: demo_inode_def T_FILE_def T_DEV_def)
  ultimately show ?thesis by (simp add: file_ready_def demo_open_inv nb MAXFILE_def NDIRECT_def)
qed

theorem filewrite_durable_witness:
  "\<exists>t u. filewrite no_devsw False 3 (replicate 24 7) 24 demo_open = Ok (24, t) \<and> f_off (ftable t 3) = 524
    \<and> fbyte (memdisk t) (i_addrs demo_inode) 520 = 7 \<and> fileread no_devsw False 4 24 t = Ok ((24, replicate 24 7), u)"
proof -
  have i: "i_size demo_inode = 1000" by (simp add: demo_inode_def)
  note w = filewrite_durable [OF demo_open_inv(1) demo_open_ready, where f = 3 and g = 4 and n = 24 and src = "replicate 24 7" and dv = no_devsw and killed = False]
  obtain t u where t: "filewrite no_devsw False 3 (replicate 24 7) 24 demo_open = Ok (sint (24 :: u32), t)" "f_off (ftable t 3) = 500 + 24"
    "\<forall>k < 1000. fbyte (memdisk t) (i_addrs demo_inode) k = (if 500 \<le> k \<and> k < 524 then replicate 24 7 ! (k - 500)
       else fbyte (memdisk demo_open) (i_addrs demo_inode) k)" "fileread no_devsw False 4 24 t = Ok ((sint (24 :: u32), replicate 24 7), u)"
    using w by (auto simp: demo_open_inv i)
  then have "fbyte (memdisk t) (i_addrs demo_inode) 520 = 7" by simp
  then show ?thesis using t by auto
qed

end
