(* ===== verification/Spec2Isabelle.thy ===== *)
theory Spec2Isabelle
  imports Prelude Strings Kalloc Spinlock Bio Log Blocks Inode Dir Font Screen Window Mouse Kbd Ring Pipe Print Ulib Console File Durable
begin

text \<open>
  Verification of xv6 with a graphical interface: the file system from the disk up to
  open files, the page allocator, spin locks, pipes, the console, and the window
  system with its keyboard and mouse. File names below are relative to \<open>src/src\<close>.

  \<^bold>\<open>How the code is modelled.\<close> A kernel routine is a function in the state monad
  \<open>('s, 'a) km\<close> of \<open>Prelude\<close>; its outcome is a result with a new state, \<open>Panic\<close> (a call of
  \<open>panic\<close>), \<open>Sleep\<close> (a call of \<open>sleep\<close>, or spinning on a lock) or \<open>Fault\<close> (an access C
  gives no meaning to). The state is one record that grows with the layers: \<open>kmem\<close>
  (memory and free list), \<open>bio\<close> (disk and buffer cache), \<open>log_st\<close> (log), \<open>fs_st\<close> (inode
  table), \<open>con_st\<close> (console), \<open>file_st\<close> (open files and pipes); every routine is
  polymorphic in the layers above it. The window system has a state of its own,
  \<open>gui_st\<close>, extended by \<open>mouse_st\<close> and \<open>kbd_st\<close>. Pointers into tables are indices.
  Integers are words of their width wherever they can wrap. Routines that run under a
  lock are single steps; where the code gives up a lock in the middle, or has none,
  there is a step relation. The total correctness calculus \<open>kwp\<close> and the frame
  predicate \<open>kpres\<close> carry most proofs.

  \<^bold>\<open>Memory and locks.\<close>
  \<^item> \<open>Strings\<close>: \<open>string.c\<close>; \<open>memmove\<close> on overlapping regions, word-wise \<open>memset\<close>, bounds.
  \<^item> \<open>Kalloc\<close>: \<open>kalloc.c\<close>; the free list threaded through the free pages, \<open>kinit\<close>, and a
    client that allocates, frees and writes: no page is handed out twice or lost.
  \<^item> \<open>Spinlock\<close>: \<open>spinlock.c\<close>; processors that interleave inside \<open>acquire\<close> and \<open>release\<close>:
    mutual exclusion and the nesting of \<open>pushcli\<close>.

  \<^bold>\<open>File system.\<close>
  \<^item> \<open>Bio\<close>: \<open>bio.c\<close>, \<open>memide.c\<close>; the cache shows the logical contents of the disk and
    evicts the least recently used clean buffer.
  \<^item> \<open>Log\<close>: \<open>log.c\<close>; a crash is a prefix of the sector writes. Commits are atomic,
    recovery can itself crash, admission keeps transactions within the log.
  \<^item> \<open>Blocks\<close>, \<open>Inode\<close>, \<open>Dir\<close>: \<open>fs.c\<close>; the block bitmap, inodes on disk and in the
    table, file contents through double indirect blocks, directories, path names.
  \<^item> \<open>File\<close>: \<open>file.c\<close>, \<open>pipealloc\<close> and \<open>pipeclose\<close>; the life of a pipe through the file table.
  \<^item> \<open>Durable\<close>: \<open>filewrite\<close> through inode, log and disk; when it returns, the bytes are on
    the disk and visible to every open file of the inode.

  \<^bold>\<open>Streams.\<close>
  \<^item> \<open>Ring\<close>: circular buffers with free-running indices; the locale \<open>fifo\<close> is the contract
    of a queue of bytes, interpreted for the pipe.
  \<^item> \<open>Pipe\<close>: \<open>pipe.c\<close>; a writer and a reader with their sleeps and wakeups: order, no lost
    wakeup, delivery.
  \<^item> \<open>Print\<close>: \<open>printint\<close>, \<open>cprintf\<close>, \<open>printf\<close>, \<open>atoi\<close>. \<open>Ulib\<close>: the strings of \<open>ulib.c\<close>.
  \<^item> \<open>Console\<close>: \<open>console.c\<close>, \<open>uart.c\<close>; scrolling output, the line discipline as a
    refinement of two lists, a typed line read through the device table.

  \<^bold>\<open>Window system.\<close>
  \<^item> \<open>Font\<close>, \<open>Screen\<close>: \<open>character.h\<close> and the drawing of \<open>gui.c\<close>; every store within its buffer.
  \<^item> \<open>Window\<close>: \<open>window.c\<close>; the linked queue of windows implements a list. The locale
    \<open>redraw_frame\<close> says what redrawing leaves alone; it is interpreted for each such part.
  \<^item> \<open>Mouse\<close>: \<open>mouse.c\<close> and icon focus; packets, clicks, dragging. \<open>focus_frame\<close> extends
    \<open>redraw_frame\<close>. \<open>Kbd\<close>: \<open>kbd.c\<close>, \<open>kbd.h\<close>; decoding of scan codes, editing of text boxes.

  \<^bold>\<open>Bounds and fuel.\<close> Walks of the window queue carry fuel of \<open>MAX_WINDOW_NUM\<close> plus the
  head, which a well-formed queue never exhausts; running out is a \<open>Fault\<close>, so a
  theorem that a call returns shows that the fuel is enough. \<open>kill_loop\<close> of the console
  counts down the characters being edited, of which each turn removes one. The other
  loops terminate by a measure.

  \<^bold>\<open>Parameters.\<close> The linker's symbol \<open>end\<close> (\<open>en\<close>), the device table where the driver is not
  fixed, the flag \<open>killed\<close> and current directory of the calling process, bytes read from
  ports, and the process listing printed on Control-P.

  \<^bold>\<open>Not modelled.\<close> Processes, the scheduler and context switches (\<open>proc.c\<close>, \<open>swtch.S\<close>); page
  tables and program loading (\<open>vm.c\<close> except \<open>switchuvm\<close> and \<open>switchkvm\<close>, \<open>exec.c\<close>); system
  call dispatch and argument checking (\<open>syscall.c\<close>, \<open>sysfile.c\<close>, \<open>sysproc.c\<close>, \<open>trap.c\<close>);
  boot code, interrupt controllers and the IDE driver, which drive hardware through
  ports and registers; \<open>mkfs.c\<close>, the shell, \<open>umalloc.c\<close>, \<open>uwindow.c\<close> and the other user
  programs; the tests. Wakeups are visible only in \<open>Pipe\<close>: elsewhere a sleeper's call
  is run again from the start of the waiting loop.
\<close>

end
